(* ===== verification/KV_Prelude.thy ===== *)
theory KV_Prelude
  imports
    Main
    "HOL-Library.Word"
    "HOL-Library.Finite_Map"
    "HOL-Library.Char_ord"
    "HOL-Library.List_Lexorder"
    "HOL-Library.Sublist"
    "HOL-Library.Multiset"
begin

text \<open>
  Shared vocabulary of the development: the Go types the components exchange, the parts of
  Go's standard library that the sources call (integer formatting and parsing, case mapping,
  saturating time arithmetic), and the generic lemmas on lists and finite maps that the
  component proofs use.

  Go values are represented as follows.
  \<^item> A Go \<^verbatim>\<open>string\<close> or \<^verbatim>\<open>[]byte\<close> is a \<open>string\<close>, that is a list of bytes (\<open>char\<close>).
  \<^item> A \<^verbatim>\<open>time.Time\<close> is its distance from the Unix epoch in nanoseconds, an \<open>int\<close>; a
    \<^verbatim>\<open>time.Duration\<close> is an \<open>int\<close> of nanoseconds in the range of an int64.
  \<^item> A Go map is a finite map. Where the source ranges over a map, the model takes the order
    of the visit as an argument, because Go leaves that order open.
  \<^item> An int64 whose overflow matters is an \<open>int\<close> with the wrap-around written out
    (\<open>wrap64\<close>); a uint64 used for accounting is a \<open>64 word\<close>.
\<close>

section \<open>Types\<close>

type_synonym bytes = string
type_synonym time = int
type_synonym duration = int

named_theorems kv_defs \<open>definitions of small operations that component proofs unfold\<close>
named_theorems kv_inv \<open>preservation of the component invariants\<close>
named_theorems kv_frame \<open>parts of the state an operation leaves alone\<close>

section \<open>Fixed-width integers\<close>

definition maxInt64 :: int where
  "maxInt64 = 2 ^ 63 - 1"

definition minInt64 :: int where
  "minInt64 = - (2 ^ 63)"

definition is_int64 :: "int \<Rightarrow> bool" where
  "is_int64 i \<longleftrightarrow> minInt64 \<le> i \<and> i \<le> maxInt64"

text \<open>The value an int64 holds after an operation with the mathematical result \<open>i\<close>.\<close>

definition wrap64 :: "int \<Rightarrow> int" where
  "wrap64 i = (i + 2 ^ 63) mod 2 ^ 64 - 2 ^ 63"

lemmas int64_defs = maxInt64_def minInt64_def is_int64_def

lemma wrap64_id [simp]: "is_int64 i \<Longrightarrow> wrap64 i = i"
  by (simp add: wrap64_def int64_defs)

lemma is_int64_wrap64 [simp]: "is_int64 (wrap64 i)"
proof -
  have "0 \<le> (i + 2 ^ 63) mod 2 ^ 64" and "(i + 2 ^ 63) mod 2 ^ 64 < (2 ^ 64 :: int)"
    by simp_all
  then show ?thesis by (simp add: wrap64_def int64_defs)
qed

text \<open>Go's integer division truncates towards zero.\<close>

definition quo :: "int \<Rightarrow> int \<Rightarrow> int" where
  "quo a b = sgn a * sgn b * (\<bar>a\<bar> div \<bar>b\<bar>)"

lemma quo_nonneg [simp]: "0 \<le> a \<Longrightarrow> 0 < b \<Longrightarrow> quo a b = a div b"
  by (cases "a = 0") (simp_all add: quo_def)

section \<open>Time\<close>

definition nsPerMs :: int where
  "nsPerMs = 1000000"

definition nsPerSec :: int where
  "nsPerSec = 1000000000"

text \<open>The zero \<^verbatim>\<open>time.Time\<close>, the first instant of year 1.\<close>

definition zeroTime :: time where
  "zeroTime = - 62135596800 * nsPerSec"

definition time_Add :: "time \<Rightarrow> duration \<Rightarrow> time" where
  "time_Add t d = t + d"

text \<open>\<^verbatim>\<open>Time.Sub\<close> saturates at the extreme durations instead of wrapping.\<close>

definition time_Sub :: "time \<Rightarrow> time \<Rightarrow> duration" where
  "time_Sub t u = max minInt64 (min maxInt64 (t - u))"

text \<open>
  \<^verbatim>\<open>Time.UnixMilli\<close> drops the part below a millisecond (towards the past) and is an int64;
  \<^verbatim>\<open>time.UnixMilli\<close> is the way back.
\<close>

definition toUnixMilli :: "time \<Rightarrow> int" where
  "toUnixMilli t = wrap64 (t div nsPerMs)"

definition fromUnixMilli :: "int \<Rightarrow> time" where
  "fromUnixMilli ms = ms * nsPerMs"

text \<open>\<^verbatim>\<open>Duration.Milliseconds\<close>.\<close>

definition dur_Milliseconds :: "duration \<Rightarrow> int" where
  "dur_Milliseconds d = quo d nsPerMs"

lemmas time_defs = nsPerMs_def nsPerSec_def time_Add_def time_Sub_def

section \<open>Decimal integers\<close>

abbreviation byte :: "char \<Rightarrow> nat" where
  "byte c \<equiv> of_char c"

definition is_digit :: "char \<Rightarrow> bool" where
  "is_digit c \<longleftrightarrow> 48 \<le> byte c \<and> byte c \<le> 57"

definition digit_val :: "char \<Rightarrow> nat" where
  "digit_val c = byte c - 48"

definition digit_char :: "nat \<Rightarrow> char" where
  "digit_char d = char_of (48 + d)"

definition dec_val :: "string \<Rightarrow> nat" where
  "dec_val s = foldl (\<lambda>n c. n * 10 + digit_val c) 0 s"

text \<open>\<^verbatim>\<open>strconv.FormatUint\<close> and \<^verbatim>\<open>strconv.FormatInt\<close> in base 10.\<close>

fun FormatUint :: "nat \<Rightarrow> string" where
  "FormatUint n = (if n < 10 then [digit_char n] else FormatUint (n div 10) @ [digit_char (n mod 10)])"

declare FormatUint.simps [simp del]

definition FormatInt :: "int \<Rightarrow> string" where
  "FormatInt i = (if i < 0 then CHR ''-'' # FormatUint (nat (- i)) else FormatUint (nat i))"

text \<open>
  \<^verbatim>\<open>strconv.ParseUint(s, 10, 64)\<close> and \<^verbatim>\<open>strconv.ParseInt(s, 10, 64)\<close>; \<open>None\<close> stands for
  their syntax and range errors, which no caller tells apart. With an explicit base Go accepts
  no underscores and no prefix.
\<close>

definition ParseUint :: "string \<Rightarrow> nat option" where
  "ParseUint s = (if s \<noteq> [] \<and> list_all is_digit s \<and> dec_val s < 2 ^ 64 then Some (dec_val s) else None)"

definition ParseInt :: "string \<Rightarrow> int option" where
  "ParseInt s =
     (case s of
        [] \<Rightarrow> None
      | c # cs \<Rightarrow>
          (let neg = (c = CHR ''-'');
               digits = (if c = CHR ''+'' \<or> c = CHR ''-'' then cs else s)
           in case ParseUint digits of
                None \<Rightarrow> None
              | Some un \<Rightarrow>
                  if \<not> neg \<and> un \<ge> 2 ^ 63 then None
                  else if neg \<and> un > 2 ^ 63 then None
                  else Some (if neg then - int un else int un)))"

lemma digit_char_digit [simp]: "d < 10 \<Longrightarrow> is_digit (digit_char d)"
  by (simp add: is_digit_def digit_char_def)

lemma digit_val_digit_char [simp]: "d < 10 \<Longrightarrow> digit_val (digit_char d) = d"
  by (simp add: digit_val_def digit_char_def)

lemma digit_char_neq_sign: "d < 10 \<Longrightarrow> digit_char d \<noteq> CHR ''-'' \<and> digit_char d \<noteq> CHR ''+''"
proof -
  assume "d < 10"
  then have "is_digit (digit_char d)" by simp
  moreover have "\<not> is_digit CHR ''-''" and "\<not> is_digit CHR ''+''"
    by (simp_all add: is_digit_def)
  ultimately show ?thesis by metis
qed

lemma dec_val_snoc [simp]: "dec_val (s @ [c]) = dec_val s * 10 + digit_val c"
  by (simp add: dec_val_def)

lemma dec_val_single [simp]: "dec_val [c] = digit_val c"
  by (simp add: dec_val_def)

lemma dec_val_FormatUint [simp]: "dec_val (FormatUint n) = n"
  by (induction n rule: FormatUint.induct) (subst FormatUint.simps, simp)

lemma digits_FormatUint [simp]: "list_all is_digit (FormatUint n)"
  by (induction n rule: FormatUint.induct) (subst FormatUint.simps, simp)

lemma FormatUint_nonempty [simp]: "FormatUint n \<noteq> []"
  by (subst FormatUint.simps) simp

lemma hd_FormatUint: "is_digit (hd (FormatUint n))"
  using digits_FormatUint [of n] FormatUint_nonempty [of n] by (cases "FormatUint n") simp_all

text \<open>The number of digits, as an upper bound from a power of ten.\<close>

lemma length_FormatUint: "n < 10 ^ k \<Longrightarrow> 0 < k \<Longrightarrow> length (FormatUint n) \<le> k"
proof (induction n arbitrary: k rule: FormatUint.induct)
  case (1 n)
  show ?case
  proof (cases "n < 10")
    case True
    with "1.prems" show ?thesis by (subst FormatUint.simps) simp
  next
    case False
    then obtain j where k: "k = Suc j" and j: "0 < j"
      using "1.prems" by (cases k; cases "k = 1") auto
    have "n div 10 < 10 ^ j"
      using "1.prems"(1) by (simp add: k less_mult_imp_div_less mult.commute)
    from "1.IH" [OF False this j] False show ?thesis
      by (subst FormatUint.simps) (simp add: k)
  qed
qed

lemma ParseUint_FormatUint [simp]: "n < 2 ^ 64 \<Longrightarrow> ParseUint (FormatUint n) = Some n"
  by (simp add: ParseUint_def)

lemma ParseInt_FormatInt:
  assumes "is_int64 i"
  shows "ParseInt (FormatInt i) = Some i"
proof (cases "i < 0")
  case True
  with assms have "nat (- i) < 2 ^ 64" and "nat (- i) \<le> 2 ^ 63"
    by (simp_all add: int64_defs nat_le_iff nat_less_iff)
  with True show ?thesis
    by (simp add: FormatInt_def ParseInt_def)
next
  case False
  with assms have b: "nat i < 2 ^ 63" by (simp add: int64_defs nat_less_iff)
  then have b': "nat i < 2 ^ 64" by simp
  obtain c cs where f: "FormatUint (nat i) = c # cs"
    using FormatUint_nonempty by (meson list.exhaust)
  then have "is_digit c" using hd_FormatUint [of "nat i"] by simp
  then have "c \<noteq> CHR ''-''" and "c \<noteq> CHR ''+''"
    by (auto simp: is_digit_def)
  moreover have "ParseUint (c # cs) = Some (nat i)"
    using ParseUint_FormatUint [OF b'] by (simp add: f)
  ultimately show ?thesis
    using False b by (simp add: FormatInt_def ParseInt_def f)
qed

lemma ParseInt_is_int64: "ParseInt s = Some i \<Longrightarrow> is_int64 i"
  by (auto simp: ParseInt_def Let_def int64_defs split: list.splits option.splits if_splits)

section \<open>Case mapping\<close>

definition upper_byte :: "char \<Rightarrow> char" where
  "upper_byte c = (if 97 \<le> byte c \<and> byte c \<le> 122 then char_of (byte c - 32) else c)"

definition lower_byte :: "char \<Rightarrow> char" where
  "lower_byte c = (if 65 \<le> byte c \<and> byte c \<le> 90 then char_of (byte c + 32) else c)"

text \<open>
  \<^verbatim>\<open>strings.ToUpper\<close> maps runes, not bytes. Two runes outside ASCII have an upper case inside
  it: U+0131 (bytes C4 B1) becomes \<^verbatim>\<open>I\<close> and U+017F (bytes C5 BF) becomes \<^verbatim>\<open>S\<close>. Neither lead
  byte is ever a continuation byte, so the pair is decoded as that rune wherever it stands.
  Every other rune outside ASCII has an upper case outside ASCII; the model leaves its bytes
  alone, which gives the same answer to every comparison of the sources, since they compare
  the result with ASCII literals only.
\<close>

fun ToUpper :: "string \<Rightarrow> string" where
  "ToUpper [] = []"
| "ToUpper [c] = [upper_byte c]"
| "ToUpper (c # d # s) =
     (if byte c = 196 \<and> byte d = 177 then CHR ''I'' # ToUpper s
      else if byte c = 197 \<and> byte d = 191 then CHR ''S'' # ToUpper s
      else upper_byte c # ToUpper (d # s))"

text \<open>\<^verbatim>\<open>strings.ToLower\<close>, used by the sources on names that are ASCII.\<close>

definition ToLower :: "string \<Rightarrow> string" where
  "ToLower s = map lower_byte s"

section \<open>Lists\<close>

lemma set_sort_distinct_unique:
  fixes xs ys :: "'a::linorder list"
  assumes "distinct xs" and "distinct ys" and "set xs = set ys"
  shows "sort xs = sort ys"
  using assms by (simp add: sorted_distinct_set_unique)

lemma prefix_append_cases:
  assumes "prefix p (a @ b)"
  obtains (Inside) "strict_prefix p a" | (Beyond) q where "p = a @ q" and "prefix q b"
  using assms by (metis prefix_append prefix_order.le_less append_Nil2 prefix_order.refl Nil_prefix)

lemma strict_prefix_append_cases:
  "strict_prefix p (xs @ ys) \<Longrightarrow> strict_prefix p xs \<or> (\<exists>q. p = xs @ q \<and> strict_prefix q ys)"
  by (auto simp: strict_prefix_def prefix_append)

lemma suffix_drop_length: "suffix xs ys \<Longrightarrow> drop (length ys - length xs) ys = xs"
  by (auto simp: suffix_def)

section \<open>Finite maps\<close>

text \<open>
  The order in which a \<^verbatim>\<open>for range\<close> visits the keys of a map. Go promises only that every key
  is visited once, so an operation that ranges over a map takes such a choice as an argument
  and its properties hold for every fair one.
\<close>

type_synonym 'k ranger = "'k fset \<Rightarrow> 'k list"

definition fair_ranger :: "'k ranger \<Rightarrow> bool" where
  "fair_ranger rng \<longleftrightarrow> (\<forall>S. distinct (rng S) \<and> set (rng S) = fset S)"

lemma fair_rangerD [simp]:
  assumes "fair_ranger rng"
  shows "distinct (rng S)" and "set (rng S) = fset S"
  using assms by (simp_all add: fair_ranger_def)

lemma length_fair_ranger [simp]: "fair_ranger rng \<Longrightarrow> length (rng S) = fcard S"
  by (metis fair_rangerD distinct_card fcard.rep_eq)

lemma fair_sorted_list_of_fset: "fair_ranger (sorted_list_of_fset :: ('k::linorder) ranger)"
  by (simp add: fair_ranger_def sorted_list_of_fset_def)

text \<open>\<^verbatim>\<open>len\<close> of a map.\<close>

definition map_len :: "('k, 'v) fmap \<Rightarrow> nat" where
  "map_len m = fcard (fmdom m)"

lemma map_len_eq_0 [simp]: "map_len m = 0 \<longleftrightarrow> m = fmempty"
  by (auto simp: map_len_def fmap_ext fmdom_notD)

lemma map_len_fmupd: "map_len (fmupd k v m) = (if k |\<in>| fmdom m then map_len m else Suc (map_len m))"
  by (simp add: map_len_def fcard_finsert_if finsert_absorb)

end
