(* ===== verification/Glob.thy ===== *)
theory Glob
  imports KV_Prelude
begin

text \<open>
  The glob matcher (\<^verbatim>\<open>internal/glob/glob.go\<close>). The source matches with two indices and a single
  backtracking point, the last star seen; the first part translates it index by index. The
  second part gives the meaning of a pattern: its tokens, and which byte strings a token list
  matches. The two agree on every pattern and every value.
\<close>

section \<open>The matcher\<close>

text \<open>\<^verbatim>\<open>int8(b)\<close> of a byte.\<close>

definition int8 :: "char \<Rightarrow> int" where
  "int8 c = (if byte c < 128 then int (byte c) else int (byte c) - 256)"

definition in_range :: "char \<Rightarrow> char \<Rightarrow> char \<Rightarrow> bool" where
  "in_range a b value =
     (let lo = int8 a; hi = int8 b;
          (lo, hi) = (if lo > hi then (hi, lo) else (lo, hi));
          candidate = int8 value
      in candidate \<ge> lo \<and> candidate \<le> hi)"

function class_loop :: "string \<Rightarrow> bool \<Rightarrow> char \<Rightarrow> nat \<Rightarrow> bool \<Rightarrow> nat \<times> bool" where
  "class_loop pattern negated value i matched =
     (if i < length pattern then
        if pattern ! i = CHR '']'' then (i + 1, if negated then \<not> matched else matched)
        else if pattern ! i = CHR 0x5C \<and> i + 1 < length pattern then
          class_loop pattern negated value (i + 2) (matched \<or> pattern ! (i + 1) = value)
        else if i + 2 < length pattern \<and> pattern ! (i + 1) = CHR ''-'' then
          class_loop pattern negated value (i + 3)
            (matched \<or> in_range (pattern ! i) (pattern ! (i + 2)) value)
        else class_loop pattern negated value (i + 1) (matched \<or> pattern ! i = value)
      else (length pattern, if negated then \<not> matched else matched))"
  by pat_completeness auto
termination
  by (relation "measure (\<lambda>(pattern, negated, value, i, matched). length pattern - i)") auto

declare class_loop.simps [simp del]

definition matchClass :: "string \<Rightarrow> nat \<Rightarrow> char \<Rightarrow> nat \<times> bool" where
  "matchClass pattern at value =
     (let i = at + 1;
          negated = (i < length pattern \<and> pattern ! i = CHR ''^'');
          i = (if negated then i + 1 else i)
      in class_loop pattern negated value i False)"

definition matchOne :: "string \<Rightarrow> nat \<Rightarrow> char \<Rightarrow> nat \<times> bool" where
  "matchOne pattern at value =
     (if at \<ge> length pattern then (at, False)
      else if pattern ! at = CHR ''?'' then (at + 1, True)
      else if pattern ! at = CHR 0x5C then
        (if at + 1 < length pattern then (at + 2, pattern ! (at + 1) = value)
         else (at + 1, value = CHR 0x5C))
      else if pattern ! at = CHR ''['' then matchClass pattern at value
      else (at + 1, pattern ! at = value))"

function skip_stars :: "string \<Rightarrow> nat \<Rightarrow> nat" where
  "skip_stars pattern pi =
     (if pi < length pattern \<and> pattern ! pi = CHR ''*'' then skip_stars pattern (pi + 1) else pi)"
  by pat_completeness auto
termination
  by (relation "measure (\<lambda>(pattern, pi). length pattern - pi)") auto

declare skip_stars.simps [simp del]

lemma skip_stars_ge: "pi \<le> skip_stars p pi"
proof (induction p pi rule: skip_stars.induct)
  case (1 p pi)
  then show ?case by (cases "pi < length p \<and> p ! pi = CHR ''*''") (auto simp: skip_stars.simps [of p pi])
qed

lemma skip_stars_gt: "pi < length p \<Longrightarrow> p ! pi = CHR ''*'' \<Longrightarrow> pi < skip_stars p pi"
  using skip_stars_ge [of "pi + 1" p] by (simp add: skip_stars.simps [of p pi])

lemma skip_stars_progress:
  "pi < length p \<Longrightarrow> p ! pi = CHR ''*'' \<Longrightarrow> a \<le> pi \<Longrightarrow> length p - skip_stars p pi < length p - a"
  using skip_stars_gt [of pi p] by linarith

lemma class_loop_ge: "i \<le> length p \<Longrightarrow> i \<le> fst (class_loop p neg c i m)"
proof (induction p neg c i m rule: class_loop.induct)
  case (1 p neg c i m)
  then show ?case by (subst class_loop.simps) auto
qed

lemma matchOne_ge: "at \<le> fst (matchOne p at c)"
proof -
  have "at \<le> fst (matchClass p at c)" if "at < length p"
  proof -
    let ?i = "if at + 1 < length p \<and> p ! (at + 1) = CHR ''^'' then at + 1 + 1 else at + 1"
    have "?i \<le> fst (class_loop p (at + 1 < length p \<and> p ! (at + 1) = CHR ''^'') c ?i False)"
      using that by (intro class_loop_ge) simp
    then show ?thesis
      by (cases "at + 1 < length p \<and> p ! (at + 1) = CHR ''^''") (auto simp: matchClass_def Let_def)
  qed
  then show ?thesis by (simp add: matchOne_def)
qed

text \<open>
  The outer loop. The variables \<^verbatim>\<open>starPattern\<close> and \<^verbatim>\<open>starValue\<close> are assigned together and are
  \<open>None\<close> while both are -1.
\<close>

definition star_ok :: "nat \<Rightarrow> nat \<Rightarrow> (nat \<times> nat) option \<Rightarrow> bool" where
  "star_ok pi vi star = (case star of None \<Rightarrow> True | Some (sp, sv) \<Rightarrow> sp \<le> pi \<and> sv \<le> vi)"

function match_loop :: "string \<Rightarrow> string \<Rightarrow> nat \<Rightarrow> nat \<Rightarrow> (nat \<times> nat) option \<Rightarrow> bool" where
  "match_loop pattern value pi vi star =
     (if vi < length value then
        if pi < length pattern \<and> pattern ! pi = CHR ''*'' then
          (if skip_stars pattern pi = length pattern then True
           else match_loop pattern value (skip_stars pattern pi) vi (Some (skip_stars pattern pi, vi)))
        else if snd (matchOne pattern pi (value ! vi)) then
          match_loop pattern value (fst (matchOne pattern pi (value ! vi))) (vi + 1) star
        else
          (case star of
             None \<Rightarrow> False
           | Some (sp, sv) \<Rightarrow>
               if sv < length value then match_loop pattern value sp (sv + 1) (Some (sp, sv + 1))
               else False)
      else skip_stars pattern pi = length pattern)"
  by pat_completeness auto
termination
  by (relation "measures
      [\<lambda>(p, v, pi, vi, star). if star_ok pi vi star then 0 else 1,
       \<lambda>(p, v, pi, vi, star). case star of None \<Rightarrow> Suc (length p) | Some (sp, sv) \<Rightarrow> length p - sp,
       \<lambda>(p, v, pi, vi, star). case star of None \<Rightarrow> Suc (length v) | Some (sp, sv) \<Rightarrow> length v - sv,
       \<lambda>(p, v, pi, vi, star). length v - vi]")
    (auto simp: star_ok_def split: option.splits
      intro: order_trans [OF _ matchOne_ge] skip_stars_progress)

declare match_loop.simps [simp del]

definition glob_Match :: "string \<Rightarrow> string \<Rightarrow> bool" where
  "glob_Match pattern value = match_loop pattern value 0 0 None"

section \<open>The meaning of a pattern\<close>

datatype class_item = Lit char | Range char char

datatype token = Star | AnyByte | Byte char | Class bool "class_item list"

fun class_items :: "string \<Rightarrow> class_item list \<times> string" where
  "class_items [] = ([], [])"
| "class_items (c # r) =
     (if c = CHR '']'' then ([], r)
      else if c = CHR 0x5C \<and> r \<noteq> [] then
        (case class_items (tl r) of (items, rest) \<Rightarrow> (Lit (hd r) # items, rest))
      else if length r \<ge> 2 \<and> hd r = CHR ''-'' then
        (case class_items (drop 2 r) of (items, rest) \<Rightarrow> (Range c (r ! 1) # items, rest))
      else (case class_items r of (items, rest) \<Rightarrow> (Lit c # items, rest)))"

lemma class_items_shorter: "length (snd (class_items r)) \<le> length r"
  by (induction r rule: class_items.induct) (auto split: prod.splits)

lemma class_items_suffix: "suffix (snd (class_items r)) r"
proof (induction r rule: class_items.induct)
  case (2 c r)
  have "suffix (tl r) (c # r)" "suffix (drop 2 r) (c # r)" "suffix r (c # r)"
    by (simp_all add: suffix_ConsI suffix_tl suffix_drop)
  with 2 show ?case
    by (auto split: prod.splits intro: suffix_order.trans suffix_ConsI)
qed simp

lemma class_items_tl_shorter [termination_simp]:
  "length (snd (class_items (tl r))) < Suc (length r)" "length (snd (class_items r)) < Suc (length r)"
  using class_items_shorter [of r] class_items_shorter [of "tl r"] by auto

fun tokenize :: "string \<Rightarrow> token list" where
  "tokenize [] = []"
| "tokenize (c # r) =
     (if c = CHR ''*'' then Star # tokenize r
      else if c = CHR ''?'' then AnyByte # tokenize r
      else if c = CHR 0x5C then (if r = [] then [Byte c] else Byte (hd r) # tokenize (tl r))
      else if c = CHR ''['' then
        (let neg = (r \<noteq> [] \<and> hd r = CHR ''^''); body = (if neg then tl r else r)
         in Class neg (fst (class_items body)) # tokenize (snd (class_items body)))
      else Byte c # tokenize r)"


fun item_matches :: "class_item \<Rightarrow> char \<Rightarrow> bool" where
  "item_matches (Lit c) b = (c = b)"
| "item_matches (Range lo hi) b = in_range lo hi b"

fun tok_matches :: "token \<Rightarrow> char \<Rightarrow> bool" where
  "tok_matches Star b = False"
| "tok_matches AnyByte b = True"
| "tok_matches (Byte c) b = (c = b)"
| "tok_matches (Class neg items) b = ((\<exists>i \<in> set items. item_matches i b) \<noteq> neg)"

text \<open>A star matches any byte string, every other token matches one byte.\<close>

fun matches :: "token list \<Rightarrow> string \<Rightarrow> bool" where
  "matches [] v = (v = [])"
| "matches (t # ts) v =
     (if t = Star then \<exists>k \<le> length v. matches ts (drop k v)
      else v \<noteq> [] \<and> tok_matches t (hd v) \<and> matches ts (tl v))"

section \<open>One token at a time\<close>

lemma class_loop_items:
  assumes "i \<le> length p"
  shows "class_loop p neg c i m =
    (length p - length (snd (class_items (drop i p))),
     (m \<or> (\<exists>it \<in> set (fst (class_items (drop i p))). item_matches it c)) \<noteq> neg)"
  using assms
proof (induction p neg c i m rule: class_loop.induct)
  case (1 p neg c i m)
  show ?case
  proof (cases "i < length p")
    case False
    with "1.prems" show ?thesis by (subst class_loop.simps) simp
  next
    case True
    then have d: "drop i p = p ! i # drop (Suc i) p" by (simp add: Cons_nth_drop_Suc)
    have hd_d: "hd (drop (Suc i) p) = p ! Suc i" if "Suc i < length p"
      using that by (simp add: hd_drop_conv_nth)
    show ?thesis
      using True "1.IH" d hd_d
      by (auto simp: class_loop.simps [of p neg c i m] drop_Suc [symmetric] tl_drop
          numeral_3_eq_3 numeral_2_eq_2 split: prod.splits)
  qed
qed

text \<open>
  Away from a star, \<^verbatim>\<open>matchOne\<close> decides the next token and moves to the position after it,
  whatever the byte.
\<close>

lemma matchClass_token:
  assumes "at < length p" and "p ! at = CHR ''[''"
  shows "\<exists>t next. (\<forall>c. matchClass p at c = (next, tok_matches t c)) \<and> t \<noteq> Star
    \<and> tokenize (drop at p) = t # tokenize (drop next p) \<and> at < next \<and> next \<le> length p"
proof -
  define neg where "neg = (at + 1 < length p \<and> p ! (at + 1) = CHR ''^'')"
  define i where "i = (if neg then at + 1 + 1 else at + 1)"
  define items where "items = fst (class_items (drop i p))"
  define rest where "rest = snd (class_items (drop i p))"
  have i: "i \<le> length p" "at < i" using assms by (auto simp: i_def neg_def)
  have d: "drop at p = CHR ''['' # drop (at + 1) p"
    using assms by (metis Cons_nth_drop_Suc Suc_eq_plus1)
  have neg: "(drop (at + 1) p \<noteq> [] \<and> hd (drop (at + 1) p) = CHR ''^'') = neg"
    by (auto simp: hd_drop_conv_nth neg_def)
  have body: "(if neg then tl (drop (at + 1) p) else drop (at + 1) p) = drop i p"
    by (simp add: tl_drop drop_Suc i_def)
  have suf: "suffix rest (drop i p)" unfolding rest_def by (rule class_items_suffix)
  then have "suffix rest p" using suffix_drop suffix_order.trans by blast
  then have rest: "drop (length p - length rest) p = rest" by (rule suffix_drop_length)
  have "length rest \<le> length p - i" using suffix_length_le [OF suf] by simp
  then have "at < length p - length rest" using i by linarith
  moreover have "matchClass p at c = (length p - length rest, tok_matches (Class neg items) c)" for c
    using class_loop_items [OF i(1), of neg c False]
    by (simp add: matchClass_def Let_def i_def [symmetric] neg_def [symmetric] items_def rest_def
        del: One_nat_def add_Suc_right)
  moreover have "tokenize (drop at p) = Class neg items # tokenize (drop (length p - length rest) p)"
    unfolding rest d tokenize.simps Let_def neg body by (simp add: items_def rest_def)
  ultimately show ?thesis
    by (intro exI [of _ "Class neg items"] exI [of _ "length p - length rest"]) simp
qed

lemma matchOne_token:
  assumes "at < length p" and "p ! at \<noteq> CHR ''*''"
  shows "\<exists>t next. (\<forall>c. matchOne p at c = (next, tok_matches t c)) \<and> t \<noteq> Star
    \<and> tokenize (drop at p) = t # tokenize (drop next p) \<and> at < next \<and> next \<le> length p"
proof -
  have d: "drop at p = p ! at # drop (Suc at) p"
    using assms by (simp add: Cons_nth_drop_Suc)
  have h: "hd (drop (Suc at) p) = p ! Suc at" if "Suc at < length p"
    using that by (simp add: hd_drop_conv_nth)
  consider (any) "p ! at = CHR ''?''" | (esc) "p ! at = CHR 0x5C" | (cls) "p ! at = CHR ''[''"
    | (lit) "p ! at \<notin> {CHR ''?'', CHR 0x5C, CHR ''[''}" by auto
  then show ?thesis
  proof cases
    case any
    then show ?thesis using assms d
      by (intro exI [of _ AnyByte] exI [of _ "Suc at"]) (simp add: matchOne_def)
  next
    case esc
    show ?thesis
    proof (cases "Suc at < length p")
      case True
      moreover have "tl (drop (Suc at) p) = drop (at + 2) p" by (simp add: tl_drop drop_Suc)
      ultimately show ?thesis using esc assms d h
        by (intro exI [of _ "Byte (p ! Suc at)"] exI [of _ "at + 2"]) (auto simp: matchOne_def)
    next
      case False
      then show ?thesis using esc assms d
        by (intro exI [of _ "Byte CHR 0x5C"] exI [of _ "Suc at"]) (auto simp: matchOne_def)
    qed
  next
    case cls
    then have "matchOne p at c = matchClass p at c" for c
      using assms by (simp add: matchOne_def)
    then show ?thesis using matchClass_token [OF assms(1) cls] by simp
  next
    case lit
    then show ?thesis using assms d
      by (intro exI [of _ "Byte (p ! at)"] exI [of _ "Suc at"]) (simp add: matchOne_def)
  qed
qed

lemma tokenize_skip_stars:
  assumes "pi \<le> length p"
  shows "\<exists>n. tokenize (drop pi p) = replicate n Star @ tokenize (drop (skip_stars p pi) p)
    \<and> (pi < length p \<and> p ! pi = CHR ''*'' \<longrightarrow> 0 < n)
    \<and> skip_stars p pi \<le> length p
    \<and> \<not> (skip_stars p pi < length p \<and> p ! skip_stars p pi = CHR ''*'')"
  using assms
proof (induction p pi rule: skip_stars.induct)
  case (1 p pi)
  show ?case
  proof (cases "pi < length p \<and> p ! pi = CHR ''*''")
    case True
    then have d: "drop pi p = CHR ''*'' # drop (pi + 1) p"
      by (metis Cons_nth_drop_Suc Suc_eq_plus1)
    from "1.IH" [OF True] True obtain n where
      n: "tokenize (drop (pi + 1) p) = replicate n Star @ tokenize (drop (skip_stars p (pi + 1)) p)"
      "skip_stars p (pi + 1) \<le> length p"
      "\<not> (skip_stars p (pi + 1) < length p \<and> p ! skip_stars p (pi + 1) = CHR ''*'')"
      by auto
    then have "tokenize (drop pi p) = replicate (Suc n) Star @ tokenize (drop (skip_stars p pi) p)"
      using True by (simp add: d skip_stars.simps [of p pi])
    then show ?thesis
      using True n by (intro exI [of _ "Suc n"]) (simp add: skip_stars.simps [of p pi])
  next
    case False
    then have "skip_stars p pi = pi" by (subst skip_stars.simps) (rule if_not_P)
    then show ?thesis using False "1.prems" by (auto intro: exI [of _ 0])
  qed
qed

section \<open>Lemmas on the meaning\<close>

lemma matches_Star: "matches (Star # ts) v \<longleftrightarrow> (\<exists>k \<le> length v. matches ts (drop k v))"
  by simp

lemma matches_drop_Star:
  assumes "matches (Star # ts) (drop k v)"
  shows "matches (Star # ts) v"
proof -
  from assms obtain j where j: "j \<le> length v - k" "matches ts (drop (j + k) v)"
    by (auto simp: add.commute)
  show ?thesis
  proof (cases "k \<le> length v")
    case True
    with j have "j + k \<le> length v" by simp
    with j show ?thesis by (auto intro!: exI [of _ "j + k"])
  next
    case False
    with j have "matches ts (drop (length v) v)" by simp
    then show ?thesis by auto
  qed
qed

lemma matches_Star_Star: "matches (Star # Star # ts) v \<longleftrightarrow> matches (Star # ts) v"
proof
  assume "matches (Star # Star # ts) v"
  then obtain k where "matches (Star # ts) (drop k v)" by (meson matches_Star)
  then show "matches (Star # ts) v" by (rule matches_drop_Star)
next
  assume "matches (Star # ts) v"
  then have "matches (Star # ts) (drop 0 v)" by simp
  then show "matches (Star # Star # ts) v" by (meson matches_Star le0)
qed

lemma matches_replicate_Star: "matches (replicate (Suc n) Star @ ts) v \<longleftrightarrow> matches (Star # ts) v"
proof (induction n arbitrary: v)
  case (Suc n)
  have "matches (replicate (Suc (Suc n)) Star @ ts) v \<longleftrightarrow> matches (Star # replicate (Suc n) Star @ ts) v"
    by simp
  also have "\<dots> \<longleftrightarrow> (\<exists>k \<le> length v. matches (Star # ts) (drop k v))"
    unfolding matches_Star Suc ..
  also have "\<dots> \<longleftrightarrow> matches (Star # Star # ts) v" by (rule matches_Star [symmetric])
  finally show ?case by (simp only: matches_Star_Star)
qed simp

lemma matches_ones:
  assumes "Star \<notin> set ones"
  shows "matches (ones @ ts) v \<longleftrightarrow>
    length ones \<le> length v \<and> list_all2 tok_matches ones (take (length ones) v) \<and> matches ts (drop (length ones) v)"
  using assms
proof (induction ones arbitrary: v)
  case (Cons t ones)
  then show ?case by (cases v) auto
qed simp

section \<open>The loop decides the meaning\<close>

text \<open>
  What the loop knows at its head. With a star behind it, the tokens between the star and the
  current position have matched the bytes between \<^verbatim>\<open>starValue\<close> and the current byte.
\<close>

definition loop_inv :: "string \<Rightarrow> string \<Rightarrow> nat \<Rightarrow> nat \<Rightarrow> (nat \<times> nat) option \<Rightarrow> bool" where
  "loop_inv p v pi vi star \<longleftrightarrow> pi \<le> length p \<and> vi \<le> length v \<and>
     (case star of
        None \<Rightarrow> True
      | Some (sp, sv) \<Rightarrow> sv \<le> vi \<and> sp < length p \<and> p ! sp \<noteq> CHR ''*'' \<and>
          (\<exists>ones. tokenize (drop sp p) = ones @ tokenize (drop pi p) \<and> Star \<notin> set ones
             \<and> list_all2 tok_matches ones (take (vi - sv) (drop sv v))))"

definition loop_goal :: "string \<Rightarrow> string \<Rightarrow> nat \<Rightarrow> nat \<Rightarrow> (nat \<times> nat) option \<Rightarrow> bool" where
  "loop_goal p v pi vi star =
     (case star of
        None \<Rightarrow> matches (tokenize (drop pi p)) (drop vi v)
      | Some (sp, sv) \<Rightarrow> matches (Star # tokenize (drop sp p)) (drop sv v))"

text \<open>Committing to a later star loses no match.\<close>

lemma later_star_suffices:
  assumes "Star \<notin> set ones" and "list_all2 tok_matches ones (take n v)" and "n \<le> length v"
  shows "matches (Star # ones @ Star # ts) v \<longleftrightarrow> matches (Star # ts) (drop n v)"
proof
  have n: "length ones = n" using assms(2,3) by (simp add: list_all2_lengthD)
  assume "matches (Star # ones @ Star # ts) v"
  then obtain k where "matches (Star # ts) (drop n (drop k v))"
    unfolding matches_Star [of "ones @ Star # ts"] matches_ones [OF assms(1)] n by blast
  then have "matches (Star # ts) (drop k (drop n v))" by (simp add: add.commute)
  then show "matches (Star # ts) (drop n v)" by (rule matches_drop_Star)
next
  have n: "length ones = n" using assms(2,3) by (simp add: list_all2_lengthD)
  assume "matches (Star # ts) (drop n v)"
  then have "matches (ones @ Star # ts) (drop 0 v)"
    using assms by (simp add: matches_ones n del: matches.simps)
  then show "matches (Star # ones @ Star # ts) v" by (meson matches_Star le0)
qed

text \<open>When nothing matches from the current star position, the star has to take one more byte.\<close>

lemma ex_positive_shift:
  assumes "0 < (n::nat)"
  shows "(\<exists>k \<le> n. 0 < k \<and> P k) \<longleftrightarrow> (\<exists>k \<le> n - 1. P (Suc k))"
proof
  assume "\<exists>k \<le> n. 0 < k \<and> P k"
  then obtain j where "Suc j \<le> n" "P (Suc j)" by (metis gr0_conv_Suc)
  then show "\<exists>k \<le> n - 1. P (Suc k)" by (intro exI [of _ j]) auto
next
  assume "\<exists>k \<le> n - 1. P (Suc k)"
  then obtain k where "k \<le> n - 1" "P (Suc k)" by blast
  with assms show "\<exists>k \<le> n. 0 < k \<and> P k" by (intro exI [of _ "Suc k"]) auto
qed

lemma backtrack_step:
  assumes "\<not> matches ts v" and "0 < length v"
  shows "matches (Star # ts) v \<longleftrightarrow> matches (Star # ts) (drop 1 v)"
proof -
  have "matches (Star # ts) v \<longleftrightarrow> (\<exists>k \<le> length v. 0 < k \<and> matches ts (drop k v))"
    using assms(1) by (metis drop0 gr0I matches_Star)
  also have "\<dots> \<longleftrightarrow> (\<exists>k \<le> length v - 1. matches ts (drop (Suc k) v))"
    using assms(2) by (rule ex_positive_shift)
  also have "\<dots> \<longleftrightarrow> matches (Star # ts) (drop 1 v)"
    by (simp only: matches_Star) simp
  finally show ?thesis .
qed

lemma matches_Nil: "matches ts [] \<longleftrightarrow> set ts \<subseteq> {Star}"
  by (induction ts) auto

lemma matches_cong_append: "(\<And>w. matches a w = matches b w) \<Longrightarrow> matches (pre @ a) v = matches (pre @ b) v"
  by (induction pre arbitrary: v) auto

lemma skip_stars_end:
  assumes "pi \<le> length p"
  shows "skip_stars p pi = length p \<longleftrightarrow> set (tokenize (drop pi p)) \<subseteq> {Star}"
proof -
  obtain n where n: "tokenize (drop pi p) = replicate n Star @ tokenize (drop (skip_stars p pi) p)"
    "skip_stars p pi \<le> length p" "\<not> (skip_stars p pi < length p \<and> p ! skip_stars p pi = CHR ''*'')"
    using tokenize_skip_stars [OF assms] by blast
  show ?thesis
  proof (cases "skip_stars p pi = length p")
    case True
    then show ?thesis by (auto simp: n(1))
  next
    case False
    then obtain t next' where "t \<noteq> Star" and "tokenize (drop (skip_stars p pi) p) = t # tokenize (drop next' p)"
      using n matchOne_token [of "skip_stars p pi" p] by (metis le_neq_implies_less)
    then show ?thesis using False by (simp add: n(1))
  qed
qed

text \<open>The value is used up: a match from the star has to start at the current attempt.\<close>

lemma matches_at_end:
  assumes "Star \<notin> set ones" and "list_all2 tok_matches ones w"
  shows "matches (Star # ones @ ts) w \<longleftrightarrow> matches ts []"
proof -
  have len: "length ones = length w" using assms(2) by (rule list_all2_lengthD)
  have "matches (ones @ ts) (drop k w) \<longleftrightarrow> k = 0 \<and> matches ts []" if "k \<le> length w" for k
    using that assms len by (cases "k = 0") (auto simp: matches_ones [OF assms(1)])
  then show ?thesis by (auto simp del: matches.simps simp: matches_Star)
qed

lemma star_tokens:
  assumes "pi < length p" and "p ! pi = CHR ''*''"
  shows "matches (pre @ tokenize (drop pi p)) v
    \<longleftrightarrow> matches (pre @ Star # tokenize (drop (skip_stars p pi) p)) v"
proof -
  obtain n where "tokenize (drop pi p) = replicate (Suc n) Star @ tokenize (drop (skip_stars p pi) p)"
    using tokenize_skip_stars [of pi p] assms by (metis less_imp_le gr0_conv_Suc)
  then show ?thesis
    by (simp only:) (rule matches_cong_append, rule matches_replicate_Star)
qed

text \<open>The four ways one iteration can go, each as a fact about \<open>loop_goal\<close>.\<close>

lemma goal_at_end:
  assumes "loop_inv p v pi vi star" and "vi = length v"
  shows "loop_goal p v pi vi star \<longleftrightarrow> skip_stars p pi = length p"
proof (cases star)
  case None
  then show ?thesis
    using assms by (simp add: loop_goal_def loop_inv_def skip_stars_end matches_Nil)
next
  case (Some st)
  obtain sp sv where st: "st = (sp, sv)" by fastforce
  obtain ones where ones: "tokenize (drop sp p) = ones @ tokenize (drop pi p)" "Star \<notin> set ones"
    "list_all2 tok_matches ones (take (vi - sv) (drop sv v))" and pi: "pi \<le> length p" "sv \<le> vi"
    using assms(1) by (auto simp: loop_inv_def Some st)
  then have "list_all2 tok_matches ones (drop sv v)" using assms(2) by simp
  then show ?thesis
    using matches_at_end [OF ones(2)] pi
    by (simp add: loop_goal_def Some st ones(1) skip_stars_end matches_Nil del: matches.simps)
qed

lemma goal_at_star:
  assumes "loop_inv p v pi vi star" and "pi < length p" and "p ! pi = CHR ''*''"
  shows "loop_goal p v pi vi star \<longleftrightarrow> matches (Star # tokenize (drop (skip_stars p pi) p)) (drop vi v)"
proof (cases star)
  case None
  then show ?thesis
    using star_tokens [OF assms(2,3), of "[]"] by (simp add: loop_goal_def del: matches.simps)
next
  case (Some st)
  obtain sp sv where st: "st = (sp, sv)" by fastforce
  obtain ones where ones: "tokenize (drop sp p) = ones @ tokenize (drop pi p)" "Star \<notin> set ones"
    "list_all2 tok_matches ones (take (vi - sv) (drop sv v))" and le: "sv \<le> vi" "vi \<le> length v"
    using assms(1) by (auto simp: loop_inv_def Some st)
  have "loop_goal p v pi vi star
      \<longleftrightarrow> matches (Star # ones @ Star # tokenize (drop (skip_stars p pi) p)) (drop sv v)"
    using star_tokens [OF assms(2,3), of "Star # ones"]
    by (simp add: loop_goal_def Some st ones(1) del: matches.simps)
  also have "\<dots> \<longleftrightarrow> matches (Star # tokenize (drop (skip_stars p pi) p)) (drop (vi - sv) (drop sv v))"
    using le by (intro later_star_suffices ones) simp
  finally show ?thesis using le by simp
qed

lemma goal_after_match:
  assumes "loop_inv p v pi vi star" and "vi < length v"
    and "tokenize (drop pi p) = t # tokenize (drop pi' p)" and "t \<noteq> Star"
    and "tok_matches t (v ! vi)" and "pi' \<le> length p"
  shows "loop_inv p v pi' (vi + 1) star \<and> loop_goal p v pi' (vi + 1) star = loop_goal p v pi vi star"
proof (cases star)
  case None
  have "drop vi v = v ! vi # drop (vi + 1) v"
    using assms(2) by (simp add: Cons_nth_drop_Suc)
  then show ?thesis using assms by (simp add: None loop_inv_def loop_goal_def)
next
  case (Some st)
  obtain sp sv where st: "st = (sp, sv)" by fastforce
  obtain ones where ones: "tokenize (drop sp p) = ones @ tokenize (drop pi p)" "Star \<notin> set ones"
    "list_all2 tok_matches ones (take (vi - sv) (drop sv v))" and le: "sv \<le> vi"
    using assms(1) by (auto simp: loop_inv_def Some st)
  have "take (vi + 1 - sv) (drop sv v) = take (vi - sv) (drop sv v) @ [v ! vi]"
    using le assms(2) by (simp add: Suc_diff_le take_Suc_conv_app_nth)
  then have "list_all2 tok_matches (ones @ [t]) (take (vi + 1 - sv) (drop sv v))"
    using ones(3) assms(5) by (simp add: list_all2_appendI)
  then have "\<exists>ones. tokenize (drop sp p) = ones @ tokenize (drop pi' p) \<and> Star \<notin> set ones
      \<and> list_all2 tok_matches ones (take (vi + 1 - sv) (drop sv v))"
    using ones assms(3,4) by (intro exI [of _ "ones @ [t]"]) simp
  then show ?thesis using assms(1,2,6) by (simp add: Some st loop_inv_def loop_goal_def)
qed

lemma goal_after_mismatch:
  assumes "loop_inv p v pi vi star" and "vi < length v"
    and fail: "\<not> matches (tokenize (drop pi p)) (drop vi v)"
  shows "(star = None \<longrightarrow> \<not> loop_goal p v pi vi star)
    \<and> (\<forall>sp sv. star = Some (sp, sv) \<longrightarrow> sv < length v \<and> loop_inv p v sp (sv + 1) (Some (sp, sv + 1))
         \<and> loop_goal p v sp (sv + 1) (Some (sp, sv + 1)) = loop_goal p v pi vi star)"
proof (intro conjI allI impI)
  show "\<not> loop_goal p v pi vi star" if "star = None"
    using fail by (simp add: loop_goal_def that)
next
  fix sp sv
  assume st: "star = Some (sp, sv)"
  obtain ones where ones: "tokenize (drop sp p) = ones @ tokenize (drop pi p)" "Star \<notin> set ones"
    "list_all2 tok_matches ones (take (vi - sv) (drop sv v))" and le: "sv \<le> vi"
    using assms(1) by (auto simp: loop_inv_def st)
  show lt: "sv < length v" using le assms(2) by simp
  show "loop_inv p v sp (sv + 1) (Some (sp, sv + 1))"
    using assms(1) lt by (auto simp: loop_inv_def st intro: exI [of _ "[]"])
  have "length ones = vi - sv" using ones(3) le assms(2) by (simp add: list_all2_lengthD)
  then have "\<not> matches (tokenize (drop sp p)) (drop sv v)"
    using fail le by (simp add: ones(1) matches_ones [OF ones(2)])
  then show "loop_goal p v sp (sv + 1) (Some (sp, sv + 1)) = loop_goal p v pi vi star"
    using backtrack_step [of _ "drop sv v"] lt by (simp add: loop_goal_def st del: matches.simps)
qed

lemma match_loop_correct:
  "loop_inv p v pi vi star \<Longrightarrow> match_loop p v pi vi star = loop_goal p v pi vi star"
proof (induction p v pi vi star rule: match_loop.induct)
  case (1 p v pi vi star)
  note inv = "1.prems" and unfold = match_loop.simps [of p v pi vi star]
  have bounds: "pi \<le> length p" "vi \<le> length v" using inv by (simp_all add: loop_inv_def)
  consider (End) "\<not> vi < length v" | (AtStar) "vi < length v" "pi < length p" "p ! pi = CHR ''*''"
    | (Match) "vi < length v" "\<not> (pi < length p \<and> p ! pi = CHR ''*'')" "snd (matchOne p pi (v ! vi))"
    | (Miss) "vi < length v" "\<not> (pi < length p \<and> p ! pi = CHR ''*'')" "\<not> snd (matchOne p pi (v ! vi))"
    by blast
  then show ?case
  proof cases
    case End
    then have "match_loop p v pi vi star = (skip_stars p pi = length p)" by (simp add: unfold)
    then show ?thesis using goal_at_end [OF inv] End bounds by simp
  next
    case AtStar
    let ?pi = "skip_stars p pi"
    show ?thesis
    proof (cases "?pi = length p")
      case True
      then show ?thesis using AtStar goal_at_star [OF inv AtStar(2,3)] by (auto simp: unfold)
    next
      case False
      have "?pi \<le> length p" "\<not> (?pi < length p \<and> p ! ?pi = CHR ''*'')"
        using tokenize_skip_stars [OF bounds(1)] by blast+
      then have "loop_inv p v ?pi vi (Some (?pi, vi))"
        using False bounds by (auto simp: loop_inv_def intro: exI [of _ "[]"])
      then show ?thesis
        using "1.IH"(1) AtStar False goal_at_star [OF inv AtStar(2,3)]
        by (simp add: unfold loop_goal_def del: matches.simps)
    qed
  next
    case Match
    then have "pi < length p" "p ! pi \<noteq> CHR ''*''"
      using bounds by (auto simp: matchOne_def split: if_splits)
    then obtain t pi' where t: "\<And>c. matchOne p pi c = (pi', tok_matches t c)" "t \<noteq> Star"
      "tokenize (drop pi p) = t # tokenize (drop pi' p)" "pi' \<le> length p"
      using matchOne_token by blast
    then show ?thesis
      using "1.IH"(2) [OF Match] goal_after_match [OF inv Match(1) t(3,2) _ t(4)] Match
      by (auto simp: unfold)
  next
    case Miss
    have fail: "\<not> matches (tokenize (drop pi p)) (drop vi v)"
    proof (cases "pi < length p")
      case True
      with Miss(2) obtain t pi' where t: "\<And>c. matchOne p pi c = (pi', tok_matches t c)" "t \<noteq> Star"
        "tokenize (drop pi p) = t # tokenize (drop pi' p)"
        using matchOne_token by blast
      then show ?thesis using Miss by (simp add: hd_drop_conv_nth)
    qed (use Miss in simp)
    show ?thesis
    proof (cases star)
      case None
      with Miss have "\<not> match_loop p v pi vi star" by (subst match_loop.simps) auto
      then show ?thesis using None goal_after_mismatch [OF inv Miss(1) fail] by simp
    next
      case (Some st)
      then obtain sp sv where star: "star = Some (sp, sv)" by (cases st) simp
      note retry = goal_after_mismatch [OF inv Miss(1) fail, THEN conjunct2, rule_format, OF star]
      have "match_loop p v pi vi star = match_loop p v sp (sv + 1) (Some (sp, sv + 1))"
        using Miss star retry by (subst match_loop.simps) auto
      also have "\<dots> = loop_goal p v pi vi star"
        using "1.IH"(3) [OF Miss star] retry by simp
      finally show ?thesis .
    qed
  qed
qed

text \<open>
  C14: the matcher decides the meaning of the pattern. For every pattern and value the
  backtracking loop over indices, which remembers only the last star, answers true exactly when
  the tokens of the pattern match the whole value: a star any bytes, \<^verbatim>\<open>?\<close> one byte, a class one
  byte of its items or, negated, none of them, an escaped or plain byte itself.
\<close>

theorem glob_Match_correct: "glob_Match pattern value \<longleftrightarrow> matches (tokenize pattern) value"
  by (simp add: glob_Match_def match_loop_correct loop_inv_def loop_goal_def)

end
