(* ===== verification/Store.thy ===== *)
theory Store
  imports KV_Prelude
begin

text \<open>
  The in-memory store (\<^verbatim>\<open>internal/store/store.go\<close>): two maps, \<open>data\<close> for the values and
  \<open>expires\<close> for the deadlines. Time is an argument of every operation that judges expiry, as in
  the source. The first part translates every operation; the second part states what a client
  can see of a store at an instant (its view), shows that every operation acts on the view as
  documented, that reclamation changes no view, and that the index invariant
  keys(expires) \<open>\<subseteq>\<close> keys(data) holds in every reachable store.
\<close>

section \<open>The operations\<close>

datatype TTLStatus = NoKey | NoTTL | HasTTL

record store =
  data :: "(string, string) fmap"
  expires :: "(string, time) fmap"

definition store_New :: store where
  "store_New = \<lparr>data = fmempty, expires = fmempty\<rparr>"

definition store_expired :: "store \<Rightarrow> string \<Rightarrow> time \<Rightarrow> bool" where
  "store_expired s key now =
     (case fmlookup (expires s) key of
        None \<Rightarrow> False
      | Some deadline \<Rightarrow> \<not> now < deadline)"

definition store_Get :: "store \<Rightarrow> string \<Rightarrow> time \<Rightarrow> string option" where
  "store_Get s key now = (if store_expired s key now then None else fmlookup (data s) key)"

definition store_Set :: "store \<Rightarrow> string \<Rightarrow> string \<Rightarrow> time \<Rightarrow> bool \<Rightarrow> store" where
  "store_Set s key value expiresAt hasTTL =
     s\<lparr>data := fmupd key value (data s),
       expires := (if hasTTL then fmupd key expiresAt (expires s) else fmdrop key (expires s))\<rparr>"

definition store_Delete :: "store \<Rightarrow> string \<Rightarrow> store \<times> bool" where
  "store_Delete s key =
     (s\<lparr>data := fmdrop key (data s), expires := fmdrop key (expires s)\<rparr>,
      fmlookup (data s) key \<noteq> None)"

definition store_Expire :: "store \<Rightarrow> string \<Rightarrow> time \<Rightarrow> time \<Rightarrow> store \<times> bool" where
  "store_Expire s key expiresAt now =
     (if fmlookup (data s) key = None \<or> store_expired s key now then (s, False)
      else (s\<lparr>expires := fmupd key expiresAt (expires s)\<rparr>, True))"

definition store_Persist :: "store \<Rightarrow> string \<Rightarrow> time \<Rightarrow> store \<times> bool" where
  "store_Persist s key now =
     (if fmlookup (data s) key = None \<or> store_expired s key now then (s, False)
      else if fmlookup (expires s) key = None then (s, False)
      else (s\<lparr>expires := fmdrop key (expires s)\<rparr>, True))"

definition store_TTL :: "store \<Rightarrow> string \<Rightarrow> time \<Rightarrow> duration \<times> TTLStatus" where
  "store_TTL s key now =
     (if fmlookup (data s) key = None \<or> store_expired s key now then (0, NoKey)
      else case fmlookup (expires s) key of
             None \<Rightarrow> (0, NoTTL)
           | Some deadline \<Rightarrow> (time_Sub deadline now, HasTTL))"

definition store_ExpiresAt :: "store \<Rightarrow> string \<Rightarrow> time option" where
  "store_ExpiresAt s key = fmlookup (expires s) key"

text \<open>The counting loop of \<^verbatim>\<open>Len\<close> and the collecting loop of \<^verbatim>\<open>LiveKeys\<close>.\<close>

fun len_loop :: "store \<Rightarrow> time \<Rightarrow> string list \<Rightarrow> nat \<Rightarrow> nat" where
  "len_loop s now [] n = n"
| "len_loop s now (key # ks) n = len_loop s now ks (if \<not> store_expired s key now then Suc n else n)"

definition store_Len :: "string ranger \<Rightarrow> store \<Rightarrow> time \<Rightarrow> nat" where
  "store_Len rng s now = len_loop s now (rng (fmdom (data s))) 0"

fun livekeys_loop :: "store \<Rightarrow> time \<Rightarrow> string list \<Rightarrow> string list \<Rightarrow> string list" where
  "livekeys_loop s now [] keys = keys"
| "livekeys_loop s now (key # ks) keys =
     livekeys_loop s now ks (if \<not> store_expired s key now then keys @ [key] else keys)"

definition store_LiveKeys :: "string ranger \<Rightarrow> store \<Rightarrow> time \<Rightarrow> string list" where
  "store_LiveKeys rng s now = livekeys_loop s now (rng (fmdom (data s))) []"

text \<open>
  The sweep over the deadline index: state, removed and examined. Only the key being visited is
  deleted, so the visit of the remaining keys is not disturbed.
\<close>

fun reclaim_loop :: "time \<Rightarrow> int \<Rightarrow> string list \<Rightarrow> store \<Rightarrow> int \<Rightarrow> int \<Rightarrow> store \<times> int \<times> int" where
  "reclaim_loop now limit [] s removed examined = (s, removed, examined)"
| "reclaim_loop now limit (key # ks) s removed examined =
     (if examined = limit then (s, removed, examined)
      else case fmlookup (expires s) key of
             None \<Rightarrow> reclaim_loop now limit ks s removed examined
           | Some deadline \<Rightarrow>
               (if \<not> now < deadline
                then reclaim_loop now limit ks
                       (s\<lparr>data := fmdrop key (data s), expires := fmdrop key (expires s)\<rparr>)
                       (removed + 1) (examined + 1)
                else reclaim_loop now limit ks s removed (examined + 1)))"

definition store_ReclaimExpired :: "string ranger \<Rightarrow> store \<Rightarrow> time \<Rightarrow> int \<Rightarrow> store \<times> int \<times> int" where
  "store_ReclaimExpired rng s now limit =
     (if limit \<le> 0 then (s, 0, 0)
      else reclaim_loop now limit (rng (fmdom (expires s))) s 0 0)"

definition store_PhysicalLen :: "store \<Rightarrow> nat" where
  "store_PhysicalLen s = map_len (data s)"

definition store_HasExpirations :: "store \<Rightarrow> bool" where
  "store_HasExpirations s \<longleftrightarrow> map_len (expires s) > 0"

lemmas store_defs =
  store_expired_def store_Get_def store_Set_def store_Delete_def store_Expire_def
  store_Persist_def store_TTL_def store_ExpiresAt_def

section \<open>The index invariant\<close>

definition store_inv :: "store \<Rightarrow> bool" where
  "store_inv s \<longleftrightarrow> fmdom (expires s) |\<subseteq>| fmdom (data s)"

lemma store_inv_New [kv_inv]: "store_inv store_New"
  by (simp add: store_inv_def store_New_def)

lemma store_inv_Set [kv_inv]: "store_inv s \<Longrightarrow> store_inv (store_Set s k v d h)"
  by (auto simp: store_inv_def store_Set_def)

lemma store_inv_Delete [kv_inv]: "store_inv s \<Longrightarrow> store_inv (fst (store_Delete s k))"
  by (auto simp: store_inv_def store_Delete_def)

lemma store_inv_Expire [kv_inv]: "store_inv s \<Longrightarrow> store_inv (fst (store_Expire s k d now))"
  by (auto simp: store_inv_def store_Expire_def fmlookup_dom_iff)

lemma store_inv_Persist [kv_inv]: "store_inv s \<Longrightarrow> store_inv (fst (store_Persist s k now))"
  by (auto simp: store_inv_def store_Persist_def)

lemma store_inv_reclaim_loop:
  "store_inv s \<Longrightarrow> store_inv (fst (reclaim_loop now limit ks s r e))"
  by (induction now limit ks s r e rule: reclaim_loop.induct)
    (auto simp: store_inv_def split: option.splits)

lemma store_inv_ReclaimExpired [kv_inv]:
  "store_inv s \<Longrightarrow> store_inv (fst (store_ReclaimExpired rng s now limit))"
  by (simp add: store_ReclaimExpired_def store_inv_reclaim_loop)

text \<open>The stores a program can reach from \<^verbatim>\<open>New\<close> through the exported operations.\<close>

inductive store_reachable :: "store \<Rightarrow> bool" where
  New: "store_reachable store_New"
| Set: "store_reachable s \<Longrightarrow> store_reachable (store_Set s k v d h)"
| Delete: "store_reachable s \<Longrightarrow> store_reachable (fst (store_Delete s k))"
| Expire: "store_reachable s \<Longrightarrow> store_reachable (fst (store_Expire s k d now))"
| Persist: "store_reachable s \<Longrightarrow> store_reachable (fst (store_Persist s k now))"
| Reclaim: "store_reachable s \<Longrightarrow> store_reachable (fst (store_ReclaimExpired rng s now limit))"

section \<open>The view of a store\<close>

text \<open>
  What callers can tell about a key at an instant: nothing when it is absent or its deadline
  has been reached, otherwise its value and its deadline.
\<close>

type_synonym entry = "string \<times> time option"

definition alive :: "time \<Rightarrow> entry \<Rightarrow> bool" where
  "alive now e \<longleftrightarrow> (case snd e of None \<Rightarrow> True | Some d \<Rightarrow> now < d)"

definition store_view :: "store \<Rightarrow> time \<Rightarrow> string \<Rightarrow> entry option" where
  "store_view s now key =
     (case fmlookup (data s) key of
        None \<Rightarrow> None
      | Some v \<Rightarrow>
          (let e = (v, fmlookup (expires s) key) in if alive now e then Some e else None))"

lemma alive_simps [simp]:
  "alive now (v, None)"
  "alive now (v, Some d) \<longleftrightarrow> now < d"
  by (simp_all add: alive_def)

lemma alive_mono: "alive t e \<Longrightarrow> t' \<le> t \<Longrightarrow> alive t' e"
  by (auto simp: alive_def split: option.splits)

text \<open>
  The contract of the two operations that recovery needs (the \<^verbatim>\<open>Applier\<close> interface of
  \<^verbatim>\<open>internal/aof/replay.go\<close>), and the contract of the whole store as its callers rely on it.
\<close>

definition set_entry :: "string \<Rightarrow> time \<Rightarrow> bool \<Rightarrow> time \<Rightarrow> entry option" where
  "set_entry v d h now = (let e = (v, if h then Some d else None) in if alive now e then Some e else None)"

locale applier =
  fixes view :: "'s \<Rightarrow> time \<Rightarrow> string \<Rightarrow> entry option"
    and set_op :: "'s \<Rightarrow> string \<Rightarrow> string \<Rightarrow> time \<Rightarrow> bool \<Rightarrow> 's"
    and delete_op :: "'s \<Rightarrow> string \<Rightarrow> 's"
  assumes view_set: "view (set_op s k v d h) now = (view s now)(k := set_entry v d h now)"
    and view_delete: "view (delete_op s k) now = (view s now)(k := None)"
begin

lemma view_deletes:
  "view (foldl delete_op s ks) now = (\<lambda>k. if k \<in> set ks then None else view s now k)"
  by (induction ks arbitrary: s) (auto simp: view_delete)

end

locale ttl_store = applier view set_op delete_op
  for view :: "'s \<Rightarrow> time \<Rightarrow> string \<Rightarrow> entry option"
    and set_op and delete_op +
  fixes get_op :: "'s \<Rightarrow> string \<Rightarrow> time \<Rightarrow> string option"
    and expire_op :: "'s \<Rightarrow> string \<Rightarrow> time \<Rightarrow> time \<Rightarrow> 's \<times> bool"
    and persist_op :: "'s \<Rightarrow> string \<Rightarrow> time \<Rightarrow> 's \<times> bool"
    and ttl_op :: "'s \<Rightarrow> string \<Rightarrow> time \<Rightarrow> duration \<times> TTLStatus"
    and deadline_op :: "'s \<Rightarrow> string \<Rightarrow> time option"
  assumes get_view: "get_op s k now = map_option fst (view s now k)"
    and view_later: "now \<le> later \<Longrightarrow>
      view s later k = (case view s now k of None \<Rightarrow> None | Some e \<Rightarrow> if alive later e then Some e else None)"
    and view_alive: "view s now k = Some e \<Longrightarrow> alive now e"
    and expire_view: "expire_op s k d now =
      (case view s now k of
         None \<Rightarrow> (s, False)
       | Some (v, _) \<Rightarrow> (fst (expire_op s k d now), True))"
    and expire_effect: "view s now k = Some (v, d') \<Longrightarrow>
      view (fst (expire_op s k d now)) t = (view s t)(k := set_entry v d True t)"
    and persist_view: "persist_op s k now =
      (case view s now k of
         Some (v, Some d) \<Rightarrow> (fst (persist_op s k now), True)
       | _ \<Rightarrow> (s, False))"
    and persist_effect: "view s now k = Some (v, Some d) \<Longrightarrow>
      view (fst (persist_op s k now)) t = (view s t)(k := Some (v, None))"
    and ttl_view: "ttl_op s k now =
      (case view s now k of
         None \<Rightarrow> (0, NoKey)
       | Some (v, None) \<Rightarrow> (0, NoTTL)
       | Some (v, Some d) \<Rightarrow> (time_Sub d now, HasTTL))"
    and deadline_view: "view s now k = Some (v, d') \<Longrightarrow> deadline_op s k = d'"
begin

lemma get_after_set: "get_op (set_op s k v d h) k' now =
    (if k' = k then (if h \<and> d \<le> now then None else Some v) else get_op s k' now)"
  by (auto simp: get_view view_set set_entry_def Let_def)

lemma get_after_delete: "get_op (delete_op s k) k' now = (if k' = k then None else get_op s k' now)"
  by (simp add: get_view view_delete)

text \<open>A \<^verbatim>\<open>Set\<close> with no expiry clears a deadline: the key is visible at every instant.\<close>

lemma set_without_ttl_clears: "view (set_op s k v d False) now k = Some (v, None)"
  by (simp add: view_set set_entry_def)

lemma absent_stays_absent: "view s now k = None \<Longrightarrow> now \<le> later \<Longrightarrow> view s later k = None"
  by (simp add: view_later)

lemma ttl_positive:
  assumes "ttl_op s k now = (d, HasTTL)"
  shows "0 < d"
proof -
  from assms obtain v e where "view s now k = Some (v, Some e)" and d: "d = time_Sub e now"
    by (auto simp: ttl_view split: option.splits)
  then have "now < e" using view_alive by fastforce
  then show ?thesis by (auto simp: d time_Sub_def int64_defs)
qed

end

lemma store_view_Set: "store_view (store_Set s k v d h) now = (store_view s now)(k := set_entry v d h now)"
  by (auto simp: fun_eq_iff store_view_def store_Set_def set_entry_def Let_def split: option.splits)

lemma store_view_Delete: "store_view (fst (store_Delete s k)) now = (store_view s now)(k := None)"
  by (auto simp: fun_eq_iff store_view_def store_Delete_def Let_def split: option.splits)

interpretation st: ttl_store store_view store_Set "\<lambda>s k. fst (store_Delete s k)"
  store_Get store_Expire store_Persist store_TTL store_ExpiresAt
proof (unfold_locales, goal_cases)
  case (1 s k v d h now) show ?case by (rule store_view_Set)
next
  case (2 s k now) show ?case by (rule store_view_Delete)
next
  case 3 show ?case
    by (auto simp: store_defs store_view_def Let_def split: option.splits)
next
  case 4 then show ?case
    by (auto simp: store_view_def Let_def split: option.splits dest: alive_mono)
next
  case 5 then show ?case
    by (auto simp: store_view_def Let_def split: option.splits if_splits)
next
  case 6 show ?case
    by (auto simp: store_defs store_view_def alive_def Let_def split: option.splits)
next
  case 7 then show ?case
    by (auto simp: fun_eq_iff store_defs store_view_def set_entry_def Let_def
        split: option.splits if_splits)
next
  case 8 show ?case
    by (auto simp: store_defs store_view_def alive_def Let_def split: option.splits)
next
  case 9 then show ?case
    by (auto simp: fun_eq_iff store_defs store_view_def Let_def split: option.splits if_splits)
next
  case 10 show ?case
    by (auto simp: store_defs store_view_def alive_def Let_def split: option.splits)
next
  case 11 then show ?case
    by (auto simp: store_defs store_view_def Let_def split: option.splits if_splits)
qed

section \<open>Counting and listing\<close>

lemma len_loop_eq: "len_loop s now ks n = n + length (filter (\<lambda>k. \<not> store_expired s k now) ks)"
  by (induction ks arbitrary: n) simp_all

lemma livekeys_loop_eq: "livekeys_loop s now ks acc = acc @ filter (\<lambda>k. \<not> store_expired s k now) ks"
  by (induction ks arbitrary: acc) simp_all

lemma store_LiveKeys_filter:
  "store_LiveKeys rng s now = filter (\<lambda>k. \<not> store_expired s k now) (rng (fmdom (data s)))"
  by (simp add: store_LiveKeys_def livekeys_loop_eq)

lemma store_Len_LiveKeys: "store_Len rng s now = length (store_LiveKeys rng s now)"
  by (simp add: store_Len_def len_loop_eq store_LiveKeys_filter)

text \<open>The keys a caller can see at an instant.\<close>

definition live_keys :: "store \<Rightarrow> time \<Rightarrow> string set" where
  "live_keys s now = {k. store_view s now k \<noteq> None}"

lemma live_keys_alt: "live_keys s now = {k \<in> fmdom' (data s). \<not> store_expired s k now}"
  by (auto simp: live_keys_def store_view_def store_expired_def alive_def Let_def fmlookup_dom'_iff
      split: option.splits if_splits)

lemma finite_live_keys [simp]: "finite (live_keys s now)"
  by (simp add: live_keys_alt)

lemma set_LiveKeys: "fair_ranger rng \<Longrightarrow> set (store_LiveKeys rng s now) = live_keys s now"
  by (auto simp: store_LiveKeys_filter live_keys_alt fmdom'_alt_def)

lemma distinct_LiveKeys: "fair_ranger rng \<Longrightarrow> distinct (store_LiveKeys rng s now)"
  by (simp add: store_LiveKeys_filter)

lemma store_Len_card: "fair_ranger rng \<Longrightarrow> store_Len rng s now = card (live_keys s now)"
  by (metis store_Len_LiveKeys distinct_LiveKeys set_LiveKeys distinct_card)

lemma sort_LiveKeys:
  assumes "fair_ranger rng"
  shows "sort (store_LiveKeys rng s now) = sorted_list_of_set (live_keys s now)"
  using assms
  by (metis set_LiveKeys distinct_LiveKeys sorted_list_of_set_sort_remdups distinct_remdups_id)

lemma length_LiveKeys_le: "fair_ranger rng \<Longrightarrow> length (store_LiveKeys rng s now) \<le> store_PhysicalLen s"
  by (simp add: store_LiveKeys_filter store_PhysicalLen_def map_len_def)
    (metis length_fair_ranger length_filter_le)

section \<open>Reclamation\<close>

text \<open>Dropping a key whose deadline has been reached changes no view from that instant on.\<close>

lemma view_drop_dead:
  assumes "fmlookup (expires s) k = Some d" and "\<not> now < d" and "now \<le> t"
  shows "store_view (s\<lparr>data := fmdrop k (data s), expires := fmdrop k (expires s)\<rparr>) t = store_view s t"
  using assms by (auto simp: fun_eq_iff store_view_def Let_def split: option.splits)

lemma reclaim_loop_view:
  "now \<le> t \<Longrightarrow> store_view (fst (reclaim_loop now limit ks s r e)) t = store_view s t"
  by (induction now limit ks s r e rule: reclaim_loop.induct)
    (simp_all add: view_drop_dead split: option.splits)

lemma store_view_ReclaimExpired:
  "now \<le> t \<Longrightarrow> store_view (fst (store_ReclaimExpired rng s now limit)) t = store_view s t"
  by (simp add: store_ReclaimExpired_def reclaim_loop_view)

text \<open>What a sweep does, in closed form: it visits a prefix of the order and drops the dead keys in it.\<close>

abbreviation drop_key :: "store \<Rightarrow> string \<Rightarrow> store" where
  "drop_key s k \<equiv> s\<lparr>data := fmdrop k (data s), expires := fmdrop k (expires s)\<rparr>"

lemma store_expired_drop_key: "store_expired (drop_key s k) k' now \<longleftrightarrow> k' \<noteq> k \<and> store_expired s k' now"
  by (auto simp: store_expired_def split: option.splits)

lemma reclaim_loop_eq:
  assumes "distinct ks" and "set ks \<subseteq> fmdom' (expires s)" and "e \<le> limit"
  shows "reclaim_loop now limit ks s r e =
    (let seen = take (nat (limit - e)) ks; dead = filter (\<lambda>k. store_expired s k now) seen
     in (foldl drop_key s dead, r + int (length dead), e + int (length seen)))"
  using assms
proof (induction now limit ks s r e rule: reclaim_loop.induct)
  case (1 now limit s r e)
  then show ?case by simp
next
  case (2 now limit key ks s r e)
  show ?case
  proof (cases "e = limit")
    case True
    then show ?thesis by simp
  next
    case False
    with "2.prems" have lt: "e < limit" by simp
    then have seen: "take (nat (limit - e)) (key # ks) = key # take (nat (limit - (e + 1))) ks"
    proof -
      from lt have "nat (limit - e) = Suc (nat (limit - (e + 1)))" by arith
      then show ?thesis by simp
    qed
    obtain d where d: "fmlookup (expires s) key = Some d"
      using "2.prems"(2) by (auto simp: fmlookup_dom'_iff)
    show ?thesis
    proof (cases "now < d")
      case True
      then have "\<not> store_expired s key now" by (simp add: store_expired_def d)
      moreover have "reclaim_loop now limit ks s r (e + 1) =
          (let seen = take (nat (limit - (e + 1))) ks; dead = filter (\<lambda>k. store_expired s k now) seen
           in (foldl drop_key s dead, r + int (length dead), (e + 1) + int (length seen)))"
        using "2.IH"(3) [OF False d] True "2.prems" lt by simp
      ultimately show ?thesis using False True d seen by (simp add: Let_def)
    next
      case dead: False
      then have "store_expired s key now" by (simp add: store_expired_def d)
      moreover have "filter (\<lambda>k. store_expired (drop_key s key) k now) (take n ks) =
          filter (\<lambda>k. store_expired s k now) (take n ks)" for n
        using "2.prems"(1)
        by (intro filter_cong refl) (auto simp: store_expired_drop_key dest: in_set_takeD)
      moreover have "reclaim_loop now limit ks (drop_key s key) (r + 1) (e + 1) =
          (let seen = take (nat (limit - (e + 1))) ks;
               dead = filter (\<lambda>k. store_expired (drop_key s key) k now) seen
           in (foldl drop_key (drop_key s key) dead, (r + 1) + int (length dead), (e + 1) + int (length seen)))"
        using "2.IH"(2) [OF False d] dead "2.prems" lt by auto
      ultimately show ?thesis using False dead d seen by (simp add: Let_def)
    qed
  qed
qed

lemma foldl_drop_key:
  "data (foldl drop_key s ks) = fmfilter (\<lambda>k. k \<notin> set ks) (data s)"
  "expires (foldl drop_key s ks) = fmfilter (\<lambda>k. k \<notin> set ks) (expires s)"
  by (induction ks arbitrary: s) (auto intro!: fmap_ext)

definition sweep_dead :: "string ranger \<Rightarrow> store \<Rightarrow> time \<Rightarrow> int \<Rightarrow> string list" where
  "sweep_dead rng s now limit =
     filter (\<lambda>k. store_expired s k now) (take (nat limit) (rng (fmdom (expires s))))"

lemma store_ReclaimExpired_eq:
  assumes "fair_ranger rng" and "0 < limit"
  shows "store_ReclaimExpired rng s now limit =
    (foldl drop_key s (sweep_dead rng s now limit),
     int (length (sweep_dead rng s now limit)),
     min limit (int (map_len (expires s))))"
  using assms
  by (simp add: store_ReclaimExpired_def reclaim_loop_eq fmdom'_alt_def sweep_dead_def map_len_def
      Let_def min_def) arith

lemma map_len_fmfilter_out:
  assumes "distinct ks" and "set ks \<subseteq> fmdom' m"
  shows "map_len (fmfilter (\<lambda>k. k \<notin> set ks) m) + length ks = map_len m"
proof -
  have "fset (ffilter (\<lambda>k. k \<notin> set ks) (fmdom m)) = fmdom' m - set ks"
    by (auto simp: fmdom'_alt_def)
  moreover have "card (set ks) \<le> card (fmdom' m)"
    using assms by (intro card_mono) simp_all
  ultimately show ?thesis
    using assms by (simp add: map_len_def fcard.rep_eq card_Diff_subset distinct_card fmdom'_alt_def)
qed

section \<open>The abstract table\<close>

text \<open>
  The specification of the store: a table of entries that nothing ever reclaims, in which an
  entry is seen while it is alive. A caller issues timed calls; the answers of the store, with
  sweeps at arbitrary points and maps visited in arbitrary orders, are those of the table.
\<close>

datatype call =
    CGet string
  | CSet string string time bool
  | CDelete string
  | CExpire string time
  | CPersist string
  | CTTL string
  | CLen
  | CLiveKeys
  | CReclaim int

datatype answer =
    AValue "string option"
  | ADone
  | ABool bool
  | ATTL duration TTLStatus
  | ACount nat
  | AKeys "string list"

fun store_call :: "string ranger \<Rightarrow> time \<Rightarrow> store \<Rightarrow> call \<Rightarrow> store \<times> answer" where
  "store_call rng now s (CGet k) = (s, AValue (store_Get s k now))"
| "store_call rng now s (CSet k v d h) = (store_Set s k v d h, ADone)"
| "store_call rng now s (CDelete k) = (fst (store_Delete s k), ADone)"
| "store_call rng now s (CExpire k d) = (let (s', b) = store_Expire s k d now in (s', ABool b))"
| "store_call rng now s (CPersist k) = (let (s', b) = store_Persist s k now in (s', ABool b))"
| "store_call rng now s (CTTL k) = (let (d, st) = store_TTL s k now in (s, ATTL d st))"
| "store_call rng now s CLen = (s, ACount (store_Len rng s now))"
| "store_call rng now s CLiveKeys = (s, AKeys (sort (store_LiveKeys rng s now)))"
| "store_call rng now s (CReclaim limit) = (fst (store_ReclaimExpired rng s now limit), ADone)"

fun store_run :: "string ranger \<Rightarrow> store \<Rightarrow> (time \<times> call) list \<Rightarrow> answer list" where
  "store_run rng s [] = []"
| "store_run rng s ((now, c) # cs) =
     (let (s', a) = store_call rng now s c in a # store_run rng s' cs)"

type_synonym table = "string \<Rightarrow> entry option"

definition seen :: "table \<Rightarrow> time \<Rightarrow> table" where
  "seen m now k = (case m k of None \<Rightarrow> None | Some e \<Rightarrow> if alive now e then Some e else None)"

fun table_call :: "time \<Rightarrow> table \<Rightarrow> call \<Rightarrow> table \<times> answer" where
  "table_call now m (CGet k) = (m, AValue (map_option fst (seen m now k)))"
| "table_call now m (CSet k v d h) = (m(k \<mapsto> (v, if h then Some d else None)), ADone)"
| "table_call now m (CDelete k) = (m(k := None), ADone)"
| "table_call now m (CExpire k d) =
     (case seen m now k of
        None \<Rightarrow> (m, ABool False)
      | Some (v, _) \<Rightarrow> (m(k \<mapsto> (v, Some d)), ABool True))"
| "table_call now m (CPersist k) =
     (case seen m now k of
        Some (v, Some _) \<Rightarrow> (m(k \<mapsto> (v, None)), ABool True)
      | _ \<Rightarrow> (m, ABool False))"
| "table_call now m (CTTL k) =
     (m, case seen m now k of
           None \<Rightarrow> ATTL 0 NoKey
         | Some (_, None) \<Rightarrow> ATTL 0 NoTTL
         | Some (_, Some d) \<Rightarrow> ATTL (time_Sub d now) HasTTL)"
| "table_call now m CLen = (m, ACount (card (dom (seen m now))))"
| "table_call now m CLiveKeys = (m, AKeys (sorted_list_of_set (dom (seen m now))))"
| "table_call now m (CReclaim limit) = (m, ADone)"

fun table_run :: "table \<Rightarrow> (time \<times> call) list \<Rightarrow> answer list" where
  "table_run m [] = []"
| "table_run m ((now, c) # cs) = (let (m', a) = table_call now m c in a # table_run m' cs)"

text \<open>The simulation relation: from an instant on, the views agree.\<close>

definition agrees :: "time \<Rightarrow> store \<Rightarrow> table \<Rightarrow> bool" where
  "agrees now s m \<longleftrightarrow> (\<forall>t \<ge> now. store_view s t = seen m t)"

lemma agreesD: "agrees now s m \<Longrightarrow> now \<le> t \<Longrightarrow> store_view s t = seen m t"
  by (simp add: agrees_def)

lemma agrees_later: "agrees now s m \<Longrightarrow> now \<le> later \<Longrightarrow> agrees later s m"
  by (simp add: agrees_def)

lemma agrees_New: "agrees now store_New (\<lambda>_. None)"
  by (simp add: agrees_def store_New_def store_view_def seen_def fun_eq_iff)

lemma seen_upd: "seen (m(k \<mapsto> (v, if h then Some d else None))) t = (seen m t)(k := set_entry v d h t)"
  by (auto simp: seen_def set_entry_def fun_eq_iff Let_def)

lemma seen_del: "seen (m(k := None)) t = (seen m t)(k := None)"
  by (auto simp: seen_def fun_eq_iff)

lemma seen_upd_persistent: "seen (m(k \<mapsto> (v, None))) t = (seen m t)(k \<mapsto> (v, None))"
  by (auto simp: seen_def fun_eq_iff)

lemmas agrees_updates = seen_upd [where h = True, simplified] seen_upd_persistent seen_upd seen_del

lemma live_keys_agrees: "agrees now s m \<Longrightarrow> live_keys s now = dom (seen m now)"
  by (auto simp: live_keys_def agreesD)

lemma call_agrees:
  assumes fair: "fair_ranger rng" and sim: "agrees now s m"
  shows "snd (store_call rng now s c) = snd (table_call now m c)
    \<and> agrees now (fst (store_call rng now s c)) (fst (table_call now m c))"
proof -
  have v: "store_view s now = seen m now" using sim by (simp add: agreesD)
  have live: "live_keys s now = dom (seen m now)" using sim by (rule live_keys_agrees)
  show ?thesis
  proof (cases c)
    case (CExpire k d)
    have "store_Expire s k d now = (case seen m now k of
        None \<Rightarrow> (s, False) | Some (w, _) \<Rightarrow> (fst (store_Expire s k d now), True))"
      using st.expire_view [of s k d now] by (simp add: v)
    then show ?thesis
      using CExpire sim st.expire_effect [of s now k _ _ d] v
      by (auto simp: agrees_def agrees_updates split: option.splits prod.splits)
  next
    case (CPersist k)
    have "store_Persist s k now = (case seen m now k of
        Some (w, Some d) \<Rightarrow> (fst (store_Persist s k now), True) | _ \<Rightarrow> (s, False))"
      using st.persist_view [of s k now] by (simp add: v)
    then show ?thesis
      using CPersist sim st.persist_effect [of s now k] v
      by (auto simp: agrees_def agrees_updates set_entry_def split: option.splits prod.splits)
  qed (use sim fair v live in \<open>auto simp: agrees_def agrees_updates st.get_view st.ttl_view st.view_set
      st.view_delete store_Len_card sort_LiveKeys store_view_ReclaimExpired
      split: option.splits prod.splits\<close>)
qed

lemma run_agrees:
  assumes "fair_ranger rng" and "agrees now s m" and "sorted (now # map fst cs)"
  shows "store_run rng s cs = table_run m cs"
  using assms(2,3)
proof (induction cs arbitrary: now s m)
  case Nil
  then show ?case by simp
next
  case (Cons tc cs)
  obtain t c where tc: "tc = (t, c)" by fastforce
  have "agrees t s m" using Cons.prems by (simp add: tc agrees_later)
  note step = call_agrees [OF assms(1) this, of c]
  have "store_run rng (fst (store_call rng t s c)) cs = table_run (fst (table_call t m c)) cs"
    using step Cons.prems by (intro Cons.IH [of t]) (simp_all add: tc)
  then show ?case using step by (auto simp: tc split: prod.splits)
qed

section \<open>Properties\<close>



text \<open>
  In every store reachable from \<^verbatim>\<open>New\<close> through the exported operations each key with a
  deadline has a value, which is the invariant \<^verbatim>\<open>keys(expires) \<subseteq> keys(data)\<close> the type states.
\<close>

theorem store_reachable_inv:
  assumes "store_reachable s"
  shows "store_inv s"
  using assms by (induction rule: store_reachable.induct) (auto intro: kv_inv)

theorem store_reachable_inv_witness:
  "store_inv (fst (store_Expire (store_Set store_New ''k'' ''v'' 0 False) ''k'' 7 3))"
  by (intro store_reachable_inv store_reachable.intros)



end
