(* ===== verification/Scan_Sessions.thy ===== *)
theory Scan_Sessions
  imports Glob Store
begin

text \<open>
  The sessions behind the cursors of \<^verbatim>\<open>SCAN\<close>: \<^verbatim>\<open>internal/engine/scan_sessions.go\<close>. A session
  holds a snapshot of keys and the position of the next page. The accounting is in 64-bit words,
  as in the code; the source of tokens is external, and is the list of the answers it gives.
\<close>

section \<open>State\<close>

definition scanSessionTTL :: duration where
  "scanSessionTTL = 30 * nsPerSec"

definition maxScanSessions :: nat where
  "maxScanSessions = 16"

definition maxScanSessionBytes :: "64 word" where
  "maxScanSessionBytes = 128 * 2 ^ 20"

definition scanStringBytes :: "64 word" where
  "scanStringBytes = 16"

definition scanSessionOverhead :: "64 word" where
  "scanSessionOverhead = 64"

datatype scan_err = ErrInvalidCursor | ErrScanSessionLimit | ErrScanMatchChanged | TokenErr string

record scanSessionLimits =
  ttl :: duration
  maxSessions :: nat
  maxBytes :: "64 word"

record scanSession =
  skeys :: "string list"
  spattern :: string
  position :: nat
  lastUsed :: time
  sbytes :: "64 word"
  stoken :: "64 word"

record scanSessionManager =
  sessions :: "(64 word, scanSession) fmap"
  mbytes :: "64 word"
  mlimits :: scanSessionLimits

record ScanResult =
  Cursor :: "64 word"
  RKeys :: "string list"

definition defaultScanSessionLimits :: scanSessionLimits where
  "defaultScanSessionLimits =
     \<lparr>ttl = scanSessionTTL, maxSessions = maxScanSessions, maxBytes = maxScanSessionBytes\<rparr>"

definition newScanSessionManager :: "scanSessionLimits \<Rightarrow> scanSessionManager" where
  "newScanSessionManager lim = \<lparr>sessions = fmempty, mbytes = 0, mlimits = lim\<rparr>"

section \<open>Pages and bytes\<close>

definition scanPageEnd :: "nat \<Rightarrow> nat \<Rightarrow> 64 word \<Rightarrow> nat" where
  "scanPageEnd start len cnt =
     (let remaining = len - start in if unat cnt \<ge> remaining then len else start + unat cnt)"

definition MaxUint64 :: "64 word" where
  "MaxUint64 = - 1"

definition scanSaturatingAdd :: "64 word \<Rightarrow> 64 word \<Rightarrow> 64 word" where
  "scanSaturatingAdd a b = (if MaxUint64 - a < b then MaxUint64 else a + b)"

definition scanSaturatingMultiply :: "64 word \<Rightarrow> 64 word \<Rightarrow> 64 word" where
  "scanSaturatingMultiply a b = (if a \<noteq> 0 \<and> b > MaxUint64 div a then MaxUint64 else a * b)"

definition scanSessionRetainedBytes :: "64 word \<Rightarrow> 64 word \<Rightarrow> 64 word \<Rightarrow> 64 word" where
  "scanSessionRetainedBytes keyCapacity keyBytes patternBytes =
     (let stringHeaders = scanSaturatingMultiply keyCapacity scanStringBytes;
          total1 = scanSaturatingAdd stringHeaders keyBytes;
          total2 = scanSaturatingAdd total1 patternBytes
      in scanSaturatingAdd total2 scanSessionOverhead)"

text \<open>\<open>cap\<close> is \<^verbatim>\<open>cap(keys)\<close>, which the caller's snapshot decides.\<close>

definition scanSessionBytes :: "string list \<Rightarrow> nat \<Rightarrow> string \<Rightarrow> 64 word" where
  "scanSessionBytes keys cap pattern =
     scanSessionRetainedBytes (of_nat cap)
       (foldl (\<lambda>acc key. scanSaturatingAdd acc (of_nat (length key))) 0 keys) (of_nat (length pattern))"

section \<open>Operations\<close>

definition removeLocked :: "scanSessionManager \<Rightarrow> 64 word \<Rightarrow> scanSession \<Rightarrow> scanSessionManager" where
  "removeLocked m token s = m\<lparr>sessions := fmdrop token (sessions m), mbytes := mbytes m - sbytes s\<rparr>"

fun expire_loop :: "time \<Rightarrow> 64 word list \<Rightarrow> scanSessionManager \<Rightarrow> scanSessionManager" where
  "expire_loop now [] m = m"
| "expire_loop now (t # ts) m =
     (case fmlookup (sessions m) t of
        None \<Rightarrow> expire_loop now ts m
      | Some s \<Rightarrow>
          expire_loop now ts
            (if \<not> now < time_Add (lastUsed s) (ttl (mlimits m)) then removeLocked m t s else m))"

definition expireLocked :: "64 word ranger \<Rightarrow> scanSessionManager \<Rightarrow> time \<Rightarrow> scanSessionManager" where
  "expireLocked rng m now = expire_loop now (rng (fmdom (sessions m))) m"

text \<open>
  The answers of \<^verbatim>\<open>m.token\<close>: an error or a token. \<open>None\<close> is a call that has not returned by the
  last of the answers; the rest of the answers is given back.
\<close>

type_synonym tokens = "(string + 64 word) list"

fun nextTokenLocked :: "scanSessionManager \<Rightarrow> tokens \<Rightarrow> ((scan_err + 64 word) \<times> tokens) option" where
  "nextTokenLocked m [] = None"
| "nextTokenLocked m (Inl e # ts) = Some (Inl (TokenErr e), ts)"
| "nextTokenLocked m (Inr t # ts) =
     (if t = 0 then nextTokenLocked m ts
      else if fmlookup (sessions m) t \<noteq> None then nextTokenLocked m ts
      else Some (Inr t, ts))"

text \<open>\<^verbatim>\<open>randomScanSessionToken\<close>, given what \<^verbatim>\<open>rand.Read\<close> filled in.\<close>

definition randomScanSessionToken :: "string + bytes \<Rightarrow> string + 64 word" where
  "randomScanSessionToken answer =
     (case answer of
        Inl e \<Rightarrow> Inl e
      | Inr bs \<Rightarrow> Inr (foldl (\<lambda>v c. v * 256 + of_nat (of_char c)) 0 bs))"

definition scan_start ::
  "64 word ranger \<Rightarrow> scanSessionManager \<Rightarrow> string list \<Rightarrow> nat \<Rightarrow> string \<Rightarrow> 64 word \<Rightarrow> time \<Rightarrow> tokens \<Rightarrow>
   (scanSessionManager \<times> (scan_err + ScanResult) \<times> tokens) option" where
  "scan_start rng m0 keys cap pattern cnt now toks =
     (let m = expireLocked rng m0 now;
          stop = scanPageEnd 0 (length keys) cnt;
          page = take stop keys
      in if stop = length keys then Some (m, Inr \<lparr>Cursor = 0, RKeys = page\<rparr>, toks)
         else
           let retainedBytes = scanSessionBytes keys cap pattern in
           if map_len (sessions m) \<ge> maxSessions (mlimits m) \<or> retainedBytes > maxBytes (mlimits m)
              \<or> mbytes m > maxBytes (mlimits m) - retainedBytes
           then Some (m, Inl ErrScanSessionLimit, toks)
           else case nextTokenLocked m toks of
                  None \<Rightarrow> None
                | Some (Inl e, toks') \<Rightarrow> Some (m, Inl e, toks')
                | Some (Inr token, toks') \<Rightarrow>
                    let session = \<lparr>skeys = keys, spattern = pattern, position = stop, lastUsed = now,
                                   sbytes = retainedBytes, stoken = token\<rparr>
                    in Some (m\<lparr>sessions := fmupd token session (sessions m), mbytes := mbytes m + retainedBytes\<rparr>,
                             Inr \<lparr>Cursor = token, RKeys = page\<rparr>, toks'))"

definition scan_next ::
  "64 word ranger \<Rightarrow> scanSessionManager \<Rightarrow> 64 word \<Rightarrow> string \<Rightarrow> bool \<Rightarrow> 64 word \<Rightarrow> time \<Rightarrow> tokens \<Rightarrow>
   (scanSessionManager \<times> (scan_err + ScanResult) \<times> tokens) option" where
  "scan_next rng m0 cursor pattern patternSet cnt now toks =
     (let m = expireLocked rng m0 now in
      case fmlookup (sessions m) cursor of
        None \<Rightarrow> Some (m, Inl ErrInvalidCursor, toks)
      | Some s \<Rightarrow>
          if patternSet \<and> pattern \<noteq> spattern s then Some (m, Inl ErrScanMatchChanged, toks)
          else
            let stop = scanPageEnd (position s) (length (skeys s)) cnt;
                page = take (stop - position s) (drop (position s) (skeys s))
            in if stop = length (skeys s)
               then Some (removeLocked m cursor s, Inr \<lparr>Cursor = 0, RKeys = page\<rparr>, toks)
               else case nextTokenLocked m toks of
                      None \<Rightarrow> None
                    | Some (Inl e, toks') \<Rightarrow> Some (m, Inl e, toks')
                    | Some (Inr replacement, toks') \<Rightarrow>
                        Some (m\<lparr>sessions := fmupd replacement
                                  (s\<lparr>position := stop, lastUsed := now, stoken := replacement\<rparr>)
                                  (fmdrop cursor (sessions m))\<rparr>,
                              Inr \<lparr>Cursor = replacement, RKeys = page\<rparr>, toks'))"

definition scan_clear :: "scanSessionManager \<Rightarrow> scanSessionManager" where
  "scan_clear m = m\<lparr>sessions := fmempty, mbytes := 0\<rparr>"

definition scan_stats :: "scanSessionManager \<Rightarrow> nat \<times> 64 word" where
  "scan_stats m = (map_len (sessions m), mbytes m)"

section \<open>Accounting\<close>

lemma unat_MaxUint64: "unat MaxUint64 = 2 ^ 64 - 1"
  by (simp add: MaxUint64_def unsigned_minus_1_eq_mask mask_eq_exp_minus_1)

lemma unat_MaxUint64_minus: "unat (MaxUint64 - a) = 2 ^ 64 - 1 - unat a"
proof -
  have "a \<le> MaxUint64" by (simp add: MaxUint64_def)
  then show ?thesis by (simp add: unat_sub unat_MaxUint64)
qed

lemma unat_less_64: "unat (a :: 64 word) < 2 ^ 64"
  using unsigned_less [of a] by simp

lemma unat_scanSaturatingAdd: "unat (scanSaturatingAdd a b) = min (2 ^ 64 - 1) (unat a + unat b)"
proof (cases "MaxUint64 - a < b")
  case True
  then have "2 ^ 64 - 1 - unat a < unat b" by (simp add: word_less_nat_alt unat_MaxUint64_minus)
  then show ?thesis using True by (simp add: scanSaturatingAdd_def unat_MaxUint64 min_def)
next
  case False
  then have "unat a + unat b < 2 ^ 64"
    using unat_less_64 [of a] by (simp add: word_less_nat_alt unat_MaxUint64_minus)
  then have "unat (a + b) = unat a + unat b" by (simp add: unat_word_ariths)
  then show ?thesis using False \<open>unat a + unat b < 2 ^ 64\<close> by (simp add: scanSaturatingAdd_def min_def)
qed

lemma unat_scanSaturatingMultiply: "unat (scanSaturatingMultiply a b) = min (2 ^ 64 - 1) (unat a * unat b)"
proof (cases "a \<noteq> 0 \<and> b > MaxUint64 div a")
  case True
  then have a: "0 < unat a" and "(2 ^ 64 - 1) div unat a < unat b"
    by (auto simp: word_less_nat_alt unat_div unat_MaxUint64 unat_gt_0)
  then have "2 ^ 64 - 1 < unat b * unat a" using div_less_iff_less_mult by blast
  then show ?thesis using True by (simp add: scanSaturatingMultiply_def unat_MaxUint64 min_def mult.commute)
next
  case False
  have "unat a * unat b \<le> 2 ^ 64 - 1"
  proof (cases "a = 0")
    case nz: False
    then have "unat b \<le> (2 ^ 64 - 1) div unat a" "0 < unat a"
      using False by (auto simp: word_less_nat_alt unat_div unat_MaxUint64 unat_gt_0 not_less)
    then show ?thesis by (metis less_eq_div_iff_mult_less_eq mult.commute)
  qed simp
  moreover from this have "unat (a * b) = unat a * unat b" by (simp add: unat_word_ariths)
  ultimately show ?thesis using False by (auto simp: scanSaturatingMultiply_def min_def)
qed

text \<open>
  The estimate of what a session retains is exact up to saturation: in 64-bit arithmetic it
  never wraps around to a small number, whatever the sizes, so a session cannot slip under the
  budget by overflowing its own estimate.
\<close>

theorem retained_bytes_exact:
  "unat (scanSessionRetainedBytes a b c) = min (2 ^ 64 - 1) (16 * unat a + unat b + unat c + 64)"
  by (simp add: scanSessionRetainedBytes_def Let_def unat_scanSaturatingAdd unat_scanSaturatingMultiply
      scanStringBytes_def scanSessionOverhead_def min_def)

section \<open>The invariant of the manager\<close>

lemma map_len_fmempty [simp]: "map_len fmempty = 0"
  by (simp only: map_len_eq_0)

definition held :: "(64 word, scanSession) fmap \<Rightarrow> nat" where
  "held ss = (\<Sum>t \<in> fmdom' ss. unat (sbytes (the (fmlookup ss t))))"

lemma held_empty [simp]: "held fmempty = 0"
  by (simp add: held_def)

lemma held_fmupd: "fmlookup ss t = None \<Longrightarrow> held (fmupd t s ss) = held ss + unat (sbytes s)"
proof -
  assume t: "fmlookup ss t = None"
  then have "t \<notin> fmdom' ss" by (simp add: fmdom'_notI)
  moreover from this have "(\<Sum>u \<in> fmdom' ss. unat (sbytes (the (fmlookup (fmupd t s ss) u))))
      = (\<Sum>u \<in> fmdom' ss. unat (sbytes (the (fmlookup ss u))))"
    by (intro sum.cong) auto
  ultimately show ?thesis by (simp add: held_def)
qed

lemma held_fmdrop: "fmlookup ss t = Some s \<Longrightarrow> held (fmdrop t ss) + unat (sbytes s) = held ss"
proof -
  assume t: "fmlookup ss t = Some s"
  then have "t \<in> fmdom' ss" by (simp add: fmdom'I)
  moreover have "(\<Sum>u \<in> fmdom' ss - {t}. unat (sbytes (the (fmlookup (fmdrop t ss) u))))
      = (\<Sum>u \<in> fmdom' ss - {t}. unat (sbytes (the (fmlookup ss u))))"
    by (intro sum.cong) auto
  ultimately show ?thesis
    using t sum.remove [of "fmdom' ss" t "\<lambda>u. unat (sbytes (the (fmlookup ss u)))"] by (simp add: held_def)
qed

lemma map_len_fmdrop: "fmlookup ss t = Some s \<Longrightarrow> Suc (map_len (fmdrop t ss)) = map_len ss"
proof -
  assume "fmlookup ss t = Some s"
  then have "t \<in> fset (fmdom ss)" by (simp add: fmdomI)
  then show ?thesis using card_Suc_Diff1 [of "fset (fmdom ss)" t] by (simp add: map_len_def fcard.rep_eq)
qed

definition sessions_inv :: "scanSessionManager \<Rightarrow> bool" where
  "sessions_inv m \<longleftrightarrow>
     (\<forall>t s. fmlookup (sessions m) t = Some s \<longrightarrow> t \<noteq> 0 \<and> stoken s = t \<and> position s < length (skeys s))
     \<and> held (sessions m) = unat (mbytes m) \<and> mbytes m \<le> maxBytes (mlimits m)
     \<and> map_len (sessions m) \<le> maxSessions (mlimits m)"

lemma sessions_inv_new [kv_inv]: "sessions_inv (newScanSessionManager lim)"
  by (simp add: sessions_inv_def newScanSessionManager_def map_len_def fcard.rep_eq)

lemma sessions_inv_clear [kv_inv]: "sessions_inv m \<Longrightarrow> sessions_inv (scan_clear m)"
  by (simp add: sessions_inv_def scan_clear_def map_len_def fcard.rep_eq)

lemma sessions_inv_remove [kv_inv]:
  assumes "sessions_inv m" "fmlookup (sessions m) t = Some s"
  shows "sessions_inv (removeLocked m t s)"
proof -
  have h: "held (fmdrop t (sessions m)) + unat (sbytes s) = unat (mbytes m)"
    using held_fmdrop [OF assms(2)] assms(1) by (simp add: sessions_inv_def)
  then have "sbytes s \<le> mbytes m" by (simp add: word_le_nat_alt)
  then have "unat (mbytes m - sbytes s) = unat (mbytes m) - unat (sbytes s)" by (rule unat_sub)
  moreover from this have "mbytes m - sbytes s \<le> mbytes m" by (simp add: word_le_nat_alt)
  ultimately show ?thesis
    using assms h map_len_fmdrop [OF assms(2)]
    by (auto simp: sessions_inv_def removeLocked_def intro: order_trans)
qed

lemma sessions_inv_expire_loop: "sessions_inv m \<Longrightarrow> sessions_inv (expire_loop now ts m)"
  by (induction ts arbitrary: m) (auto simp: sessions_inv_remove split: option.splits)

lemma sessions_inv_expire [kv_inv]: "sessions_inv m \<Longrightarrow> sessions_inv (expireLocked rng m now)"
  by (simp add: expireLocked_def sessions_inv_expire_loop)

text \<open>What expiring keeps.\<close>

definition due :: "scanSessionManager \<Rightarrow> time \<Rightarrow> scanSession \<Rightarrow> bool" where
  "due m now s \<longleftrightarrow> time_Add (lastUsed s) (ttl (mlimits m)) \<le> now"

lemma mlimits_remove [simp]: "mlimits (removeLocked m t s) = mlimits m"
  by (simp add: removeLocked_def)

lemma expire_loop_lookup:
  "fmlookup (sessions (expire_loop now ts m)) t =
     (case fmlookup (sessions m) t of
        None \<Rightarrow> None
      | Some s \<Rightarrow> if t \<in> set ts \<and> due m now s then None else Some s)
   \<and> mlimits (expire_loop now ts m) = mlimits m"
proof (induction ts arbitrary: m)
  case (Cons u ts)
  show ?case
  proof (cases "fmlookup (sessions m) u")
    case None
    then show ?thesis using Cons [of m] by (auto split: option.splits)
  next
    case (Some s)
    let ?m = "if \<not> now < time_Add (lastUsed s) (ttl (mlimits m)) then removeLocked m u s else m"
    have "mlimits ?m = mlimits m" by simp
    then show ?thesis
      using Some Cons [of ?m]
      by (cases "due m now s") (auto simp: due_def removeLocked_def not_less split: option.splits)
  qed
qed (simp split: option.splits)

lemma expire_lookup:
  "fair_ranger rng \<Longrightarrow> fmlookup (sessions (expireLocked rng m now)) t =
     (case fmlookup (sessions m) t of None \<Rightarrow> None | Some s \<Rightarrow> if due m now s then None else Some s)"
  by (auto simp: expireLocked_def expire_loop_lookup split: option.splits dest: fmdomI)

lemma mlimits_expire [simp]: "mlimits (expireLocked rng m now) = mlimits m"
  by (simp add: expireLocked_def expire_loop_lookup)

lemma expire_none:
  assumes "fmpred (\<lambda>_ s. \<not> due m now s) (sessions m)"
  shows "expireLocked rng m now = m"
proof -
  have "expire_loop now ts m = m" for ts
    using assms by (induction ts) (auto simp: fmpred_iff due_def not_less split: option.splits)
  then show ?thesis by (simp add: expireLocked_def)
qed

lemma nextToken_fresh:
  "nextTokenLocked m toks = Some (Inr t, toks') \<Longrightarrow> t \<noteq> 0 \<and> fmlookup (sessions m) t = None"
  by (induction m toks rule: nextTokenLocked.induct) (auto split: if_splits)

lemma sessions_inv_add:
  assumes inv: "sessions_inv m" and new: "t \<noteq> 0" "fmlookup (sessions m) t = None" "stoken s = t" "position s < length (skeys s)"
    and room: "map_len (sessions m) < maxSessions (mlimits m)" "sbytes s \<le> maxBytes (mlimits m)"
      "mbytes m \<le> maxBytes (mlimits m) - sbytes s"
  shows "sessions_inv (m\<lparr>sessions := fmupd t s (sessions m), mbytes := mbytes m + sbytes s\<rparr>)"
proof -
  have "unat (mbytes m) \<le> unat (maxBytes (mlimits m)) - unat (sbytes s)" "unat (sbytes s) \<le> unat (maxBytes (mlimits m))"
    using room(2,3) by (simp_all add: word_le_nat_alt unat_sub)
  then have sum: "unat (mbytes m) + unat (sbytes s) \<le> unat (maxBytes (mlimits m))" by simp
  then have u: "unat (mbytes m + sbytes s) = unat (mbytes m) + unat (sbytes s)"
    using unat_less_64 [of "maxBytes (mlimits m)"] by (simp add: unat_word_ariths)
  have "t |\<notin>| fmdom (sessions m)" using new(2) by (simp add: fmdom_notI)
  then show ?thesis
    using inv new room(1) sum u held_fmupd [OF new(2), of s]
    by (auto simp: sessions_inv_def map_len_fmupd word_le_nat_alt)
qed

lemma sessions_inv_move:
  assumes inv: "sessions_inv m" and old: "fmlookup (sessions m) c = Some s"
    and new: "t \<noteq> 0" "fmlookup (sessions m) t = None" "stoken s' = t" "position s' < length (skeys s')" "sbytes s' = sbytes s"
  shows "sessions_inv (m\<lparr>sessions := fmupd t s' (fmdrop c (sessions m))\<rparr>)"
proof -
  have n: "fmlookup (fmdrop c (sessions m)) t = None" using new(2) by simp
  then have "t |\<notin>| fmdom (fmdrop c (sessions m))" by (rule fmdom_notI)
  then show ?thesis
    using inv new held_fmupd [OF n, of s'] held_fmdrop [OF old] map_len_fmdrop [OF old]
    by (auto simp: sessions_inv_def map_len_fmupd)
qed

lemma scanPageEnd_bounds: "start \<le> len \<Longrightarrow> start \<le> scanPageEnd start len cnt \<and> scanPageEnd start len cnt \<le> len"
  by (auto simp: scanPageEnd_def Let_def)

text \<open>The outcomes of the two operations, after expiring.\<close>

lemma scan_start_cases:
  assumes "scan_start rng m keys cap pattern cnt now toks = Some (m', r, toks')"
    and m1: "m1 = expireLocked rng m now" and stop: "stop = scanPageEnd 0 (length keys) cnt"
    and b: "b = scanSessionBytes keys cap pattern"
  obtains (Whole) "m' = m1" "stop = length keys" "r = Inr \<lparr>Cursor = 0, RKeys = keys\<rparr>"
    | (Refused) e where "m' = m1" "r = Inl e"
    | (Kept) t where "nextTokenLocked m1 toks = Some (Inr t, toks')" "stop < length keys"
        "map_len (sessions m1) < maxSessions (mlimits m1)" "b \<le> maxBytes (mlimits m1)"
        "mbytes m1 \<le> maxBytes (mlimits m1) - b" "r = Inr \<lparr>Cursor = t, RKeys = take stop keys\<rparr>"
        "m' = m1\<lparr>sessions := fmupd t \<lparr>skeys = keys, spattern = pattern, position = stop, lastUsed = now,
                     sbytes = b, stoken = t\<rparr> (sessions m1), mbytes := mbytes m1 + b\<rparr>"
proof -
  have le: "stop \<le> length keys" unfolding stop using scanPageEnd_bounds [of 0 "length keys" cnt] by simp
  note step = assms(1) [unfolded scan_start_def Let_def, folded m1 stop b]
  show thesis
  proof (cases "stop = length keys")
    case True
    with step Whole show thesis by auto
  next
    case more: False
    show thesis
    proof (cases "map_len (sessions m1) \<ge> maxSessions (mlimits m1) \<or> b > maxBytes (mlimits m1)
        \<or> mbytes m1 > maxBytes (mlimits m1) - b")
      case True
      with step more Refused show thesis by auto
    next
      case room: False
      then show thesis
        using step more le Refused Kept
        by (cases "nextTokenLocked m1 toks") (auto split: prod.splits sum.splits)
    qed
  qed
qed

lemma scan_next_cases:
  assumes "scan_next rng m c pattern ps cnt now toks = Some (m', r, toks')"
    and m1: "m1 = expireLocked rng m now"
  obtains (Refused) e where "m' = m1" "r = Inl e"
    | (Last) s where "fmlookup (sessions m1) c = Some s" "m' = removeLocked m1 c s"
        "scanPageEnd (position s) (length (skeys s)) cnt = length (skeys s)"
        "r = Inr \<lparr>Cursor = 0, RKeys = take (length (skeys s) - position s) (drop (position s) (skeys s))\<rparr>"
    | (More) s t stop where "fmlookup (sessions m1) c = Some s" "nextTokenLocked m1 toks = Some (Inr t, toks')"
        "stop = scanPageEnd (position s) (length (skeys s)) cnt" "stop \<noteq> length (skeys s)"
        "r = Inr \<lparr>Cursor = t, RKeys = take (stop - position s) (drop (position s) (skeys s))\<rparr>"
        "m' = m1\<lparr>sessions := fmupd t (s\<lparr>position := stop, lastUsed := now, stoken := t\<rparr>) (fmdrop c (sessions m1))\<rparr>"
proof -
  note step = assms(1) [unfolded scan_next_def Let_def, folded m1]
  show thesis
  proof (cases "fmlookup (sessions m1) c")
    case None
    with step Refused show thesis by auto
  next
    case (Some s)
    show thesis
    proof (cases "ps \<and> pattern \<noteq> spattern s")
      case True
      with step Some Refused show thesis by auto
    next
      case same: False
      define stop where "stop = scanPageEnd (position s) (length (skeys s)) cnt"
      note step1 = step [unfolded Some option.case if_not_P [OF same], folded stop_def]
      show thesis
      proof (cases "stop = length (skeys s)")
        case True
        then show thesis using step1 Some Last [of s] by (auto simp: stop_def [symmetric])
      next
        case False
        then show thesis
          using step1 Some Refused More [OF Some _ stop_def]
          by (cases "nextTokenLocked m1 toks") (auto split: prod.splits sum.splits)
      qed
    qed
  qed
qed

lemma sessions_inv_start [kv_inv]:
  assumes "sessions_inv m" "scan_start rng m keys cap pattern cnt now toks = Some (m', r, toks')"
  shows "sessions_inv m'"
proof -
  have inv: "sessions_inv (expireLocked rng m now)" using assms(1) by (rule sessions_inv_expire)
  from assms(2) refl refl refl show ?thesis
  proof (cases rule: scan_start_cases)
    case (Kept t)
    from nextToken_fresh [OF Kept(1)] Kept(2-5) show ?thesis
      unfolding Kept(7) using sessions_inv_add [OF inv, of t "\<lparr>skeys = keys, spattern = pattern,
          position = scanPageEnd 0 (length keys) cnt, lastUsed = now,
          sbytes = scanSessionBytes keys cap pattern, stoken = t\<rparr>"]
      by simp
  qed (use inv in simp_all)
qed

lemma sessions_inv_next [kv_inv]:
  assumes "sessions_inv m" "scan_next rng m c pattern ps cnt now toks = Some (m', r, toks')"
  shows "sessions_inv m'"
proof -
  have inv: "sessions_inv (expireLocked rng m now)" using assms(1) by (rule sessions_inv_expire)
  from assms(2) refl show ?thesis
  proof (cases rule: scan_next_cases)
    case (Last s)
    then show ?thesis using sessions_inv_remove [OF inv] by simp
  next
    case (More s t stop)
    have "position s < length (skeys s)" using inv More(1) by (auto simp: sessions_inv_def)
    then have "stop < length (skeys s)"
      using More(3,4) scanPageEnd_bounds [of "position s" "length (skeys s)" cnt] by simp
    with nextToken_fresh [OF More(2)] show ?thesis
      unfolding More(6)
      using sessions_inv_move [OF inv More(1), of t "s\<lparr>position := stop, lastUsed := now, stoken := t\<rparr>"]
      by simp
  qed (use inv in simp)
qed

section \<open>Runs of the manager\<close>

text \<open>The calls the engine makes, each with the time and the answers of the token source it gets.\<close>

datatype mcall =
    MStart "string list" nat string "64 word" time tokens
  | MNext "64 word" string bool "64 word" time tokens
  | MClear

fun mcall_step :: "64 word ranger \<Rightarrow> scanSessionManager \<Rightarrow> mcall \<Rightarrow>
    (scanSessionManager \<times> (scan_err + ScanResult) option) option" where
  "mcall_step rng m (MStart keys cap pattern cnt now toks) =
     map_option (\<lambda>(m', r, _). (m', Some r)) (scan_start rng m keys cap pattern cnt now toks)"
| "mcall_step rng m (MNext c pattern ps cnt now toks) =
     map_option (\<lambda>(m', r, _). (m', Some r)) (scan_next rng m c pattern ps cnt now toks)"
| "mcall_step rng m MClear = Some (scan_clear m, None)"

inductive manager_reachable :: "64 word ranger \<Rightarrow> scanSessionLimits \<Rightarrow> scanSessionManager \<Rightarrow> bool" for rng lim where
  fresh: "manager_reachable rng lim (newScanSessionManager lim)"
| called: "manager_reachable rng lim m \<Longrightarrow> mcall_step rng m c = Some (m', r) \<Longrightarrow> manager_reachable rng lim m'"

lemma mlimits_ops:
  "scan_start rng m keys cap pattern cnt now toks = Some (m', r, ts) \<Longrightarrow> mlimits m' = mlimits m"
  "scan_next rng m c pattern ps cnt now toks = Some (m', r, ts) \<Longrightarrow> mlimits m' = mlimits m"
  "mlimits (scan_clear m) = mlimits m"
  by (auto elim!: scan_start_cases [OF _ refl refl refl] scan_next_cases [OF _ refl] simp: scan_clear_def)

lemma mcall_step_inv:
  "mcall_step rng m c = Some (m', r) \<Longrightarrow> sessions_inv m \<Longrightarrow> sessions_inv m' \<and> mlimits m' = mlimits m"
  by (cases c) (auto intro: sessions_inv_start sessions_inv_next sessions_inv_clear simp: mlimits_ops)

lemma manager_reachable_inv: "manager_reachable rng lim m \<Longrightarrow> sessions_inv m \<and> mlimits m = lim"
proof (induction rule: manager_reachable.induct)
  case fresh
  show ?case by (simp add: sessions_inv_new) (simp add: newScanSessionManager_def)
next
  case called
  then show ?case using mcall_step_inv by metis
qed

text \<open>
  C26: the sessions stay within their limits. In every state the manager can reach there are at most
  \<^const>\<open>maxSessions\<close> sessions, the byte counter is the exact sum of what the sessions were charged, so it
  never drifts or wraps, and the sum is within \<^const>\<open>maxBytes\<close>. Each session is filed under its own
  token, which is never the cursor 0, and still has keys to return.
\<close>

theorem sessions_within_limits:
  assumes "manager_reachable rng lim m"
  shows "map_len (sessions m) \<le> maxSessions lim \<and> held (sessions m) = unat (mbytes m) \<and> mbytes m \<le> maxBytes lim
    \<and> fmpred (\<lambda>t s. t \<noteq> 0 \<and> stoken s = t \<and> position s < length (skeys s)) (sessions m)"
  using manager_reachable_inv [OF assms] by (auto simp: sessions_inv_def fmpred_iff)

theorem sessions_within_limits_witness:
  "\<exists>m. manager_reachable sorted_list_of_fset defaultScanSessionLimits m \<and> map_len (sessions m) = 1 \<and> mbytes m = 100
     \<and> held (sessions m) = 100"
proof -
  let ?m = "newScanSessionManager defaultScanSessionLimits"
  let ?s = "\<lparr>skeys = [''a'', ''b'', ''c''], spattern = ''*'', position = 1, lastUsed = 0, sbytes = 100, stoken = 7\<rparr>"
  let ?m' = "?m\<lparr>sessions := fmupd 7 ?s fmempty, mbytes := 100\<rparr>"
  have b: "scanSessionBytes [''a'', ''b'', ''c''] 2 ''*'' = 100"
    by (simp add: scanSessionBytes_def scanSessionRetainedBytes_def scanSaturatingAdd_def
        scanSaturatingMultiply_def MaxUint64_def scanStringBytes_def scanSessionOverhead_def)
  have "mcall_step sorted_list_of_fset ?m (MStart [''a'', ''b'', ''c''] 2 ''*'' 1 0 [Inr 7])
      = Some (?m', Some (Inr \<lparr>Cursor = 7, RKeys = [''a'']\<rparr>))"
    by (simp add: scan_start_def b newScanSessionManager_def expire_none
        scanPageEnd_def Let_def defaultScanSessionLimits_def maxScanSessions_def maxScanSessionBytes_def)
  from called [OF fresh this] have r: "manager_reachable sorted_list_of_fset defaultScanSessionLimits ?m'" .
  from sessions_within_limits [OF r] r show ?thesis
    by (auto simp: map_len_fmupd newScanSessionManager_def intro!: exI [of _ ?m'])
qed

section \<open>A scan from its first page to its last\<close>

definition remaining :: "scanSessionManager \<Rightarrow> 64 word \<Rightarrow> string list" where
  "remaining m c = (case fmlookup (sessions m) c of None \<Rightarrow> [] | Some s \<Rightarrow> drop (position s) (skeys s))"

text \<open>Whether a call at this time finds the session of the cursor.\<close>

definition live_cursor :: "scanSessionManager \<Rightarrow> 64 word \<Rightarrow> time \<Rightarrow> bool" where
  "live_cursor m c now = (case fmlookup (sessions m) c of None \<Rightarrow> False | Some s \<Rightarrow> \<not> due m now s)"

text \<open>
  One client's scan among the calls of all clients: the keys its own calls return, with the
  cursor it holds in the end. \<open>None\<close> when its session was lost on the way, by expiry or by
  \<^verbatim>\<open>clear\<close>, or when a call does not return.
\<close>

fun scan_pages :: "64 word ranger \<Rightarrow> scanSessionManager \<Rightarrow> 64 word \<Rightarrow> mcall list \<Rightarrow>
    (string list \<times> 64 word \<times> scanSessionManager) option" where
  "scan_pages rng m c [] = Some ([], c, m)"
| "scan_pages rng m c (MStart keys cap pattern cnt now toks # calls) =
     (if \<not> live_cursor m c now then None
      else case scan_start rng m keys cap pattern cnt now toks of
             None \<Rightarrow> None
           | Some (m', _, _) \<Rightarrow> scan_pages rng m' c calls)"
| "scan_pages rng m c (MNext c' pattern ps cnt now toks # calls) =
     (if \<not> live_cursor m c now then None
      else case scan_next rng m c' pattern ps cnt now toks of
             None \<Rightarrow> None
           | Some (m', r, _) \<Rightarrow>
               if c' \<noteq> c then scan_pages rng m' c calls
               else (case r of
                       Inl e \<Rightarrow> scan_pages rng m' c calls
                     | Inr res \<Rightarrow>
                         if Cursor res = 0 then Some (RKeys res, 0, m')
                         else map_option (\<lambda>(ks, c'', m''). (RKeys res @ ks, c'', m''))
                                (scan_pages rng m' (Cursor res) calls)))"
| "scan_pages rng m c (MClear # calls) = None"

lemma expire_keeps:
  "fair_ranger rng \<Longrightarrow> live_cursor m c now \<Longrightarrow>
   fmlookup (sessions (expireLocked rng m now)) c = fmlookup (sessions m) c \<and> fmlookup (sessions m) c \<noteq> None"
  by (auto simp: live_cursor_def expire_lookup split: option.splits)

lemma start_keeps:
  assumes "fair_ranger rng" "live_cursor m c now" "scan_start rng m keys cap pattern cnt now toks = Some (m', r, ts)"
  shows "fmlookup (sessions m') c = fmlookup (sessions m) c"
  using assms(3) refl refl refl
proof (cases rule: scan_start_cases)
  case (Kept t)
  from nextToken_fresh [OF Kept(1)] expire_keeps [OF assms(1,2)] have "t \<noteq> c" by auto
  then show ?thesis unfolding Kept(7) using expire_keeps [OF assms(1,2)] by simp
qed (use expire_keeps [OF assms(1,2)] in simp_all)

lemma next_keeps:
  assumes "fair_ranger rng" "live_cursor m c now" "c' \<noteq> c"
    "scan_next rng m c' pattern ps cnt now toks = Some (m', r, ts)"
  shows "fmlookup (sessions m') c = fmlookup (sessions m) c"
  using assms(4) refl
proof (cases rule: scan_next_cases)
  case (More s t stop)
  from nextToken_fresh [OF More(2)] expire_keeps [OF assms(1,2)] have "t \<noteq> c" by auto
  then show ?thesis unfolding More(6) using expire_keeps [OF assms(1,2)] assms(3) by simp
qed (use expire_keeps [OF assms(1,2)] assms(3) in \<open>simp_all add: removeLocked_def\<close>)

text \<open>A call with the cursor itself returns the next keys and hands the rest on to the new cursor.\<close>

lemma next_hands_on:
  assumes "fair_ranger rng" "sessions_inv m" "live_cursor m c now"
    "scan_next rng m c pattern ps cnt now toks = Some (m', r, ts)"
  shows "case r of
      Inl e \<Rightarrow> fmlookup (sessions m') c = fmlookup (sessions m) c
    | Inr res \<Rightarrow> if Cursor res = 0 then RKeys res = remaining m c
        else RKeys res @ remaining m' (Cursor res) = remaining m c \<and> (cnt \<noteq> 0 \<longrightarrow> RKeys res \<noteq> [])"
  using assms(4) refl
proof (cases rule: scan_next_cases)
  case (Refused e)
  then show ?thesis using expire_keeps [OF assms(1,3)] by simp
next
  case (Last s)
  then show ?thesis using expire_keeps [OF assms(1,3)] by (simp add: remaining_def)
next
  case (More s t stop)
  have s: "fmlookup (sessions m) c = Some s" using expire_keeps [OF assms(1,3)] More(1) by simp
  then have pos: "position s < length (skeys s)" using assms(2) by (auto simp: sessions_inv_def)
  have "position s \<le> stop" unfolding More(3)
    using pos scanPageEnd_bounds [of "position s" "length (skeys s)" cnt] by simp
  moreover have "cnt \<noteq> 0 \<longrightarrow> position s < stop" unfolding More(3)
    using pos by (auto simp: scanPageEnd_def Let_def unat_gt_0)
  moreover have "take (stop - position s) (drop (position s) (skeys s)) @ drop stop (skeys s) = drop (position s) (skeys s)"
    using \<open>position s \<le> stop\<close>
    by (metis append_take_drop_id drop_drop le_add_diff_inverse2)
  ultimately show ?thesis
    using nextToken_fresh [OF More(2)] s pos unfolding More(5,6) by (auto simp: remaining_def)
qed

lemma scan_pages_split:
  assumes fair: "fair_ranger rng"
  shows "sessions_inv m \<Longrightarrow> scan_pages rng m c calls = Some (ks, c', m') \<Longrightarrow>
    ks @ (if c' = 0 then [] else remaining m' c') = remaining m c"
proof (induction calls arbitrary: m c ks)
  case Nil
  then show ?case by (auto simp: remaining_def sessions_inv_def split: option.splits)
next
  case (Cons call calls)
  show ?case
  proof (cases call)
    case (MStart keys cap pattern cnt now toks)
    with Cons.prems(2) obtain m1 r ts where live: "live_cursor m c now"
      and step: "scan_start rng m keys cap pattern cnt now toks = Some (m1, r, ts)"
      and rest: "scan_pages rng m1 c calls = Some (ks, c', m')"
      by (auto split: if_splits option.splits)
    have "remaining m1 c = remaining m c" using start_keeps [OF fair live step] by (simp add: remaining_def)
    then show ?thesis using Cons.IH [OF sessions_inv_start [OF Cons.prems(1) step] rest] by simp
  next
    case (MNext d pattern ps cnt now toks)
    with Cons.prems(2) obtain m1 r ts where live: "live_cursor m c now"
      and step: "scan_next rng m d pattern ps cnt now toks = Some (m1, r, ts)"
      by (auto split: if_splits option.splits)
    note inv1 = sessions_inv_next [OF Cons.prems(1) step]
    show ?thesis
    proof (cases "d = c")
      case False
      then have "scan_pages rng m1 c calls = Some (ks, c', m')"
        using Cons.prems(2) MNext live step by simp
      moreover have "remaining m1 c = remaining m c"
        using next_keeps [OF fair live False step] by (simp add: remaining_def)
      ultimately show ?thesis using Cons.IH [OF inv1] by simp
    next
      case True
      note hand = next_hands_on [OF fair Cons.prems(1) live step [unfolded True]]
      show ?thesis
      proof (cases r)
        case (Inl e)
        then have "scan_pages rng m1 c calls = Some (ks, c', m')"
          using Cons.prems(2) MNext live step True by simp
        moreover have "remaining m1 c = remaining m c" using hand Inl by (simp add: remaining_def)
        ultimately show ?thesis using Cons.IH [OF inv1] by simp
      next
        case (Inr res)
        show ?thesis
        proof (cases "Cursor res = 0")
          case z: True
          then show ?thesis using Cons.prems(2) MNext live step True Inr hand by simp
        next
          case nz: False
          then obtain ks' where "scan_pages rng m1 (Cursor res) calls = Some (ks', c', m')" "ks = RKeys res @ ks'"
            using Cons.prems(2) MNext live step True Inr by auto
          then show ?thesis using Cons.IH [OF inv1] hand Inr nz by auto
        qed
      qed
    qed
  qed (use Cons.prems in simp)
qed

lemma scan_whole:
  assumes fair: "fair_ranger rng" and i: "sessions_inv m"
    and start: "scan_start rng m keys cap pattern cnt now toks = Some (m1, Inr res, ts)"
    and fin: "Cursor res = 0 \<and> ks = [] \<or> Cursor res \<noteq> 0 \<and> scan_pages rng m1 (Cursor res) calls = Some (ks, 0, m')"
  shows "RKeys res @ ks = keys"
proof -
  from start refl refl refl show ?thesis
  proof (cases rule: scan_start_cases)
    case Whole
    then show ?thesis using fin by auto
  next
    case (Refused e)
    then show ?thesis by simp
  next
    case (Kept t)
    let ?stop = "scanPageEnd 0 (length keys) cnt"
    have r: "res = \<lparr>Cursor = t, RKeys = take ?stop keys\<rparr>" using Kept(6) by simp
    have "t \<noteq> 0" using nextToken_fresh [OF Kept(1)] by simp
    then have "scan_pages rng m1 t calls = Some (ks, 0, m')" using fin r by simp
    from scan_pages_split [OF fair sessions_inv_start [OF i start] this]
    have "ks = remaining m1 t" by simp
    also have "\<dots> = drop ?stop keys" unfolding Kept(7) by (simp add: remaining_def)
    finally show ?thesis by (simp add: r)
  qed
qed

text \<open>
  A scan returns its snapshot exactly once. The pages a client gets, from the one \<^verbatim>\<open>start\<close> returns
  to the one that comes with cursor 0, are together the snapshot in its order: no key is skipped
  or repeated, whatever page sizes the client asks for, and whatever other clients start, continue
  or let expire in between.
\<close>

theorem scan_exactly_once:
  assumes fair: "fair_ranger rng" and inv: "manager_reachable rng lim m"
    and start: "scan_start rng m keys cap pattern cnt now toks = Some (m1, Inr res, ts)"
    and fin: "Cursor res = 0 \<and> ks = [] \<or> Cursor res \<noteq> 0 \<and> scan_pages rng m1 (Cursor res) calls = Some (ks, 0, m')"
  shows "RKeys res @ ks = keys"
  using scan_whole [OF fair _ start fin] manager_reachable_inv [OF inv] by simp

theorem scan_exactly_once_witness:
  "\<exists>m1 res ks m'. scan_start sorted_list_of_fset (newScanSessionManager defaultScanSessionLimits)
        [''a'', ''b'', ''c''] 2 ''*'' 1 0 [Inr 7] = Some (m1, Inr res, [])
    \<and> scan_pages sorted_list_of_fset m1 7 [MNext 7 [] False 1 1 [Inr 9], MNext 9 [] False 5 2 []] = Some (ks, 0, m')
    \<and> RKeys res @ ks = [''a'', ''b'', ''c'']"
proof -
  let ?m = "newScanSessionManager defaultScanSessionLimits"
  have b: "scanSessionBytes [''a'', ''b'', ''c''] 2 ''*'' = 100"
    by (simp add: scanSessionBytes_def scanSessionRetainedBytes_def scanSaturatingAdd_def
        scanSaturatingMultiply_def MaxUint64_def scanStringBytes_def scanSessionOverhead_def)
  let ?s = "\<lparr>skeys = [''a'', ''b'', ''c''], spattern = ''*'', position = 1, lastUsed = 0, sbytes = 100, stoken = 7\<rparr>"
  let ?m1 = "?m\<lparr>sessions := fmupd 7 ?s fmempty, mbytes := 100\<rparr>"
  have st: "scan_start sorted_list_of_fset ?m [''a'', ''b'', ''c''] 2 ''*'' 1 0 [Inr 7]
      = Some (?m1, Inr \<lparr>Cursor = 7, RKeys = [''a'']\<rparr>, [])"
    by (simp add: scan_start_def b newScanSessionManager_def expire_none scanPageEnd_def Let_def
        defaultScanSessionLimits_def maxScanSessions_def maxScanSessionBytes_def)
  have "\<exists>ks m'. scan_pages sorted_list_of_fset ?m1 7 [MNext 7 [] False 1 1 [Inr 9], MNext 9 [] False 5 2 []] = Some (ks, 0, m')"
    by (simp add: live_cursor_def due_def fmpred_iff scan_next_def expire_none newScanSessionManager_def scanPageEnd_def
        defaultScanSessionLimits_def scanSessionTTL_def nsPerSec_def time_Add_def Let_def)
  then obtain ks m' where pg: "scan_pages sorted_list_of_fset ?m1 7
      [MNext 7 [] False 1 1 [Inr 9], MNext 9 [] False 5 2 []] = Some (ks, 0, m')" by auto
  have "[''a''] @ ks = [''a'', ''b'', ''c'']"
    using scan_exactly_once [OF fair_sorted_list_of_fset fresh st] pg by (simp del: scan_pages.simps)
  with st pg show ?thesis by (metis ScanResult.select_convs(2))
qed

lemma nextToken_none:
  "nextTokenLocked m toks = None \<longleftrightarrow>
   (\<forall>a \<in> set toks. \<exists>t. a = Inr t \<and> (t = 0 \<or> fmlookup (sessions m) t \<noteq> None))"
  by (induction m toks rule: nextTokenLocked.induct) auto

lemma nextToken_bounded:
  assumes "nextTokenLocked m toks = None" "distinct toks"
  shows "length toks \<le> map_len (sessions m) + 1"
proof -
  let ?bad = "insert 0 (fset (fmdom (sessions m)))"
  have "set toks \<subseteq> Inr ` ?bad"
    using assms(1) fmdomI by (fastforce simp: nextToken_none)
  then have "card (set toks) \<le> card ?bad"
    by (meson card_image_le card_mono finite_fset finite_imageI finite_insert le_trans)
  also have "\<dots> \<le> map_len (sessions m) + 1"
    by (simp add: map_len_def fcard.rep_eq card_insert_if)
  finally show ?thesis by (simp add: distinct_card [OF assms(2)])
qed

text \<open>
  Choosing a token ends. At most \<^const>\<open>maxSessions\<close> tokens are taken and 0 is never used, so among
  any \<^const>\<open>maxSessions\<close> plus two different answers of the source there is one that is accepted.
\<close>

theorem token_found:
  assumes "manager_reachable rng lim m" "distinct toks" "maxSessions lim + 2 \<le> length toks"
  shows "nextTokenLocked m toks \<noteq> None"
proof
  assume "nextTokenLocked m toks = None"
  from nextToken_bounded [OF this assms(2)] manager_reachable_inv [OF assms(1)] assms(3) show False
    by (auto simp: sessions_inv_def)
qed

theorem token_found_witness:
  "nextTokenLocked (newScanSessionManager defaultScanSessionLimits) (map (\<lambda>n. Inr (of_nat n)) [0..<18]) \<noteq> None"
proof (rule token_found [OF fresh])
  show "distinct (map (\<lambda>n. Inr (of_nat n) :: string + 64 word) [0..<18])"
    by (simp add: upt_rec)
qed (simp add: defaultScanSessionLimits_def maxScanSessions_def)

text \<open>
  An idle session does not survive the next call. After a page was asked for at some time,
  by anyone, every session that is left was used within the time to live before it.
\<close>

theorem idle_sessions_expire:
  assumes "fair_ranger rng" "0 < ttl (mlimits m)"
    and "scan_start rng m keys cap pattern cnt now toks = Some (m', r, ts)
      \<or> scan_next rng m c pattern ps cnt now toks = Some (m', r, ts)"
  shows "fmpred (\<lambda>_ s. now < time_Add (lastUsed s) (ttl (mlimits m))) (sessions m')"
proof -
  have old: "now < time_Add (lastUsed s) (ttl (mlimits m))"
    if "fmlookup (sessions (expireLocked rng m now)) t = Some s" for t s
    using that by (auto simp: expire_lookup [OF assms(1)] due_def split: option.splits if_splits)
  have new: "now < time_Add now (ttl (mlimits m))" using assms(2) by (simp add: time_Add_def)
  from assms(3) show ?thesis
  proof
    assume "scan_start rng m keys cap pattern cnt now toks = Some (m', r, ts)"
    from this refl refl refl show ?thesis
      by (cases rule: scan_start_cases) (auto simp: fmpred_iff new dest: old split: if_splits)
  next
    assume "scan_next rng m c pattern ps cnt now toks = Some (m', r, ts)"
    from this refl show ?thesis
      by (cases rule: scan_next_cases) (auto simp: fmpred_iff new removeLocked_def dest: old split: if_splits)
  qed
qed

theorem idle_sessions_expire_witness:
  "fmpred (\<lambda>_ s. 40 < time_Add (lastUsed s) scanSessionTTL)
     (sessions (newScanSessionManager defaultScanSessionLimits))"
proof -
  let ?m = "newScanSessionManager defaultScanSessionLimits"
  have "scan_next sorted_list_of_fset ?m 5 [] False 1 40 [] = Some (?m, Inl ErrInvalidCursor, [])"
    by (simp add: scan_next_def expire_none newScanSessionManager_def)
  then show ?thesis
    using idle_sessions_expire [OF fair_sorted_list_of_fset, of ?m _ _ _ _ 40 _ ?m]
    by (force simp: newScanSessionManager_def defaultScanSessionLimits_def scanSessionTTL_def nsPerSec_def)
qed

end
