(* ===== verification/Resp_Writer.thy ===== *)
theory Resp_Writer
  imports KV_Prelude
begin

text \<open>
  The RESP2 encoder (\<^verbatim>\<open>internal/resp/writer.go\<close>). The writer is a \<^verbatim>\<open>bufio.Writer\<close> over a sink
  that may fail; every operation returns whether it succeeded and stops at the first failure,
  as the source does. The lemmas reduce each operation to the bytes it emits, and show that a
  sink only ever receives a prefix of what was encoded.
\<close>

section \<open>The buffered writer\<close>

text \<open>
  \<^verbatim>\<open>bufio.Writer\<close> with its default buffer of 4096 bytes. \<open>wout\<close> is what the sink has received.
  A sink either takes everything (\<open>accepts = None\<close>) or fails once it has taken a number of
  bytes; the error is sticky, so one failure point describes every failing sink.
\<close>

record writer =
  wbuf :: bytes
  wout :: bytes
  wfail :: bool
  accepts :: "nat option"

definition bufSize :: nat where
  "bufSize = 4096"

definition NewWriter :: "nat option \<Rightarrow> writer" where
  "NewWriter acc = \<lparr>wbuf = [], wout = [], wfail = False, accepts = acc\<rparr>"

text \<open>Hand bytes to the sink, keeping \<open>rest\<close> in the buffer.\<close>

definition deliver :: "writer \<Rightarrow> bytes \<Rightarrow> bytes \<Rightarrow> writer \<times> bool" where
  "deliver w bs rest =
     (case accepts w of
        None \<Rightarrow> (w\<lparr>wout := wout w @ bs, wbuf := rest\<rparr>, True)
      | Some k \<Rightarrow>
          (if length (wout w @ bs) \<le> k then (w\<lparr>wout := wout w @ bs, wbuf := rest\<rparr>, True)
           else (w\<lparr>wout := take (max k (length (wout w))) (wout w @ bs), wbuf := rest, wfail := True\<rparr>, False)))"

text \<open>
  \<^verbatim>\<open>Write\<close>, \<^verbatim>\<open>WriteString\<close> and \<^verbatim>\<open>WriteByte\<close>: full buffers are delivered as they fill, the last
  one (of 1 to 4096 bytes) stays.
\<close>

definition bw_put :: "bytes \<Rightarrow> writer \<Rightarrow> writer \<times> bool" where
  "bw_put p w =
     (if wfail w then (w, False)
      else let q = wbuf w @ p
           in if length q \<le> bufSize then (w\<lparr>wbuf := q\<rparr>, True)
              else let n = (length q - 1) div bufSize * bufSize
                   in deliver w (take n q) (drop n q))"

definition writer_Flush :: "writer \<Rightarrow> writer \<times> bool" where
  "writer_Flush w = (if wfail w then (w, False) else if wbuf w = [] then (w, True) else deliver w (wbuf w) [])"

definition writer_Buffered :: "writer \<Rightarrow> nat" where
  "writer_Buffered w = length (wbuf w)"

text \<open>\<^verbatim>\<open>if err := f(); err != nil { return err }; return g()\<close>\<close>

definition and_then :: "(writer \<Rightarrow> writer \<times> bool) \<Rightarrow> (writer \<Rightarrow> writer \<times> bool) \<Rightarrow> writer \<Rightarrow> writer \<times> bool" where
  "and_then f g w = (case f w of (w', ok) \<Rightarrow> if ok then g w' else (w', False))"

section \<open>The encoder\<close>

abbreviation CR :: char where "CR \<equiv> CHR 0x0D"
abbreviation LF :: char where "LF \<equiv> CHR 0x0A"
abbreviation CRLF :: string where "CRLF \<equiv> [CR, LF]"

definition writer_crlf :: "writer \<Rightarrow> writer \<times> bool" where
  "writer_crlf = bw_put CRLF"

definition numberLine :: "int \<Rightarrow> writer \<Rightarrow> writer \<times> bool" where
  "numberLine n = and_then (bw_put (FormatInt n)) writer_crlf"

text \<open>\<^verbatim>\<open>strings.IndexAny(s, "\r\n")\<close>, with \<open>None\<close> for -1.\<close>

fun index_crlf :: "string \<Rightarrow> nat option" where
  "index_crlf [] = None"
| "index_crlf (c # s) = (if c = CR \<or> c = LF then Some 0 else map_option Suc (index_crlf s))"

lemma index_crlf_less: "index_crlf s = Some i \<Longrightarrow> i < length s"
  by (induction s arbitrary: i) (auto split: if_splits)

function writeLineSafe :: "string \<Rightarrow> writer \<Rightarrow> writer \<times> bool" where
  "writeLineSafe s w =
     (case index_crlf s of
        None \<Rightarrow> bw_put s w
      | Some i \<Rightarrow>
          (case bw_put (take i s) w of
             (w1, ok1) \<Rightarrow>
               if \<not> ok1 then (w1, False)
               else case bw_put '' '' w1 of
                      (w2, ok2) \<Rightarrow> if \<not> ok2 then (w2, False) else writeLineSafe (drop (i + 1) s) w2))"
  by pat_completeness auto
termination
  by (relation "measure (\<lambda>(s, w). length s)") (auto dest: index_crlf_less)

declare writeLineSafe.simps [simp del]

definition prefixed :: "char \<Rightarrow> string \<Rightarrow> writer \<Rightarrow> writer \<times> bool" where
  "prefixed tag s = and_then (bw_put [tag]) (and_then (writeLineSafe s) writer_crlf)"

definition WriteSimpleString :: "string \<Rightarrow> writer \<Rightarrow> writer \<times> bool" where
  "WriteSimpleString s = prefixed CHR ''+'' s"

definition WriteError :: "string \<Rightarrow> writer \<Rightarrow> writer \<times> bool" where
  "WriteError s = prefixed CHR ''-'' s"

definition WriteInt :: "int \<Rightarrow> writer \<Rightarrow> writer \<times> bool" where
  "WriteInt n = and_then (bw_put '':'') (numberLine n)"

definition WriteBulk :: "string \<Rightarrow> writer \<Rightarrow> writer \<times> bool" where
  "WriteBulk s =
     and_then (bw_put ''$'') (and_then (numberLine (int (length s))) (and_then (bw_put s) writer_crlf))"

definition WriteNullBulk :: "writer \<Rightarrow> writer \<times> bool" where
  "WriteNullBulk = bw_put (''$-1'' @ CRLF)"

definition WriteArrayHeader :: "int \<Rightarrow> writer \<Rightarrow> writer \<times> bool" where
  "WriteArrayHeader n = and_then (bw_put ''*'') (numberLine n)"

section \<open>What an operation emits\<close>

definition written :: "writer \<Rightarrow> bytes" where
  "written w = wout w @ wbuf w"

text \<open>
  An operation emits \<open>bs\<close>: when it succeeds, \<open>bs\<close> was appended to the stream; when it fails the
  writer has latched its error; and in both cases the sink holds a prefix of the stream.
\<close>

definition emits :: "(writer \<Rightarrow> writer \<times> bool) \<Rightarrow> bytes \<Rightarrow> bool" where
  "emits f bs \<longleftrightarrow>
     (\<forall>w w' ok. f w = (w', ok) \<longrightarrow>
        accepts w' = accepts w
        \<and> (ok \<longrightarrow> \<not> wfail w' \<and> written w' = written w @ bs)
        \<and> (\<not> ok \<longrightarrow> wfail w')
        \<and> (wfail w \<longrightarrow> w' = w \<and> \<not> ok)
        \<and> prefix (wout w) (wout w') \<and> prefix (wout w') (written w @ bs)
        \<and> (accepts w = None \<and> \<not> wfail w \<longrightarrow> ok))"

lemma emitsD:
  assumes "emits f bs" and "f w = (w', ok)"
  shows "accepts w' = accepts w" and "ok \<Longrightarrow> written w' = written w @ bs" and "ok \<Longrightarrow> \<not> wfail w'"
    and "\<not> ok \<Longrightarrow> wfail w'" and "prefix (wout w) (wout w')" and "prefix (wout w') (written w @ bs)"
    and "accepts w = None \<Longrightarrow> \<not> wfail w \<Longrightarrow> ok" and "wfail w \<Longrightarrow> w' = w"
  using assms unfolding emits_def by blast+

lemma emitsI:
  assumes "\<And>w w' ok. f w = (w', ok) \<Longrightarrow> wfail w \<Longrightarrow> w' = w \<and> \<not> ok"
    and "\<And>w w' ok. f w = (w', ok) \<Longrightarrow> \<not> wfail w \<Longrightarrow> accepts w' = accepts w
      \<and> (ok \<longrightarrow> \<not> wfail w' \<and> written w' = written w @ bs) \<and> (\<not> ok \<longrightarrow> wfail w' \<and> accepts w \<noteq> None)
      \<and> prefix (wout w) (wout w') \<and> prefix (wout w') (written w @ bs)"
  shows "emits f bs"
  unfolding emits_def
proof (intro allI impI)
  fix w w' ok
  assume eq: "f w = (w', ok)"
  have "prefix (wout w) (written w @ bs)" by (simp add: written_def)
  then show "accepts w' = accepts w \<and> (ok \<longrightarrow> \<not> wfail w' \<and> written w' = written w @ bs)
      \<and> (\<not> ok \<longrightarrow> wfail w') \<and> (wfail w \<longrightarrow> w' = w \<and> \<not> ok)
      \<and> prefix (wout w) (wout w') \<and> prefix (wout w') (written w @ bs)
      \<and> (accepts w = None \<and> \<not> wfail w \<longrightarrow> ok)"
    using assms(1) [OF eq] assms(2) [OF eq] by (cases "wfail w") auto
qed

lemma deliver_facts:
  assumes "deliver w bs rest = (w', ok)" and "\<not> wfail w"
  shows "accepts w' = accepts w
    \<and> (ok \<longrightarrow> \<not> wfail w' \<and> written w' = wout w @ bs @ rest) \<and> (\<not> ok \<longrightarrow> wfail w' \<and> accepts w \<noteq> None)
    \<and> prefix (wout w) (wout w') \<and> prefix (wout w') (wout w @ bs)"
  using assms
  by (auto simp: deliver_def written_def take_is_prefix split: option.splits if_splits)

lemma emits_put: "emits (bw_put p) p"
proof (rule emitsI, goal_cases)
  case (1 w w' ok)
  then show ?case by (simp add: bw_put_def)
next
  case (2 w w' ok)
  define q where "q = wbuf w @ p"
  define n where "n = (length q - 1) div bufSize * bufSize"
  have q: "written w @ p = wout w @ take n q @ drop n q"
    unfolding append_take_drop_id by (simp add: written_def q_def)
  show ?case
  proof (cases "length q \<le> bufSize")
    case True
    then show ?thesis using 2 by (auto simp: bw_put_def written_def q_def)
  next
    case False
    then have "deliver w (take n q) (drop n q) = (w', ok)"
      using 2 by (simp add: bw_put_def q_def n_def Let_def)
    from deliver_facts [OF this 2(2)] show ?thesis
      unfolding q by (metis append.assoc prefix_prefix)
  qed
qed

lemma emits_seq:
  assumes f: "emits f a" and g: "emits g b"
  shows "emits (and_then f g) (a @ b)"
proof (rule emitsI, goal_cases)
  case (1 w w' ok)
  obtain w1 ok1 where f1: "f w = (w1, ok1)" by fastforce
  moreover have "w1 = w" "\<not> ok1" using f f1 1(2) unfolding emits_def by blast+
  ultimately show ?case using 1 by (simp add: and_then_def)
next
  case (2 w w' ok)
  obtain w1 ok1 where f1: "f w = (w1, ok1)" by fastforce
  note F = emitsD [OF f f1]
  show ?case
  proof (cases ok1)
    case False
    then have "w' = w1" "\<not> ok" using 2 f1 by (simp_all add: and_then_def)
    then show ?thesis using F False 2(2) by (metis append.assoc prefix_prefix)
  next
    case True
    then have g1: "g w1 = (w', ok)" using 2 f1 by (simp add: and_then_def)
    note G = emitsD [OF g g1]
    show ?thesis
      using F(1,2,3,5) G(1-7) True by (metis append.assoc prefix_order.trans)
  qed
qed


text \<open>What the line-safe writer sends: carriage returns and line feeds become spaces.\<close>

definition line_safe :: "string \<Rightarrow> string" where
  "line_safe s = map (\<lambda>c. if c = CR \<or> c = LF then CHR '' '' else c) s"

lemma line_safe_no_crlf: "CR \<notin> set (line_safe s)" "LF \<notin> set (line_safe s)"
  by (auto simp: line_safe_def)

lemma index_crlf_None: "index_crlf s = None \<Longrightarrow> line_safe s = s"
  by (induction s) (auto simp: line_safe_def split: if_splits)

lemma index_crlf_Some:
  "index_crlf s = Some i \<Longrightarrow> line_safe s = take i s @ '' '' @ line_safe (drop (i + 1) s)"
  by (induction s arbitrary: i) (auto simp: line_safe_def split: if_splits)

lemma emits_line: "emits (writeLineSafe s) (line_safe s)"
proof (induction "length s" arbitrary: s rule: less_induct)
  case less
  show ?case
  proof (cases "index_crlf s")
    case None
    then have "writeLineSafe s = bw_put s" by (simp add: fun_eq_iff writeLineSafe.simps)
    then show ?thesis using None by (simp add: emits_put index_crlf_None)
  next
    case (Some i)
    have "writeLineSafe s =
        and_then (bw_put (take i s)) (and_then (bw_put '' '') (writeLineSafe (drop (i + 1) s)))"
      using Some
      by (simp add: fun_eq_iff writeLineSafe.simps [of s] and_then_def split: prod.splits)
    moreover have "emits (writeLineSafe (drop (i + 1) s)) (line_safe (drop (i + 1) s))"
      using index_crlf_less [OF Some] by (intro less) simp
    ultimately show ?thesis
      unfolding index_crlf_Some [OF Some] by (auto intro!: emits_seq emits_put simp del: append.simps)
  qed
qed

definition enc_number :: "int \<Rightarrow> bytes" where
  "enc_number n = FormatInt n @ CRLF"

definition enc_bulk :: "string \<Rightarrow> bytes" where
  "enc_bulk s = ''$'' @ enc_number (int (length s)) @ s @ CRLF"

definition enc_array :: "int \<Rightarrow> bytes" where
  "enc_array n = ''*'' @ enc_number n"

definition enc_line :: "char \<Rightarrow> string \<Rightarrow> bytes" where
  "enc_line tag s = [tag] @ line_safe s @ CRLF"

lemma emits_number: "emits (numberLine n) (enc_number n)"
  unfolding numberLine_def enc_number_def writer_crlf_def by (intro emits_seq emits_put)

lemma emits_bulk: "emits (WriteBulk s) (enc_bulk s)"
  unfolding WriteBulk_def enc_bulk_def writer_crlf_def by (intro emits_seq emits_put emits_number)

lemma emits_array: "emits (WriteArrayHeader n) (enc_array n)"
  unfolding WriteArrayHeader_def enc_array_def by (intro emits_seq emits_put emits_number)

lemma emits_int: "emits (WriteInt n) ('':'' @ enc_number n)"
  unfolding WriteInt_def by (intro emits_seq emits_put emits_number)

lemma emits_null: "emits WriteNullBulk (''$-1'' @ CRLF)"
  unfolding WriteNullBulk_def by (rule emits_put)

lemma emits_prefixed: "emits (prefixed tag s) (enc_line tag s)"
  unfolding prefixed_def enc_line_def writer_crlf_def by (intro emits_seq emits_put emits_line)

lemmas emits_ops = emits_bulk emits_array emits_int emits_null emits_prefixed

text \<open>A sequence of writes, stopping at the first that fails.\<close>

fun write_all :: "(writer \<Rightarrow> writer \<times> bool) list \<Rightarrow> writer \<Rightarrow> writer \<times> bool" where
  "write_all [] w = (w, \<not> wfail w)"
| "write_all (f # fs) w = and_then f (write_all fs) w"

lemma emits_nothing: "emits (\<lambda>w. (w, \<not> wfail w)) []"
  by (rule emitsI) (auto simp: written_def)

lemma emits_all: "list_all2 emits fs bss \<Longrightarrow> emits (write_all fs) (concat bss)"
proof (induction rule: list_all2_induct)
  case Nil
  have "write_all [] = (\<lambda>w. (w, \<not> wfail w))" by (simp add: fun_eq_iff)
  then show ?case using emits_nothing by simp
next
  case (Cons f fs b bss)
  have "write_all (f # fs) = and_then f (write_all fs)" by (simp add: fun_eq_iff)
  then show ?case using Cons by (simp add: emits_seq)
qed

lemma flush_all: "writer_Flush w = (w', ok) \<Longrightarrow> ok \<Longrightarrow> wout w' = written w \<and> wbuf w' = [] \<and> \<not> wfail w'"
  by (auto simp: writer_Flush_def deliver_def written_def split: if_splits option.splits)

lemma flush_prefix: "writer_Flush w = (w', ok) \<Longrightarrow> prefix (wout w) (wout w') \<and> prefix (wout w') (written w)"
  by (auto simp: writer_Flush_def deliver_def written_def take_is_prefix split: if_splits option.splits)

end
