(* ===== verification/Resp_Reader.thy ===== *)
theory Resp_Reader
  imports Resp_Writer
begin

text \<open>
  The RESP2 decoder (\<^verbatim>\<open>internal/resp/reader.go\<close>), over a byte stream that ends in an end of file
  or in a transport error. The decoder keeps one growing buffer and the offsets of the arguments
  in it; it reads a bulk string in bounded chunks. The reference is a grammar without buffer,
  capacity or chunks, which the decoder is shown to implement; on the grammar rest the round
  trip with the encoder, the classification of torn frames and the bounds.
\<close>

section \<open>Streams and errors\<close>

datatype stream_end = AtEOF | Broken string

record stream =
  input :: bytes
  ending :: stream_end

datatype read_err =
    IoEOF
  | UnexpectedEOF
  | Transport string
  | ProtocolError string bool

definition end_err :: "stream_end \<Rightarrow> read_err" where
  "end_err e = (case e of AtEOF \<Rightarrow> IoEOF | Broken m \<Rightarrow> Transport m)"

lemma end_err_simps [simp]: "end_err AtEOF = IoEOF" "end_err (Broken m) = Transport m"
  by (simp_all add: end_err_def)

definition protoErr :: "string \<Rightarrow> read_err" where
  "protoErr msg = ProtocolError msg False"

definition incompleteErr :: "string \<Rightarrow> read_err" where
  "incompleteErr msg = ProtocolError msg True"

text \<open>\<^verbatim>\<open>errors.Is(err, ErrIncompleteFrame)\<close>\<close>

definition is_incomplete :: "read_err \<Rightarrow> bool" where
  "is_incomplete e = (case e of ProtocolError _ incomplete \<Rightarrow> incomplete | _ \<Rightarrow> False)"

definition bulkReadErr :: "read_err \<Rightarrow> read_err" where
  "bulkReadErr e =
     (if e = IoEOF \<or> e = UnexpectedEOF then incompleteErr ''unexpected end of stream inside frame'' else e)"

text \<open>\<^verbatim>\<open>io.ReadFull\<close> of \<open>n\<close> bytes.\<close>

definition ReadFull :: "nat \<Rightarrow> stream \<Rightarrow> read_err + bytes \<times> stream" where
  "ReadFull n s =
     (if n \<le> length (input s) then Inr (take n (input s), s\<lparr>input := drop n (input s)\<rparr>)
      else if ending s = AtEOF \<and> input s \<noteq> [] then Inl UnexpectedEOF
      else Inl (end_err (ending s)))"

section \<open>The decoder\<close>

record limits =
  MaxArrayElements :: int
  MaxBulkLength :: int
  MaxCommandBytes :: int

definition DefaultLimits :: limits where
  "DefaultLimits =
     \<lparr>MaxArrayElements = 1024, MaxBulkLength = 64 * 2 ^ 20, MaxCommandBytes = 128 * 2 ^ 20\<rparr>"

definition maxPreallocation :: nat where
  "maxPreallocation = 64 * 2 ^ 10"

definition maxRetainedBuffer :: int where
  "maxRetainedBuffer = 2 ^ 20"

text \<open>The buffer \<^verbatim>\<open>r.buf\<close> as its contents and its capacity.\<close>

record reader =
  src :: stream
  rlimits :: limits
  rbuf :: bytes
  rcap :: int
  offsets :: "(nat \<times> nat) list"

definition NewReader :: "stream \<Rightarrow> limits \<Rightarrow> reader" where
  "NewReader s lim = \<lparr>src = s, rlimits = lim, rbuf = [], rcap = 0, offsets = []\<rparr>"

text \<open>
  A header line through \<^verbatim>\<open>ReadSlice('\n')\<close> on a \<^verbatim>\<open>bufio.Reader\<close> of 4096 bytes: the line has to
  end within the buffer.
\<close>

definition readLine :: "stream \<Rightarrow> read_err + bytes \<times> stream" where
  "readLine s =
     (let window = take 4096 (input s) in
      if LF \<in> set window then
        (let line = takeWhile (\<lambda>c. c \<noteq> LF) window @ [LF];
             s' = s\<lparr>input := drop (length line) (input s)\<rparr>
         in if length line < 2 \<or> line ! (length line - 2) \<noteq> CR
            then Inl (protoErr ''header line not terminated by CRLF'')
            else Inr (take (length line - 2) line, s'))
      else if length (input s) \<ge> 4096 then Inl (protoErr ''header line too long'')
      else if input s \<noteq> [] \<and> ending s = AtEOF
        then Inl (incompleteErr ''unexpected end of stream inside frame'')
      else Inl (end_err (ending s)))"

fun parse_digits :: "string \<Rightarrow> int \<Rightarrow> int option" where
  "parse_digits [] n = Some n"
| "parse_digits (c # cs) n =
     (if \<not> is_digit c then None
      else let n' = n * 10 + int (digit_val c) in if n' > 2 ^ 30 then None else parse_digits cs n')"

definition parseInt :: "bytes \<Rightarrow> int option" where
  "parseInt b =
     (case b of
        [] \<Rightarrow> None
      | c # cs \<Rightarrow>
          if c = CHR ''-'' then (if cs = [] then None else map_option uminus (parse_digits cs 0))
          else parse_digits b 0)"

definition growBuf :: "int \<Rightarrow> reader \<Rightarrow> reader" where
  "growBuf need r =
     (if rcap r \<ge> need then r
      else let size = 2 * rcap r;
               size = (if size < need then need else size);
               limit = MaxCommandBytes (rlimits r);
               size = (if limit > 0 \<and> size > limit then (if need > limit then need else limit) else size)
           in r\<lparr>rcap := size\<rparr>)"

function read_chunks :: "nat \<Rightarrow> reader \<Rightarrow> read_err + reader" where
  "read_chunks remaining r =
     (if remaining > 0 then
        (let chunk = (if remaining > maxPreallocation then maxPreallocation else remaining);
             at = length (rbuf r);
             r1 = growBuf (int (at + chunk)) r
         in case ReadFull chunk (src r1) of
              Inl e \<Rightarrow> Inl (bulkReadErr e)
            | Inr (bs, s') \<Rightarrow> read_chunks (remaining - chunk) (r1\<lparr>rbuf := rbuf r1 @ bs, src := s'\<rparr>))
      else Inr r)"
  by pat_completeness auto
termination
  by (relation "measure (\<lambda>(remaining, r). remaining)") (auto simp: maxPreallocation_def split: if_splits)

declare read_chunks.simps [simp del]

definition readBulk :: "reader \<Rightarrow> read_err + reader" where
  "readBulk r =
     (case readLine (src r) of
        Inl e \<Rightarrow> Inl (bulkReadErr e)
      | Inr (line, s1) \<Rightarrow>
          if line = [] \<or> hd line \<noteq> CHR ''$'' then Inl (protoErr ''expected '$' at start of bulk string'')
          else case parseInt (tl line) of
                 None \<Rightarrow> Inl (protoErr ''invalid bulk length'')
               | Some ln \<Rightarrow>
                   if ln < 0 then Inl (protoErr ''invalid bulk length'')
                   else if ln > MaxBulkLength (rlimits r) then Inl (protoErr ''bulk length exceeds limit'')
                   else if MaxCommandBytes (rlimits r) > 0
                           \<and> ln > MaxCommandBytes (rlimits r) - int (length (rbuf r))
                     then Inl (protoErr ''command exceeds limit'')
                   else
                     (let start = length (rbuf r); n = nat ln in
                      case read_chunks (n + 2) (r\<lparr>src := s1\<rparr>) of
                        Inl e \<Rightarrow> Inl e
                      | Inr r1 \<Rightarrow>
                          if rbuf r1 ! (start + n) \<noteq> CR \<or> rbuf r1 ! (start + n + 1) \<noteq> LF
                          then Inl (protoErr ''bulk string not terminated by CRLF'')
                          else Inr (r1\<lparr>rbuf := take (start + n) (rbuf r1),
                                       offsets := offsets r1 @ [(start, start + n)]\<rparr>)))"

fun read_bulks :: "nat \<Rightarrow> reader \<Rightarrow> read_err + reader" where
  "read_bulks 0 r = Inr r"
| "read_bulks (Suc i) r = (case readBulk r of Inl e \<Rightarrow> Inl e | Inr r' \<Rightarrow> read_bulks i r')"

definition slice :: "bytes \<Rightarrow> nat \<times> nat \<Rightarrow> bytes" where
  "slice b off = take (snd off - fst off) (drop (fst off) b)"

definition ReadCommand :: "reader \<Rightarrow> read_err + bytes list \<times> reader" where
  "ReadCommand r =
     (case readLine (src r) of
        Inl e \<Rightarrow> Inl e
      | Inr (line, s1) \<Rightarrow>
          if line = [] \<or> hd line \<noteq> CHR ''*'' then Inl (protoErr ''expected '*' at start of request'')
          else case parseInt (tl line) of
                 None \<Rightarrow> Inl (protoErr ''invalid multibulk length'')
               | Some n \<Rightarrow>
                   if n \<le> 0 then Inl (protoErr ''invalid multibulk length'')
                   else if n > MaxArrayElements (rlimits r) then Inl (protoErr ''multibulk length exceeds limit'')
                   else
                     (let r1 = r\<lparr>src := s1, rcap := (if rcap r > maxRetainedBuffer then 0 else rcap r),
                                 rbuf := [], offsets := []\<rparr>
                      in case read_bulks (nat n) r1 of
                           Inl e \<Rightarrow> Inl e
                         | Inr r2 \<Rightarrow> Inr (map (slice (rbuf r2)) (offsets r2), r2)))"

section \<open>The reference grammar\<close>

definition parse_bulk :: "limits \<Rightarrow> nat \<Rightarrow> stream \<Rightarrow> read_err + bytes \<times> stream" where
  "parse_bulk lim used s =
     (case readLine s of
        Inl e \<Rightarrow> Inl (bulkReadErr e)
      | Inr (line, s1) \<Rightarrow>
          if line = [] \<or> hd line \<noteq> CHR ''$'' then Inl (protoErr ''expected '$' at start of bulk string'')
          else case parseInt (tl line) of
                 None \<Rightarrow> Inl (protoErr ''invalid bulk length'')
               | Some ln \<Rightarrow>
                   if ln < 0 then Inl (protoErr ''invalid bulk length'')
                   else if ln > MaxBulkLength lim then Inl (protoErr ''bulk length exceeds limit'')
                   else if MaxCommandBytes lim > 0 \<and> ln > MaxCommandBytes lim - int used
                     then Inl (protoErr ''command exceeds limit'')
                   else case ReadFull (nat ln + 2) s1 of
                          Inl e \<Rightarrow> Inl (bulkReadErr e)
                        | Inr (bs, s2) \<Rightarrow>
                            if drop (nat ln) bs \<noteq> CRLF
                            then Inl (protoErr ''bulk string not terminated by CRLF'')
                            else Inr (take (nat ln) bs, s2))"

fun parse_bulks :: "limits \<Rightarrow> nat \<Rightarrow> nat \<Rightarrow> stream \<Rightarrow> read_err + bytes list \<times> stream" where
  "parse_bulks lim 0 used s = Inr ([], s)"
| "parse_bulks lim (Suc i) used s =
     (case parse_bulk lim used s of
        Inl e \<Rightarrow> Inl e
      | Inr (a, s1) \<Rightarrow>
          (case parse_bulks lim i (used + length a) s1 of
             Inl e \<Rightarrow> Inl e
           | Inr (args, s2) \<Rightarrow> Inr (a # args, s2)))"

definition parse_command :: "limits \<Rightarrow> stream \<Rightarrow> read_err + bytes list \<times> stream" where
  "parse_command lim s =
     (case readLine s of
        Inl e \<Rightarrow> Inl e
      | Inr (line, s1) \<Rightarrow>
          if line = [] \<or> hd line \<noteq> CHR ''*'' then Inl (protoErr ''expected '*' at start of request'')
          else case parseInt (tl line) of
                 None \<Rightarrow> Inl (protoErr ''invalid multibulk length'')
               | Some n \<Rightarrow>
                   if n \<le> 0 then Inl (protoErr ''invalid multibulk length'')
                   else if n > MaxArrayElements lim then Inl (protoErr ''multibulk length exceeds limit'')
                   else parse_bulks lim (nat n) 0 s1)"

section \<open>The decoder implements the grammar\<close>

lemma growBuf_frame [simp]:
  "src (growBuf n r) = src r" "rlimits (growBuf n r) = rlimits r" "rbuf (growBuf n r) = rbuf r"
  "offsets (growBuf n r) = offsets r"
  by (simp_all add: growBuf_def Let_def)

lemma growBuf_enough: "n \<le> rcap (growBuf n r)"
  by (simp add: growBuf_def Let_def)

lemma growBuf_bound:
  "MaxCommandBytes (rlimits r) > 0 \<Longrightarrow>
   rcap (growBuf n r) \<le> max (rcap r) (max n (MaxCommandBytes (rlimits r)))"
  by (auto simp: growBuf_def Let_def)

lemma growBuf_mono: "rcap r \<ge> 0 \<Longrightarrow> rcap r \<le> rcap (growBuf n r) \<or> rcap r > MaxCommandBytes (rlimits r)"
  by (auto simp: growBuf_def Let_def)

lemma ReadFull_split:
  assumes "a \<le> n"
  shows "ReadFull n s =
    (case ReadFull a s of
       Inl e \<Rightarrow> ReadFull n s
     | Inr (bs, s') \<Rightarrow>
         (case ReadFull (n - a) s' of
            Inl e \<Rightarrow> ReadFull n s
          | Inr (bs', s'') \<Rightarrow> Inr (bs @ bs', s'')))"
  using assms by (auto simp: ReadFull_def take_add [symmetric])

text \<open>The chunked read is one read: same bytes, same error, and room for every byte in the buffer.\<close>

lemma read_chunks_eq:
  "case ReadFull n (src r) of
     Inl e \<Rightarrow> read_chunks n r = Inl (bulkReadErr e)
   | Inr (bs, s') \<Rightarrow> \<exists>c. read_chunks n r = Inr (r\<lparr>rbuf := rbuf r @ bs, src := s', rcap := c\<rparr>)
       \<and> (int (length (rbuf r)) \<le> rcap r \<longrightarrow> int (length (rbuf r) + n) \<le> c)
       \<and> (MaxCommandBytes (rlimits r) > 0 \<longrightarrow>
            c \<le> max (rcap r) (max (int (length (rbuf r) + n)) (MaxCommandBytes (rlimits r))))"
proof (induction n arbitrary: r rule: less_induct)
  case (less n)
  show ?case
  proof (cases "n > 0")
    case False
    then have "read_chunks n r = Inr r" by (subst read_chunks.simps) simp
    then show ?thesis using False by (auto simp: ReadFull_def intro!: exI [of _ "rcap r"])
  next
    case True
    define a where "a = (if n > maxPreallocation then maxPreallocation else n)"
    define r1 where "r1 = growBuf (int (length (rbuf r) + a)) r"
    have a: "a \<le> n" "0 < a" using True by (auto simp: a_def maxPreallocation_def)
    show ?thesis
    proof (cases "ReadFull a (src r)")
      case (Inl e)
      then have "read_chunks n r = Inl (bulkReadErr e)"
        using True by (simp add: read_chunks.simps [of n r] a_def [symmetric] Let_def)
      moreover from Inl a have "\<exists>e'. ReadFull n (src r) = Inl e' \<and> bulkReadErr e' = bulkReadErr e"
        by (auto simp: ReadFull_def bulkReadErr_def split: if_splits)
      ultimately show ?thesis by auto
    next
      case (Inr p)
      obtain bs s' where p: "p = (bs, s')" by fastforce
      define r2 where "r2 = r1\<lparr>rbuf := rbuf r1 @ bs, src := s'\<rparr>"
      have step: "read_chunks n r = read_chunks (n - a) r2"
        using True Inr p
        by (simp add: read_chunks.simps [of n r] a_def [symmetric] r1_def [symmetric] r2_def Let_def)
          (simp add: r1_def)
      have bs: "length bs = a" using Inr p by (auto simp: ReadFull_def split: if_splits)
      have c1: "int (length (rbuf r) + a) \<le> rcap r1" unfolding r1_def by (rule growBuf_enough)
      have c2: "rcap r1 \<le> max (rcap r) (max (int (length (rbuf r) + a)) (MaxCommandBytes (rlimits r)))"
        if "MaxCommandBytes (rlimits r) > 0"
        unfolding r1_def using that by (rule growBuf_bound)
      have r2: "src r2 = s'" "rbuf r2 = rbuf r @ bs" "rlimits r2 = rlimits r" "rcap r2 = rcap r1"
        by (simp_all add: r2_def r1_def)
      have IH: "case ReadFull (n - a) s' of
           Inl e \<Rightarrow> read_chunks (n - a) r2 = Inl (bulkReadErr e)
         | Inr (bs', s'') \<Rightarrow> \<exists>c. read_chunks (n - a) r2 = Inr (r2\<lparr>rbuf := rbuf r2 @ bs', src := s'', rcap := c\<rparr>)
             \<and> (int (length (rbuf r2)) \<le> rcap r2 \<longrightarrow> int (length (rbuf r2) + (n - a)) \<le> c)
             \<and> (MaxCommandBytes (rlimits r2) > 0 \<longrightarrow>
                  c \<le> max (rcap r2) (max (int (length (rbuf r2) + (n - a))) (MaxCommandBytes (rlimits r2))))"
        using less.IH [of "n - a" r2] a by (simp add: r2(1))
      show ?thesis
      proof (cases "ReadFull (n - a) s'")
        case e': (Inl e')
        then have "\<exists>e''. ReadFull n (src r) = Inl e'' \<and> bulkReadErr e'' = bulkReadErr e'"
          using Inr p a by (auto simp: ReadFull_def bulkReadErr_def split: if_splits)
        then show ?thesis using IH e' step by auto
      next
        case p': (Inr p')
        obtain bs' s'' where q: "p' = (bs', s'')" by fastforce
        have "ReadFull n (src r) = Inr (bs @ bs', s'')"
          using ReadFull_split [OF a(1), of "src r"] Inr p p' q by simp
        moreover from IH p' q obtain c where
          c: "read_chunks (n - a) r2 = Inr (r2\<lparr>rbuf := rbuf r2 @ bs', src := s'', rcap := c\<rparr>)"
          "int (length (rbuf r2)) \<le> rcap r2 \<longrightarrow> int (length (rbuf r2) + (n - a)) \<le> c"
          "MaxCommandBytes (rlimits r2) > 0 \<longrightarrow>
             c \<le> max (rcap r2) (max (int (length (rbuf r2) + (n - a))) (MaxCommandBytes (rlimits r2)))"
          by auto
        moreover have "r2\<lparr>rbuf := rbuf r2 @ bs', src := s'', rcap := c\<rparr>
            = r\<lparr>rbuf := rbuf r @ (bs @ bs'), src := s'', rcap := c\<rparr>"
          by (simp add: r2_def r1_def growBuf_def Let_def)
        ultimately show ?thesis
          using c1 c2 a by (auto simp: step r2 bs intro!: exI [of _ c])
      qed
    qed
  qed
qed

text \<open>What the decoder may hold: everything it indexes is within the capacity.\<close>

definition reader_ok :: "reader \<Rightarrow> bool" where
  "reader_ok r \<longleftrightarrow> int (length (rbuf r)) \<le> rcap r"

definition cap_bound :: "reader \<Rightarrow> bool" where
  "cap_bound r \<longleftrightarrow> (MaxCommandBytes (rlimits r) > 0 \<longrightarrow> rcap r \<le> MaxCommandBytes (rlimits r) + 2)"

definition used_bound :: "reader \<Rightarrow> bool" where
  "used_bound r \<longleftrightarrow> (MaxCommandBytes (rlimits r) > 0 \<longrightarrow> int (length (rbuf r)) \<le> MaxCommandBytes (rlimits r))"

lemma drop_two: "length bs = n + 2 \<Longrightarrow> drop n bs = [bs ! n, bs ! (n + 1)]"
  by (simp add: Cons_nth_drop_Suc [symmetric])

lemma parse_bulk_Inr:
  assumes "parse_bulk lim used s = Inr (a, s')"
  shows "MaxCommandBytes lim > 0 \<Longrightarrow> int (used + length a) \<le> MaxCommandBytes lim"
    and "int (length a) \<le> MaxBulkLength lim"
  using assms
  by (auto simp: parse_bulk_def ReadFull_def split: sum.splits if_splits option.splits)

lemma readBulk_eq:
  "case parse_bulk (rlimits r) (length (rbuf r)) (src r) of
     Inl e \<Rightarrow> readBulk r = Inl e
   | Inr (a, s') \<Rightarrow> \<exists>c. readBulk r = Inr (r\<lparr>src := s', rbuf := rbuf r @ a, rcap := c,
         offsets := offsets r @ [(length (rbuf r), length (rbuf r) + length a)]\<rparr>)
       \<and> (reader_ok r \<longrightarrow> int (length (rbuf r @ a)) \<le> c)
       \<and> (cap_bound r \<and> MaxCommandBytes (rlimits r) > 0 \<longrightarrow> c \<le> MaxCommandBytes (rlimits r) + 2)"
proof (cases "readLine (src r)")
  case (Inl e)
  then show ?thesis by (simp add: parse_bulk_def readBulk_def)
next
  case (Inr p)
  obtain line s1 where p: "p = (line, s1)" by fastforce
  let ?lim = "rlimits r" and ?start = "length (rbuf r)"
  show ?thesis
  proof (cases "line \<noteq> [] \<and> hd line = CHR ''$'' \<and> (case parseInt (tl line) of None \<Rightarrow> False | Some ln \<Rightarrow> 0 \<le> ln
      \<and> ln \<le> MaxBulkLength ?lim \<and> \<not> (MaxCommandBytes ?lim > 0 \<and> ln > MaxCommandBytes ?lim - int ?start))")
    case False
    then show ?thesis
      using Inr p by (auto simp: parse_bulk_def readBulk_def split: option.splits)
  next
    case True
    then obtain ln where ln: "parseInt (tl line) = Some ln" "0 \<le> ln" "ln \<le> MaxBulkLength ?lim"
      "MaxCommandBytes ?lim > 0 \<longrightarrow> ln \<le> MaxCommandBytes ?lim - int ?start" "line \<noteq> []" "hd line = CHR ''$''"
      by (auto split: option.splits)
    define n where "n = nat ln"
    have spec: "parse_bulk ?lim ?start (src r) =
        (case ReadFull (n + 2) s1 of
           Inl e \<Rightarrow> Inl (bulkReadErr e)
         | Inr (bs, s2) \<Rightarrow> if drop n bs \<noteq> CRLF then Inl (protoErr ''bulk string not terminated by CRLF'')
             else Inr (take n bs, s2))"
      unfolding n_def parse_bulk_def using Inr p ln by auto
    have impl: "readBulk r =
        (case read_chunks (n + 2) (r\<lparr>src := s1\<rparr>) of
           Inl e \<Rightarrow> Inl e
         | Inr r1 \<Rightarrow> if rbuf r1 ! (?start + n) \<noteq> CR \<or> rbuf r1 ! (?start + n + 1) \<noteq> LF
             then Inl (protoErr ''bulk string not terminated by CRLF'')
             else Inr (r1\<lparr>rbuf := take (?start + n) (rbuf r1), offsets := offsets r1 @ [(?start, ?start + n)]\<rparr>))"
      unfolding n_def readBulk_def Let_def using Inr p ln by auto
    note chunks = read_chunks_eq [of "n + 2" "r\<lparr>src := s1\<rparr>"]
    show ?thesis
    proof (cases "ReadFull (n + 2) s1")
      case (Inl e)
      then show ?thesis using chunks spec impl by simp
    next
      case q: (Inr q)
      obtain bs s2 where bs: "q = (bs, s2)" by fastforce
      have len: "length bs = n + 2" using q bs by (auto simp: ReadFull_def split: if_splits)
      have crlf: "drop n bs = CRLF \<longleftrightarrow> (rbuf r @ bs) ! (?start + n) = CR \<and> (rbuf r @ bs) ! (?start + n + 1) = LF"
        by (simp add: drop_two [OF len] nth_append)
      from chunks q bs obtain c where c: "read_chunks (n + 2) (r\<lparr>src := s1\<rparr>) =
          Inr (r\<lparr>src := s1\<rparr>\<lparr>rbuf := rbuf r @ bs, src := s2, rcap := c\<rparr>)"
        "int ?start \<le> rcap r \<longrightarrow> int (?start + (n + 2)) \<le> c"
        "MaxCommandBytes ?lim > 0 \<longrightarrow> c \<le> max (rcap r) (max (int (?start + (n + 2))) (MaxCommandBytes ?lim))"
        by auto
      have "take (?start + n) (rbuf r @ bs) = rbuf r @ take n bs" by simp
      then show ?thesis
        using c q bs spec impl crlf ln len
        by (auto simp: reader_ok_def cap_bound_def n_def intro!: exI [of _ c])
    qed
  qed
qed

fun offs_from :: "nat \<Rightarrow> bytes list \<Rightarrow> (nat \<times> nat) list" where
  "offs_from start [] = []"
| "offs_from start (a # as) = (start, start + length a) # offs_from (start + length a) as"

lemma slices_offs: "map (slice (pre @ concat args)) (offs_from (length pre) args) = args"
proof (induction args arbitrary: pre)
  case (Cons a as)
  from Cons [of "pre @ a"] show ?case by (simp add: slice_def)
qed simp

lemma read_bulks_eq:
  "case parse_bulks (rlimits r) n (length (rbuf r)) (src r) of
     Inl e \<Rightarrow> read_bulks n r = Inl e
   | Inr (args, s') \<Rightarrow> \<exists>c. read_bulks n r = Inr (r\<lparr>src := s', rbuf := rbuf r @ concat args, rcap := c,
         offsets := offsets r @ offs_from (length (rbuf r)) args\<rparr>)
       \<and> (reader_ok r \<longrightarrow> int (length (rbuf r @ concat args)) \<le> c)
       \<and> (cap_bound r \<and> MaxCommandBytes (rlimits r) > 0 \<longrightarrow> c \<le> MaxCommandBytes (rlimits r) + 2)"
proof (induction n arbitrary: r)
  case 0
  then show ?case by (auto simp: reader_ok_def cap_bound_def intro!: exI [of _ "rcap r"])
next
  case (Suc n)
  show ?case
  proof (cases "parse_bulk (rlimits r) (length (rbuf r)) (src r)")
    case (Inl e)
    then show ?thesis using readBulk_eq [of r] by simp
  next
    case (Inr p)
    obtain a s' where p: "p = (a, s')" by fastforce
    from readBulk_eq [of r] Inr p obtain c where c: "readBulk r = Inr (r\<lparr>src := s', rbuf := rbuf r @ a, rcap := c,
         offsets := offsets r @ [(length (rbuf r), length (rbuf r) + length a)]\<rparr>)"
       "reader_ok r \<longrightarrow> int (length (rbuf r @ a)) \<le> c"
       "cap_bound r \<and> MaxCommandBytes (rlimits r) > 0 \<longrightarrow> c \<le> MaxCommandBytes (rlimits r) + 2" by auto
    let ?r = "r\<lparr>src := s', rbuf := rbuf r @ a, rcap := c,
         offsets := offsets r @ [(length (rbuf r), length (rbuf r) + length a)]\<rparr>"
    show ?thesis
      using Suc [of ?r] c Inr p
      by (auto simp: reader_ok_def cap_bound_def split: sum.splits)
  qed
qed

lemma ReadCommand_cases:
  "case parse_command (rlimits r) (src r) of
     Inl e \<Rightarrow> ReadCommand r = Inl e
   | Inr (args, s') \<Rightarrow> \<exists>r'. ReadCommand r = Inr (args, r') \<and> src r' = s' \<and> rlimits r' = rlimits r
       \<and> rbuf r' = concat args
       \<and> (reader_ok r \<longrightarrow> reader_ok r')
       \<and> (cap_bound r \<and> reader_ok r \<longrightarrow> cap_bound r')"
proof (cases "readLine (src r)")
  case (Inl e)
  then show ?thesis by (simp add: parse_command_def ReadCommand_def)
next
  case (Inr p)
  obtain line s1 where p: "p = (line, s1)" by fastforce
  define r1 where "r1 = r\<lparr>src := s1, rcap := (if rcap r > maxRetainedBuffer then 0 else rcap r),
      rbuf := [], offsets := []\<rparr>"
  have r1: "rlimits r1 = rlimits r" "rbuf r1 = []" "src r1 = s1" "offsets r1 = []" by (simp_all add: r1_def)
  have ok: "reader_ok r \<Longrightarrow> reader_ok r1" by (auto simp: reader_ok_def r1_def maxRetainedBuffer_def)
  have cb: "cap_bound r \<Longrightarrow> cap_bound r1" by (auto simp: cap_bound_def r1_def maxRetainedBuffer_def)
  have impl: "ReadCommand r =
     (if line = [] \<or> hd line \<noteq> CHR ''*'' then Inl (protoErr ''expected '*' at start of request'')
      else case parseInt (tl line) of
             None \<Rightarrow> Inl (protoErr ''invalid multibulk length'')
           | Some n \<Rightarrow>
               if n \<le> 0 then Inl (protoErr ''invalid multibulk length'')
               else if n > MaxArrayElements (rlimits r) then Inl (protoErr ''multibulk length exceeds limit'')
               else case read_bulks (nat n) r1 of
                      Inl e \<Rightarrow> Inl e
                    | Inr r2 \<Rightarrow> Inr (map (slice (rbuf r2)) (offsets r2), r2))"
    unfolding ReadCommand_def Inr p r1_def Let_def by (simp only: sum.case prod.case)
  show ?thesis
  proof (cases "line \<noteq> [] \<and> hd line = CHR ''*'' \<and> (case parseInt (tl line) of None \<Rightarrow> False
      | Some n \<Rightarrow> 0 < n \<and> n \<le> MaxArrayElements (rlimits r))")
    case False
    then show ?thesis
      using Inr p impl by (auto simp: parse_command_def split: option.splits)
  next
    case True
    then obtain n where n: "parseInt (tl line) = Some n" "0 < n" "n \<le> MaxArrayElements (rlimits r)"
      "line \<noteq> []" "hd line = CHR ''*''"
      by (auto split: option.splits)
    then have spec: "parse_command (rlimits r) (src r) = parse_bulks (rlimits r) (nat n) 0 s1"
      using Inr p by (simp add: parse_command_def)
    note bulks = read_bulks_eq [of "nat n" r1, unfolded r1, simplified]
    show ?thesis
    proof (cases "parse_bulks (rlimits r) (nat n) 0 s1")
      case (Inl e)
      then show ?thesis using bulks spec impl n by simp
    next
      case q: (Inr q)
      obtain args s' where q': "q = (args, s')" by fastforce
      from bulks q q' obtain c where c: "read_bulks (nat n) r1 = Inr (r1\<lparr>src := s', rbuf := concat args,
          rcap := c, offsets := offs_from 0 args\<rparr>)"
        "reader_ok r1 \<longrightarrow> int (length (concat args)) \<le> c"
        "cap_bound r1 \<and> MaxCommandBytes (rlimits r) > 0 \<longrightarrow> c \<le> MaxCommandBytes (rlimits r) + 2"
        by auto
      have "map (slice (concat args)) (offs_from 0 args) = args"
        using slices_offs [of "[]" args] by simp
      then have "ReadCommand r = Inr (args, r1\<lparr>src := s', rbuf := concat args, rcap := c, offsets := offs_from 0 args\<rparr>)"
        using impl n c(1) by simp
      then show ?thesis
        using c(2,3) ok cb spec q q' r1 by (auto simp: reader_ok_def [of "_\<lparr>offsets := _\<rparr>"] cap_bound_def [of "_\<lparr>offsets := _\<rparr>"])
    qed
  qed
qed

section \<open>The grammar on well-formed frames\<close>

lemma parse_digits_eq:
  "list_all is_digit cs \<Longrightarrow> 0 \<le> n \<Longrightarrow>
   foldl (\<lambda>n c. n * 10 + int (digit_val c)) n cs \<le> 2 ^ 30 \<Longrightarrow>
   parse_digits cs n = Some (foldl (\<lambda>n c. n * 10 + int (digit_val c)) n cs)"
proof (induction cs arbitrary: n)
  case (Cons c cs)
  have mono: "m \<le> foldl (\<lambda>n c. n * 10 + int (digit_val c)) m ds" if "0 \<le> m" for m ds
    using that
  proof (induction ds arbitrary: m)
    case (Cons d ds)
    from Cons.IH [of "m * 10 + int (digit_val d)"] Cons.prems show ?case by simp
  qed simp
  from Cons mono [of "n * 10 + int (digit_val c)" cs] show ?case by simp
qed simp

lemma foldl_int_dec_val: "foldl (\<lambda>n c. n * 10 + int (digit_val c)) (int m) cs
    = int (foldl (\<lambda>n c. n * 10 + digit_val c) m cs)"
proof (induction cs arbitrary: m)
  case (Cons c cs)
  from Cons [of "m * 10 + digit_val c"] show ?case by simp
qed simp

lemma parseInt_FormatInt:
  assumes "0 \<le> n" "n \<le> 2 ^ 30"
  shows "parseInt (FormatInt n) = Some n"
proof -
  obtain c cs where f: "FormatUint (nat n) = c # cs"
    using FormatUint_nonempty by (meson list.exhaust)
  then have "is_digit c" using hd_FormatUint [of "nat n"] by simp
  then have "c \<noteq> CHR ''-''" by (auto simp: is_digit_def)
  moreover have "parse_digits (FormatUint (nat n)) 0 = Some n"
    using parse_digits_eq [of "FormatUint (nat n)" 0] foldl_int_dec_val [of 0 "FormatUint (nat n)"] assms
    by (simp add: dec_val_def [symmetric])
  ultimately show ?thesis
    using assms f by (simp add: parseInt_def FormatInt_def)
qed

lemma FormatInt_short: "0 \<le> n \<Longrightarrow> n \<le> 2 ^ 30 \<Longrightarrow> length (FormatInt n) \<le> 10"
  by (simp add: FormatInt_def length_FormatUint)

lemma FormatInt_no_crlf: "0 \<le> n \<Longrightarrow> CR \<notin> set (FormatInt n) \<and> LF \<notin> set (FormatInt n)"
proof -
  assume n: "0 \<le> n"
  have "is_digit c" if "c \<in> set (FormatUint (nat n))" for c
    using that digits_FormatUint [of "nat n"] by (simp add: list_all_iff)
  then show ?thesis using n by (force simp: FormatInt_def is_digit_def)
qed

lemma readLine_line:
  assumes "LF \<notin> set line" "length line + 2 \<le> 4096"
  shows "readLine \<lparr>input = line @ CRLF @ rest, ending = e\<rparr> = Inr (line, \<lparr>input = rest, ending = e\<rparr>)"
proof -
  let ?w = "take 4096 (line @ CRLF @ rest)"
  have w: "?w = line @ CRLF @ take (4096 - (length line + 2)) rest"
    using assms(2) by (simp add: take_Cons')
  have tw: "takeWhile (\<lambda>c. c \<noteq> LF) ?w = line @ [CR]"
    unfolding w using assms(1) by (subst takeWhile_append2) auto
  show ?thesis
    using tw w by (simp add: readLine_def Let_def nth_append)
qed

lemma readLine_torn:
  assumes "strict_prefix p (line @ CRLF)" "LF \<notin> set line" "length line + 2 \<le> 4096"
  shows "readLine \<lparr>input = p, ending = AtEOF\<rparr> =
    Inl (if p = [] then IoEOF else incompleteErr ''unexpected end of stream inside frame'')"
proof -
  from assms(1) have "prefix p (line @ [CR])"
    by (metis append.assoc append_Cons append_Nil prefix_snoc strict_prefix_def)
  then have "LF \<notin> set p" "length p \<le> length (line @ [CR])"
    using assms(2) set_mono_prefix [of p "line @ [CR]"] by (auto dest: prefix_length_le)
  then have "LF \<notin> set (take 4096 p)" "length p < 4096"
    using assms(3) by (auto dest: in_set_takeD)
  then show ?thesis by (simp add: readLine_def Let_def)
qed

text \<open>The bytes of a request, as the encoder writes them.\<close>

definition enc_request :: "bytes list \<Rightarrow> bytes" where
  "enc_request args = enc_array (int (length args)) @ concat (map enc_bulk args)"

fun fits_from :: "limits \<Rightarrow> nat \<Rightarrow> bytes list \<Rightarrow> bool" where
  "fits_from lim used [] \<longleftrightarrow> True"
| "fits_from lim used (a # as) \<longleftrightarrow>
     int (length a) \<le> MaxBulkLength lim \<and> int (length a) \<le> 2 ^ 30
     \<and> (MaxCommandBytes lim > 0 \<longrightarrow> int (used + length a) \<le> MaxCommandBytes lim)
     \<and> fits_from lim (used + length a) as"

definition fits :: "limits \<Rightarrow> bytes list \<Rightarrow> bool" where
  "fits lim args \<longleftrightarrow> args \<noteq> [] \<and> int (length args) \<le> MaxArrayElements lim \<and> int (length args) \<le> 2 ^ 30
     \<and> fits_from lim 0 args"

lemma fits_from_alt:
  "fits_from lim used args \<longleftrightarrow>
     (\<forall>a \<in> set args. int (length a) \<le> MaxBulkLength lim \<and> int (length a) \<le> 2 ^ 30)
     \<and> (MaxCommandBytes lim > 0 \<and> args \<noteq> [] \<longrightarrow> int (used + length (concat args)) \<le> MaxCommandBytes lim)"
  by (induction args arbitrary: used) (auto simp: algebra_simps)

lemma header_line:
  assumes "0 \<le> n" "n \<le> 2 ^ 30" "tag \<noteq> LF"
  shows "readLine \<lparr>input = [tag] @ enc_number n @ rest, ending = e\<rparr>
       = Inr (tag # FormatInt n, \<lparr>input = rest, ending = e\<rparr>)"
  using readLine_line [of "tag # FormatInt n" rest e] FormatInt_short [OF assms(1,2)]
    FormatInt_no_crlf [OF assms(1)] assms(3)
  by (simp add: enc_number_def)

lemma header_torn:
  assumes "0 \<le> n" "n \<le> 2 ^ 30" "tag \<noteq> LF" "strict_prefix p ([tag] @ enc_number n)"
  shows "readLine \<lparr>input = p, ending = AtEOF\<rparr> =
    Inl (if p = [] then IoEOF else incompleteErr ''unexpected end of stream inside frame'')"
  using readLine_torn [of p "tag # FormatInt n"] FormatInt_short [OF assms(1,2)]
    FormatInt_no_crlf [OF assms(1)] assms(3,4)
  by (simp add: enc_number_def)

lemma parse_bulk_enc:
  assumes "int (length a) \<le> MaxBulkLength lim" "int (length a) \<le> 2 ^ 30"
    "MaxCommandBytes lim > 0 \<longrightarrow> int (used + length a) \<le> MaxCommandBytes lim"
  shows "parse_bulk lim used \<lparr>input = enc_bulk a @ rest, ending = e\<rparr> = Inr (a, \<lparr>input = rest, ending = e\<rparr>)"
proof -
  have n: "int (length a) \<le> 2 ^ 30" using assms(2) by simp
  from header_line [of "int (length a)" "CHR ''$''" "a @ CRLF @ rest" e] n
  have "readLine \<lparr>input = enc_bulk a @ rest, ending = e\<rparr>
      = Inr (CHR ''$'' # FormatInt (int (length a)), \<lparr>input = a @ CRLF @ rest, ending = e\<rparr>)"
    by (simp add: enc_bulk_def)
  then show ?thesis
    using assms parseInt_FormatInt [of "int (length a)"] n
    by (auto simp: parse_bulk_def ReadFull_def)
qed

lemma parse_bulks_enc:
  "fits_from lim used args \<Longrightarrow>
   parse_bulks lim (length args) used \<lparr>input = concat (map enc_bulk args) @ rest, ending = e\<rparr>
     = Inr (args, \<lparr>input = rest, ending = e\<rparr>)"
proof (induction args arbitrary: used)
  case (Cons a args)
  have b: "parse_bulk lim used \<lparr>input = enc_bulk a @ (concat (map enc_bulk args) @ rest), ending = e\<rparr>
      = Inr (a, \<lparr>input = concat (map enc_bulk args) @ rest, ending = e\<rparr>)"
    using Cons.prems by (intro parse_bulk_enc) auto
  from Cons.IH [of "used + length a"] Cons.prems b show ?case by simp
qed simp

lemma parse_command_enc:
  assumes "fits lim args"
  shows "parse_command lim \<lparr>input = enc_request args @ rest, ending = e\<rparr>
       = Inr (args, \<lparr>input = rest, ending = e\<rparr>)"
proof -
  have n: "int (length args) \<le> 2 ^ 30" using assms unfolding fits_def by blast
  from header_line [of "int (length args)" "CHR ''*''" "concat (map enc_bulk args) @ rest" e] n
  have "readLine \<lparr>input = enc_request args @ rest, ending = e\<rparr>
      = Inr (CHR ''*'' # FormatInt (int (length args)), \<lparr>input = concat (map enc_bulk args) @ rest, ending = e\<rparr>)"
    by (simp add: enc_request_def enc_array_def)
  then show ?thesis
    using assms parseInt_FormatInt [of "int (length args)"] n parse_bulks_enc [of lim 0 args rest e]
    by (simp add: parse_command_def fits_def)
qed

definition torn_err :: read_err where
  "torn_err = incompleteErr ''unexpected end of stream inside frame''"

lemma parse_bulk_torn:
  assumes "strict_prefix p (enc_bulk a)" "int (length a) \<le> MaxBulkLength lim" "int (length a) \<le> 2 ^ 30"
    "MaxCommandBytes lim > 0 \<longrightarrow> int (used + length a) \<le> MaxCommandBytes lim"
  shows "parse_bulk lim used \<lparr>input = p, ending = AtEOF\<rparr> = Inl torn_err"
proof -
  have n: "0 \<le> int (length a)" "int (length a) \<le> 2 ^ 30" using assms(3) by simp_all
  have "enc_bulk a = ([CHR ''$''] @ enc_number (int (length a))) @ (a @ CRLF)"
    by (simp add: enc_bulk_def)
  from strict_prefix_append_cases [OF assms(1) [unfolded this]] consider
      "strict_prefix p ([CHR ''$''] @ enc_number (int (length a)))"
    | q where "p = ([CHR ''$''] @ enc_number (int (length a))) @ q" "strict_prefix q (a @ CRLF)"
    by blast
  then show ?thesis
  proof cases
    case 1
    from header_torn [OF n _ 1] show ?thesis
      by (simp add: parse_bulk_def bulkReadErr_def torn_err_def)
  next
    case 2
    from header_line [OF n, of "CHR ''$''" q AtEOF] 2(1)
    have "readLine \<lparr>input = p, ending = AtEOF\<rparr>
        = Inr (CHR ''$'' # FormatInt (int (length a)), \<lparr>input = q, ending = AtEOF\<rparr>)" by simp
    moreover from 2(2) have "length q < length a + 2"
      using prefix_length_less by fastforce
    ultimately show ?thesis
      using assms(2-4) parseInt_FormatInt [OF n]
      by (auto simp: parse_bulk_def ReadFull_def bulkReadErr_def torn_err_def)
  qed
qed

lemma parse_bulks_torn:
  "fits_from lim used args \<Longrightarrow> strict_prefix p (concat (map enc_bulk args)) \<Longrightarrow>
   parse_bulks lim (length args) used \<lparr>input = p, ending = AtEOF\<rparr> = Inl torn_err"
proof (induction args arbitrary: used p)
  case (Cons a args)
  from Cons.prems(2) consider "strict_prefix p (enc_bulk a)"
    | q where "p = enc_bulk a @ q" "strict_prefix q (concat (map enc_bulk args))"
    by (auto dest: strict_prefix_append_cases)
  then show ?case
  proof cases
    case 1
    from parse_bulk_torn [OF 1] Cons.prems(1) show ?thesis by simp
  next
    case 2
    from parse_bulk_enc [of a lim used q AtEOF] Cons.prems(1) Cons.IH [OF _ 2(2)] 2(1)
    show ?thesis by simp
  qed
qed simp

lemma parse_command_torn:
  assumes "fits lim args" "strict_prefix p (enc_request args)"
  shows "parse_command lim \<lparr>input = p, ending = AtEOF\<rparr> = Inl (if p = [] then IoEOF else torn_err)"
proof -
  have n: "0 \<le> int (length args)" "int (length args) \<le> 2 ^ 30" using assms(1) unfolding fits_def by simp_all
  have "enc_request args = ([CHR ''*''] @ enc_number (int (length args))) @ concat (map enc_bulk args)"
    by (simp add: enc_request_def enc_array_def)
  from strict_prefix_append_cases [OF assms(2) [unfolded this]] consider
      "strict_prefix p ([CHR ''*''] @ enc_number (int (length args)))"
    | q where "p = ([CHR ''*''] @ enc_number (int (length args))) @ q"
        "strict_prefix q (concat (map enc_bulk args))"
    by blast
  then show ?thesis
  proof cases
    case 1
    from header_torn [OF n _ 1] show ?thesis by (simp add: parse_command_def torn_err_def)
  next
    case 2
    from header_line [OF n, of "CHR ''*''" q AtEOF] 2(1)
    have "readLine \<lparr>input = p, ending = AtEOF\<rparr>
        = Inr (CHR ''*'' # FormatInt (int (length args)), \<lparr>input = q, ending = AtEOF\<rparr>)" by simp
    moreover from assms(1) have "parse_bulks lim (length args) 0 \<lparr>input = q, ending = AtEOF\<rparr> = Inl torn_err"
      using parse_bulks_torn 2(2) unfolding fits_def by blast
    ultimately show ?thesis
      using assms(1) parseInt_FormatInt [OF n] 2(1) by (simp add: parse_command_def fits_def)
  qed
qed

section \<open>Framing\<close>

text \<open>
  What recovery relies on when it reads frames one after the other: a complete frame is read
  back whatever follows it, the end of the stream between frames is a clean end, and inside a
  frame it is a torn one.
\<close>

locale framing =
  fixes wf :: "'a \<Rightarrow> bool"
    and enc :: "'a \<Rightarrow> bytes"
    and dec :: "bytes \<Rightarrow> 'e + 'a \<times> bytes"
    and clean torn :: 'e
  assumes enc_nonempty: "wf x \<Longrightarrow> enc x \<noteq> []"
    and dec_enc: "wf x \<Longrightarrow> dec (enc x @ rest) = Inr (x, rest)"
    and dec_end: "dec [] = Inl clean"
    and dec_torn: "wf x \<Longrightarrow> strict_prefix p (enc x) \<Longrightarrow> p \<noteq> [] \<Longrightarrow> dec p = Inl torn"
begin

lemma concat_inj:
  "\<lbrakk>concat (map enc xs) = concat (map enc ys); \<forall>x \<in> set xs. wf x; \<forall>y \<in> set ys. wf y\<rbrakk> \<Longrightarrow> xs = ys"
proof (induction xs arbitrary: ys)
  case Nil
  then show ?case using enc_nonempty by (cases ys) auto
next
  case (Cons x xs)
  have "ys \<noteq> []" using Cons.prems enc_nonempty by auto
  then obtain y ys' where ys: "ys = y # ys'" by (cases ys) auto
  have "Inr (x, concat (map enc xs)) = dec (concat (map enc (x # xs)))"
    using dec_enc [of x "concat (map enc xs)"] Cons.prems(2) by simp
  also have "\<dots> = Inr (y, concat (map enc ys'))"
    unfolding Cons.prems(1) using dec_enc [of y "concat (map enc ys')"] Cons.prems(3) ys by simp
  finally show ?case using Cons ys by auto
qed

text \<open>Every prefix of a sequence of frames is whole frames and at most one torn one.\<close>

lemma prefix_split:
  "prefix p (concat (map enc xs)) \<Longrightarrow>
   \<exists>n t. n \<le> length xs \<and> p = concat (map enc (take n xs)) @ t
       \<and> (t = [] \<or> n < length xs \<and> strict_prefix t (enc (xs ! n)))"
proof (induction xs arbitrary: p)
  case (Cons x xs)
  then have "prefix p (enc x @ concat (map enc xs))" by simp
  then show ?case
  proof (cases rule: prefix_append_cases)
    case Inside
    then show ?thesis by (intro exI [of _ 0] exI [of _ p]) simp
  next
    case (Beyond q)
    from Cons.IH [OF Beyond(2)] obtain n t where "n \<le> length xs" "q = concat (map enc (take n xs)) @ t"
      "t = [] \<or> n < length xs \<and> strict_prefix t (enc (xs ! n))" by auto
    then show ?thesis using Beyond(1) by (intro exI [of _ "Suc n"] exI [of _ t]) simp
  qed
qed simp

end

text \<open>
  A vocabulary on top of a framing: values are spelled as the payload of a frame, and read back
  from it. Its errors carry those of the framing below.
\<close>

locale vocabulary = framing wf enc dec clean torn
  for wf :: "'a \<Rightarrow> bool" and enc and dec :: "bytes \<Rightarrow> 'e + 'a \<times> bytes" and clean torn +
  fixes ok :: "'b \<Rightarrow> bool"
    and spell :: "'b \<Rightarrow> 'a"
    and meaning :: "'a \<Rightarrow> 'f + 'b"
    and lift :: "'e \<Rightarrow> 'f"
  assumes spell_wf: "ok x \<Longrightarrow> wf (spell x)"
    and meaning_spell: "ok x \<Longrightarrow> meaning (spell x) = Inr x"
begin

sublocale spelled: framing ok "\<lambda>x. enc (spell x)"
    "\<lambda>bs. case dec bs of Inl e \<Rightarrow> Inl (lift e)
      | Inr (a, rest) \<Rightarrow> (case meaning a of Inl f \<Rightarrow> Inl f | Inr x \<Rightarrow> Inr (x, rest))"
    "lift clean" "lift torn"
  by unfold_locales
    (simp_all add: enc_nonempty spell_wf dec_enc dec_end meaning_spell dec_torn [OF spell_wf])

end

text \<open>A decoder fed the bytes of a file.\<close>

definition read_frame :: "limits \<Rightarrow> bytes \<Rightarrow> read_err + bytes list \<times> bytes" where
  "read_frame lim bs =
     (case ReadCommand (NewReader \<lparr>input = bs, ending = AtEOF\<rparr> lim) of
        Inl e \<Rightarrow> Inl e
      | Inr (args, r) \<Rightarrow> Inr (args, input (src r)))"

lemma ReadCommand_parse:
  "(case ReadCommand r of Inl e \<Rightarrow> Inl e | Inr (args, r') \<Rightarrow> Inr (args, src r'))
     = parse_command (rlimits r) (src r)"
  using ReadCommand_cases [of r] by (auto split: sum.splits)

lemma ReadCommand_Inl: "parse_command (rlimits r) (src r) = Inl e \<Longrightarrow> ReadCommand r = Inl e"
  using ReadCommand_cases [of r] by simp

lemma ReadCommand_Inr:
  "parse_command (rlimits r) (src r) = Inr (args, s') \<Longrightarrow>
   \<exists>r'. ReadCommand r = Inr (args, r') \<and> src r' = s' \<and> rlimits r' = rlimits r"
  using ReadCommand_cases [of r] by auto

lemma read_frame_parse:
  "read_frame lim bs =
     (case parse_command lim \<lparr>input = bs, ending = AtEOF\<rparr> of Inl e \<Rightarrow> Inl e | Inr (args, s) \<Rightarrow> Inr (args, input s))"
  using ReadCommand_cases [of "NewReader \<lparr>input = bs, ending = AtEOF\<rparr> lim"]
  by (auto simp: read_frame_def NewReader_def split: sum.splits)

interpretation req: framing "fits lim" enc_request "read_frame lim" IoEOF torn_err for lim
proof
  show "enc_request args \<noteq> []" for args by (simp add: enc_request_def enc_array_def)
  show "read_frame lim (enc_request args @ rest) = Inr (args, rest)" if "fits lim args" for args rest
    by (simp add: read_frame_parse parse_command_enc [OF that])
  show "read_frame lim [] = Inl IoEOF"
    by (simp add: read_frame_parse parse_command_def readLine_def)
  show "read_frame lim p = Inl torn_err"
    if "fits lim args" "strict_prefix p (enc_request args)" "p \<noteq> []" for args p
    by (simp add: read_frame_parse parse_command_torn [OF that(1,2)] that(3))
qed

section \<open>Properties of the decoder\<close>

text \<open>
  C15: the decoder, with its growing buffer, its chunked reads and its slices of the buffer, is the
  grammar: for every stream and every state of the buffer it returns the arguments, or the error,
  of \<^const>\<open>parse_command\<close>, and leaves the stream where the grammar leaves it.
\<close>

theorem ReadCommand_is_grammar:
  "(case ReadCommand r of Inl e \<Rightarrow> Inl e | Inr (args, r') \<Rightarrow> Inr (args, src r'))
     = parse_command (rlimits r) (src r)"
  by (rule ReadCommand_parse)

text \<open>
  C21: a request written with the encoder and flushed without error is read back as its
  arguments, byte for byte whatever they contain, and what follows it in the stream is left for
  the next call. The request has to be within the limits of the decoder.
\<close>

theorem request_round_trip:
  assumes "fits (rlimits r) args"
    and "write_all (WriteArrayHeader (int (length args)) # map WriteBulk args) (NewWriter acc) = (w, True)"
    and "writer_Flush w = (w', True)"
    and "src r = \<lparr>input = wout w' @ rest, ending = e\<rparr>"
  shows "\<exists>r'. ReadCommand r = Inr (args, r') \<and> src r' = \<lparr>input = rest, ending = e\<rparr>"
proof -
  have "list_all2 emits (WriteArrayHeader (int (length args)) # map WriteBulk args)
      (enc_array (int (length args)) # map enc_bulk args)"
    by (simp add: emits_array list_all2_map1 list_all2_map2 list_all2_same emits_bulk)
  from emitsD [OF emits_all [OF this] assms(2)] flush_all [OF assms(3)]
  have "wout w' = enc_request args"
    by (simp add: enc_request_def NewWriter_def written_def)
  with ReadCommand_Inr [of r args "\<lparr>input = rest, ending = e\<rparr>"] parse_command_enc [OF assms(1)] assms(4)
  show ?thesis by auto
qed

theorem request_round_trip_witness:
  "\<exists>r'. ReadCommand (NewReader \<lparr>input = ''*2'' @ CRLF @ ''$3'' @ CRLF @ ''GET'' @ CRLF @ ''$1'' @ CRLF @ ''k'' @ CRLF,
       ending = AtEOF\<rparr> DefaultLimits) = Inr ([''GET'', ''k''], r') \<and> src r' = \<lparr>input = [], ending = AtEOF\<rparr>"
proof -
  let ?ops = "WriteArrayHeader 2 # map WriteBulk [''GET'', ''k'']"
  let ?w = "\<lparr>wbuf = ''*2'' @ CRLF @ ''$3'' @ CRLF @ ''GET'' @ CRLF @ ''$1'' @ CRLF @ ''k'' @ CRLF,
      wout = [], wfail = False, accepts = None\<rparr>"
  have "fits DefaultLimits [''GET'', ''k'']" "write_all ?ops (NewWriter None) = (?w, True)"
    "writer_Flush ?w = (?w\<lparr>wbuf := [], wout := wbuf ?w\<rparr>, True)"
    by code_simp+
  then show ?thesis
    using request_round_trip [of "NewReader \<lparr>input = wbuf ?w, ending = AtEOF\<rparr> DefaultLimits"
        "[''GET'', ''k'']" None ?w "?w\<lparr>wbuf := [], wout := wbuf ?w\<rparr>" "[]" AtEOF]
    by (simp add: NewReader_def)
qed

text \<open>
  C34: a request cut short by the end of the stream is reported as an incomplete frame, at
  whichever byte it was cut; only a cut before its first byte is a clean end of the stream.
\<close>

theorem torn_request:
  assumes "fits (rlimits r) args" "strict_prefix p (enc_request args)" "src r = \<lparr>input = p, ending = AtEOF\<rparr>"
  shows "\<exists>e. ReadCommand r = Inl e \<and> (if p = [] then e = IoEOF else is_incomplete e)"
  using ReadCommand_Inl [of r] parse_command_torn [OF assms(1,2)] assms(3)
  by (auto simp: torn_err_def incompleteErr_def is_incomplete_def)

theorem torn_request_witness:
  "\<exists>e. ReadCommand (NewReader \<lparr>input = ''*1'' @ CRLF @ ''$4'' @ CRLF @ ''PI'', ending = AtEOF\<rparr> DefaultLimits) = Inl e
     \<and> is_incomplete e"
proof -
  let ?p = "''*1'' @ CRLF @ ''$4'' @ CRLF @ ''PI''"
  have "fits DefaultLimits [''PING'']" "enc_request [''PING''] = ?p @ ''NG'' @ CRLF" by code_simp+
  then show ?thesis
    using torn_request [of "NewReader \<lparr>input = ?p, ending = AtEOF\<rparr> DefaultLimits" "[''PING'']" ?p]
    by (simp add: NewReader_def strict_prefix_def)
qed

lemma parse_bulks_limits:
  "parse_bulks lim n used s = Inr (args, s') \<Longrightarrow>
   length args = n \<and> (\<forall>a \<in> set args. int (length a) \<le> MaxBulkLength lim)
   \<and> (MaxCommandBytes lim > 0 \<and> args \<noteq> [] \<longrightarrow> int (used + length (concat args)) \<le> MaxCommandBytes lim)"
proof (induction n arbitrary: used s args)
  case (Suc n)
  from Suc.prems obtain a s1 as where a: "parse_bulk lim used s = Inr (a, s1)"
    and as: "parse_bulks lim n (used + length a) s1 = Inr (as, s')" "args = a # as"
    by (auto split: sum.splits)
  from Suc.IH [OF as(1)] parse_bulk_Inr [OF a] as(2) show ?case
    by (cases as) (auto simp: algebra_simps)
qed simp

text \<open>
  C33: a decoded request is within every limit: at least one and at most \<^const>\<open>MaxArrayElements\<close>
  arguments, none longer than \<^const>\<open>MaxBulkLength\<close>, and \<^const>\<open>MaxCommandBytes\<close> in all. The buffer
  that held it never outgrows the limit by more than the two bytes of the last terminator.
\<close>

theorem ReadCommand_bounds:
  assumes "ReadCommand r = Inr (args, r')" "reader_ok r" "cap_bound r"
  shows "1 \<le> length args \<and> int (length args) \<le> MaxArrayElements (rlimits r)
     \<and> list_all (\<lambda>a. int (length a) \<le> MaxBulkLength (rlimits r)) args
     \<and> (MaxCommandBytes (rlimits r) = 0 \<or> MaxCommandBytes (rlimits r) < 0
        \<or> int (length (concat args)) \<le> MaxCommandBytes (rlimits r) \<and> rcap r' \<le> MaxCommandBytes (rlimits r) + 2)
     \<and> reader_ok r' \<and> cap_bound r'"
proof -
  from assms(1) ReadCommand_parse [of r]
  have p: "parse_command (rlimits r) (src r) = Inr (args, src r')" by simp
  then obtain n s1 where n: "0 < n" "n \<le> MaxArrayElements (rlimits r)"
    "parse_bulks (rlimits r) (nat n) 0 s1 = Inr (args, src r')"
    by (auto simp: parse_command_def not_le not_less split: sum.splits option.splits if_splits)
  have "reader_ok r'" "cap_bound r'" "rlimits r' = rlimits r"
    using ReadCommand_cases [of r] p assms by auto
  moreover have "args \<noteq> []" using parse_bulks_limits [OF n(3)] n(1) by auto
  ultimately show ?thesis
    using parse_bulks_limits [OF n(3)] n(1,2)
    by (auto simp: list_all_iff cap_bound_def Suc_le_eq)
qed

theorem ReadCommand_bounds_witness:
  "\<exists>r'. ReadCommand (NewReader \<lparr>input = ''*1'' @ CRLF @ ''$4'' @ CRLF @ ''PING'' @ CRLF, ending = AtEOF\<rparr> DefaultLimits)
       = Inr ([''PING''], r') \<and> reader_ok r' \<and> rcap r' \<le> 128 * 2 ^ 20 + 2"
proof -
  let ?s = "\<lparr>input = ''*1'' @ CRLF @ ''$4'' @ CRLF @ ''PING'' @ CRLF, ending = AtEOF\<rparr>"
  let ?r = "NewReader ?s DefaultLimits"
  have "parse_command DefaultLimits ?s = Inr ([''PING''], \<lparr>input = [], ending = AtEOF\<rparr>)" by code_simp
  then obtain r' where r': "ReadCommand ?r = Inr ([''PING''], r')"
    using ReadCommand_Inr [of ?r] by (auto simp: NewReader_def)
  have "reader_ok ?r" "cap_bound ?r" by (simp_all add: NewReader_def reader_ok_def cap_bound_def DefaultLimits_def)
  from ReadCommand_bounds [OF r' this] r' show ?thesis by (auto simp: NewReader_def DefaultLimits_def)
qed

end
