(* ===== verification/Aof_Codec.thy ===== *)
theory Aof_Codec
  imports Resp_Reader
begin

text \<open>
  The records of the append-only file and the bytes they are kept as:
  \<^verbatim>\<open>internal/aof/record.go\<close>, \<^verbatim>\<open>codec.go\<close> and \<^verbatim>\<open>header.go\<close>. A record is the resulting state
  of a mutation, encoded as a RESP2 array of bulk strings; the file opens with a fixed header.
  The records are shown to be a vocabulary over the framing of requests, so that they are read
  back exactly and a torn record is never taken for a whole one.
\<close>

section \<open>Records\<close>

definition KindSet :: int where
  "KindSet = 0"

definition KindDel :: int where
  "KindDel = 1"

record aof_record =
  Kind :: int
  Key :: string
  Value :: string
  ExpireAtMS :: int
  HasExpiry :: bool
  Keys :: "string list"

definition DeriveSet :: "string \<Rightarrow> string \<Rightarrow> time \<Rightarrow> bool \<Rightarrow> aof_record" where
  "DeriveSet key val deadline hasTTL =
     \<lparr>Kind = KindSet, Key = key, Value = val,
      ExpireAtMS = (if hasTTL then toUnixMilli deadline else 0), HasExpiry = hasTTL, Keys = []\<rparr>"

definition DeriveDel :: "string list \<Rightarrow> aof_record" where
  "DeriveDel keys =
     \<lparr>Kind = KindDel, Key = [], Value = [], ExpireAtMS = 0, HasExpiry = False, Keys = keys\<rparr>"

section \<open>Errors\<close>

datatype corruption =
    UnknownKind
  | EmptyRecord
  | UnknownOption string
  | NotAnInteger
  | SetParts nat
  | NoDelKeys
  | UnknownVerb string
  | NoBytes

text \<open>The errors of the package; \<open>Corrupt\<close> is what \<^verbatim>\<open>corruptf\<close> builds around \<^verbatim>\<open>ErrCorrupt\<close>.\<close>

datatype aof_err =
    ReadErr read_err
  | WriteErr
  | Corrupt corruption
  | ErrNotAnAOF
  | ErrTruncatedHeader
  | UnsupportedVersionError int int
  | CorruptionError int aof_err
  | OsErr string

section \<open>Encoding and decoding\<close>

definition verbSet :: string where
  "verbSet = ''SET''"

definition verbDel :: string where
  "verbDel = ''DEL''"

definition optPXAT :: string where
  "optPXAT = ''PXAT''"

definition write_err :: "writer \<times> bool \<Rightarrow> writer \<times> aof_err option" where
  "write_err res = (fst res, if snd res then None else Some WriteErr)"

definition Encode :: "writer \<Rightarrow> aof_record \<Rightarrow> writer \<times> aof_err option" where
  "Encode w r =
     (if Kind r = KindSet then
        write_err (and_then (WriteArrayHeader (if HasExpiry r then 5 else 3))
          (and_then (WriteBulk verbSet)
          (and_then (WriteBulk (Key r))
            (if \<not> HasExpiry r then WriteBulk (Value r)
             else and_then (WriteBulk (Value r))
                    (and_then (WriteBulk optPXAT) (WriteBulk (FormatInt (ExpireAtMS r))))))) w)
      else if Kind r = KindDel then
        (if Keys r = [] then (w, Some (Corrupt NoDelKeys))
         else write_err (and_then (WriteArrayHeader (int (length (Keys r)) + 1))
                (and_then (WriteBulk verbDel) (write_all (map WriteBulk (Keys r)))) w))
      else (w, Some (Corrupt UnknownKind)))"

definition decode_parts :: "bytes list \<Rightarrow> aof_err + aof_record" where
  "decode_parts parts =
     (case parts of
        [] \<Rightarrow> Inl (Corrupt EmptyRecord)
      | verb # _ \<Rightarrow>
          if verb = verbSet then
            (if length parts = 3 then
               Inr \<lparr>Kind = KindSet, Key = parts ! 1, Value = parts ! 2, ExpireAtMS = 0, HasExpiry = False, Keys = []\<rparr>
             else if length parts = 5 then
               (if parts ! 3 \<noteq> optPXAT then Inl (Corrupt (UnknownOption (parts ! 3)))
                else case ParseInt (parts ! 4) of
                       None \<Rightarrow> Inl (Corrupt NotAnInteger)
                     | Some ms \<Rightarrow> Inr \<lparr>Kind = KindSet, Key = parts ! 1, Value = parts ! 2,
                                        ExpireAtMS = ms, HasExpiry = True, Keys = []\<rparr>)
             else Inl (Corrupt (SetParts (length parts))))
          else if verb = verbDel then
            (if length parts < 2 then Inl (Corrupt NoDelKeys)
             else Inr \<lparr>Kind = KindDel, Key = [], Value = [], ExpireAtMS = 0, HasExpiry = False, Keys = tl parts\<rparr>)
          else Inl (Corrupt (UnknownVerb verb)))"

definition Decode :: "reader \<Rightarrow> aof_err + aof_record \<times> reader" where
  "Decode r =
     (case ReadCommand r of
        Inl e \<Rightarrow> Inl (ReadErr e)
      | Inr (parts, r') \<Rightarrow>
          (case decode_parts parts of Inl e \<Rightarrow> Inl e | Inr rec \<Rightarrow> Inr (rec, r')))"

section \<open>The header\<close>

definition magic :: bytes where
  "magic = ''GOKVAOF'' @ [CHR 0x00]"

definition FormatVersion :: int where
  "FormatVersion = 1"

definition HeaderSize :: nat where
  "HeaderSize = 16"

text \<open>\<^verbatim>\<open>binary.BigEndian\<close> on 32 bits.\<close>

definition PutUint32 :: "int \<Rightarrow> bytes" where
  "PutUint32 v = map (\<lambda>k. char_of (v div 256 ^ k mod 256)) [3, 2, 1, 0]"

definition Uint32 :: "bytes \<Rightarrow> int" where
  "Uint32 bs = foldl (\<lambda>v c. v * 256 + of_char c) 0 bs"

definition EncodeHeader :: bytes where
  "EncodeHeader = magic @ PutUint32 FormatVersion @ replicate 4 (CHR 0x00)"

definition ReadHeader :: "stream \<Rightarrow> aof_err + bool \<times> stream" where
  "ReadHeader s =
     (case ReadFull HeaderSize s of
        Inl e \<Rightarrow>
          if input s = [] \<and> e = IoEOF then Inr (True, s)
          else if e = UnexpectedEOF \<or> e = IoEOF then Inl ErrTruncatedHeader
          else Inl (ReadErr e)
      | Inr (buf, s') \<Rightarrow>
          if take 8 buf \<noteq> magic then Inl ErrNotAnAOF
          else let v = Uint32 (take 4 (drop 8 buf)) in
               if v \<noteq> FormatVersion then Inl (UnsupportedVersionError v FormatVersion)
               else Inr (False, s'))"

section \<open>Records as a vocabulary\<close>

text \<open>The records the server builds: the fields of the other kind are zero.\<close>

definition canonical :: "aof_record \<Rightarrow> bool" where
  "canonical r \<longleftrightarrow>
     (Kind r = KindSet \<and> Keys r = [] \<and> is_int64 (ExpireAtMS r) \<and> (\<not> HasExpiry r \<longrightarrow> ExpireAtMS r = 0)
      \<or> Kind r = KindDel \<and> Key r = [] \<and> Value r = [] \<and> ExpireAtMS r = 0 \<and> \<not> HasExpiry r \<and> Keys r \<noteq> [])"

definition record_args :: "aof_record \<Rightarrow> bytes list" where
  "record_args r =
     (if Kind r = KindSet then
        [verbSet, Key r, Value r] @ (if HasExpiry r then [optPXAT, FormatInt (ExpireAtMS r)] else [])
      else verbDel # Keys r)"

definition enc_record :: "aof_record \<Rightarrow> bytes" where
  "enc_record r = enc_request (record_args r)"

definition storable :: "limits \<Rightarrow> aof_record \<Rightarrow> bool" where
  "storable lim r \<longleftrightarrow> canonical r \<and> fits lim (record_args r)"

lemmas verb_defs = verbSet_def verbDel_def optPXAT_def KindSet_def KindDel_def

lemma canonical_DeriveSet [simp]: "canonical (DeriveSet k v d h)"
  by (simp add: canonical_def DeriveSet_def toUnixMilli_def) (simp add: int64_defs)

lemma canonical_DeriveDel [simp]: "canonical (DeriveDel ks) \<longleftrightarrow> ks \<noteq> []"
  by (simp add: canonical_def DeriveDel_def verb_defs)

lemma decode_record_args: "canonical r \<Longrightarrow> decode_parts (record_args r) = Inr r"
  by (cases r) (auto simp: canonical_def record_args_def decode_parts_def verb_defs ParseInt_FormatInt
      Suc_le_eq numeral_eq_Suc)

text \<open>What \<^const>\<open>Encode\<close> sends for a canonical record is its frame.\<close>

definition encode_op :: "aof_record \<Rightarrow> writer \<Rightarrow> writer \<times> bool" where
  "encode_op r w = (let (w', e) = Encode w r in (w', e = None))"

lemma write_err_ok: "(let (w', e) = write_err res in (w', e = None)) = res"
  by (cases res) (simp add: write_err_def)

lemma emits_encode:
  assumes "canonical r"
  shows "emits (encode_op r) (enc_record r)"
proof -
  have dels: "emits (write_all (map WriteBulk ks)) (concat (map enc_bulk ks))" for ks
    by (rule emits_all) (simp add: list_all2_map1 list_all2_map2 list_all2_same emits_bulk)
  consider "Kind r = KindSet" "\<not> HasExpiry r" | "Kind r = KindSet" "HasExpiry r" | "Kind r = KindDel" "Keys r \<noteq> []"
    using assms by (auto simp: canonical_def)
  then show ?thesis
  proof cases
    case 1
    then have "encode_op r = and_then (WriteArrayHeader 3) (and_then (WriteBulk verbSet)
        (and_then (WriteBulk (Key r)) (WriteBulk (Value r))))"
      by (simp add: fun_eq_iff encode_op_def Encode_def write_err_ok)
    moreover have "enc_record r = enc_array 3 @ enc_bulk verbSet @ enc_bulk (Key r) @ enc_bulk (Value r)"
      using 1 by (simp add: enc_record_def record_args_def enc_request_def)
    ultimately show ?thesis by (auto intro!: emits_seq emits_ops)
  next
    case 2
    then have "encode_op r = and_then (WriteArrayHeader 5) (and_then (WriteBulk verbSet)
        (and_then (WriteBulk (Key r)) (and_then (WriteBulk (Value r))
        (and_then (WriteBulk optPXAT) (WriteBulk (FormatInt (ExpireAtMS r)))))))"
      by (simp add: fun_eq_iff encode_op_def Encode_def write_err_ok)
    moreover have "enc_record r = enc_array 5 @ enc_bulk verbSet @ enc_bulk (Key r) @ enc_bulk (Value r)
        @ enc_bulk optPXAT @ enc_bulk (FormatInt (ExpireAtMS r))"
      using 2 by (simp add: enc_record_def record_args_def enc_request_def)
    ultimately show ?thesis by (auto intro!: emits_seq emits_ops)
  next
    case 3
    then have "encode_op r = and_then (WriteArrayHeader (int (length (Keys r)) + 1))
        (and_then (WriteBulk verbDel) (write_all (map WriteBulk (Keys r))))"
      by (simp add: fun_eq_iff encode_op_def Encode_def write_err_ok verb_defs)
    moreover have "enc_record r = enc_array (int (length (Keys r)) + 1) @ enc_bulk verbDel
        @ concat (map enc_bulk (Keys r))"
      using 3 by (simp add: enc_record_def record_args_def enc_request_def verb_defs add.commute)
    ultimately show ?thesis by (auto intro!: emits_seq emits_ops dels)
  qed
qed

text \<open>A decoder of records fed the bytes of a file.\<close>

definition read_record :: "limits \<Rightarrow> bytes \<Rightarrow> aof_err + aof_record \<times> bytes" where
  "read_record lim bs =
     (case read_frame lim bs of
        Inl e \<Rightarrow> Inl (ReadErr e)
      | Inr (parts, rest) \<Rightarrow>
          (case decode_parts parts of Inl e \<Rightarrow> Inl e | Inr rec \<Rightarrow> Inr (rec, rest)))"

interpretation voc: vocabulary "fits lim" enc_request "read_frame lim" IoEOF torn_err
    "storable lim" record_args decode_parts ReadErr for lim
  by unfold_locales (auto simp: storable_def decode_record_args)

interpretation recs: framing "storable lim" enc_record "read_record lim" "ReadErr IoEOF" "ReadErr torn_err" for lim
  using voc.spelled.framing_axioms unfolding enc_record_def [abs_def] read_record_def [abs_def] .

lemma readLine_rest:
  "readLine s = Inr (line, s') \<Longrightarrow> ending s' = ending s \<and> length (input s') < length (input s)"
  by (cases "input s = []") (auto simp: readLine_def Let_def intro!: diff_less split: if_splits)

lemma ReadFull_rest:
  "ReadFull n s = Inr (bs, s') \<Longrightarrow> ending s' = ending s \<and> length (input s') \<le> length (input s)"
  by (auto simp: ReadFull_def split: if_splits)

lemma parse_bulk_rest:
  "parse_bulk lim u s = Inr (a, s') \<Longrightarrow> ending s' = ending s \<and> length (input s') \<le> length (input s)"
  by (auto simp: parse_bulk_def split: sum.splits option.splits if_splits
      dest!: readLine_rest ReadFull_rest)

lemma parse_bulks_rest:
  "parse_bulks lim n u s = Inr (args, s') \<Longrightarrow> ending s' = ending s \<and> length (input s') \<le> length (input s)"
proof (induction n arbitrary: u s args)
  case (Suc n)
  from Suc.prems obtain a s1 as where "parse_bulk lim u s = Inr (a, s1)"
    "parse_bulks lim n (u + length a) s1 = Inr (as, s')"
    by (auto split: sum.splits)
  with Suc.IH parse_bulk_rest show ?case by (metis order_trans)
qed simp

lemma parse_command_rest:
  "parse_command lim s = Inr (args, s') \<Longrightarrow> ending s' = ending s \<and> length (input s') < length (input s)"
  by (auto simp: parse_command_def split: sum.splits option.splits if_splits
      dest!: readLine_rest parse_bulks_rest)

text \<open>The decoder reads from the stream only; its buffer does not matter.\<close>

lemma Decode_at:
  assumes "src r = \<lparr>input = bs, ending = AtEOF\<rparr>"
  shows "case read_record (rlimits r) bs of
           Inl e \<Rightarrow> Decode r = Inl e
         | Inr (rec, rest) \<Rightarrow> \<exists>r'. Decode r = Inr (rec, r') \<and> src r' = \<lparr>input = rest, ending = AtEOF\<rparr>
             \<and> rlimits r' = rlimits r"
proof (cases "parse_command (rlimits r) (src r)")
  case (Inl e)
  then show ?thesis
    using ReadCommand_Inl [of r] assms by (simp add: read_record_def read_frame_parse Decode_def)
next
  case (Inr p)
  obtain parts s where p: "p = (parts, s)" by fastforce
  from ReadCommand_Inr [OF Inr [unfolded p]] obtain r' where
    r': "ReadCommand r = Inr (parts, r')" "src r' = s" "rlimits r' = rlimits r" by auto
  have "ending s = AtEOF" using parse_command_rest [OF Inr [unfolded p]] assms by simp
  then have "s = \<lparr>input = input s, ending = AtEOF\<rparr>" by simp
  then show ?thesis
    using Inr p r' assms by (auto simp: read_record_def read_frame_parse Decode_def split: sum.splits)
qed

section \<open>Properties of the codec\<close>

text \<open>
  C29: a record of the log survives its encoding. Every record the server can build, written with
  \<^const>\<open>Encode\<close> and flushed, is decoded to itself, and the decoder stops exactly behind it; the record
  has to be within the limits of the decoder.
\<close>

theorem record_round_trip:
  assumes "storable (rlimits r) rec"
    and "Encode (NewWriter acc) rec = (w, None)" and "writer_Flush w = (w', True)"
    and "src r = \<lparr>input = wout w' @ rest, ending = AtEOF\<rparr>"
  shows "\<exists>r'. Decode r = Inr (rec, r') \<and> input (src r') = rest"
proof -
  have "canonical rec" using assms(1) by (simp add: storable_def)
  from emits_encode [OF this] have "written w = enc_record rec" "\<not> wfail w"
    using emitsD [of "encode_op rec" "enc_record rec" "NewWriter acc" w True] assms(2)
    by (simp_all add: encode_op_def NewWriter_def written_def)
  with flush_all [OF assms(3)] have "wout w' = enc_record rec" by simp
  then show ?thesis
    using Decode_at [of r "enc_record rec @ rest"] recs.dec_enc [OF assms(1)] assms(4) by auto
qed

theorem record_round_trip_witness:
  "\<exists>r'. Decode (NewReader \<lparr>input = enc_record (DeriveSet ''k'' ''v'' 5000000 True), ending = AtEOF\<rparr> DefaultLimits)
     = Inr (DeriveSet ''k'' ''v'' 5000000 True, r') \<and> input (src r') = []"
proof -
  let ?rec = "DeriveSet ''k'' ''v'' 5000000 True"
  let ?w = "\<lparr>wbuf = enc_record ?rec, wout = [], wfail = False, accepts = None\<rparr>"
  let ?w' = "\<lparr>wbuf = [], wout = enc_record ?rec, wfail = False, accepts = None\<rparr>"
  have "storable DefaultLimits ?rec" "Encode (NewWriter None) ?rec = (?w, None)" "writer_Flush ?w = (?w', True)"
    by code_simp+
  then show ?thesis
    using record_round_trip [of "NewReader \<lparr>input = enc_record ?rec, ending = AtEOF\<rparr> DefaultLimits"
        ?rec None ?w ?w' "[]"]
    by (simp add: NewReader_def)
qed

lemma Uint32_inj: "length xs = length ys \<Longrightarrow> Uint32 xs = Uint32 ys \<Longrightarrow> xs = ys"
proof (induction xs arbitrary: ys rule: rev_induct)
  case (snoc c xs)
  obtain d ys' where ys: "ys = ys' @ [d]" using snoc.prems(1) by (cases ys rule: rev_cases) auto
  have eq: "Uint32 xs * 256 + of_char c = Uint32 ys' * 256 + (of_char d :: int)"
    using snoc.prems(2) ys by (simp add: Uint32_def)
  have less: "0 \<le> (of_char x :: int)" "of_char x < (256::int)" for x
  proof -
    have "(of_char x :: nat) < 256" by simp
    then have "int (of_char x) < int 256" by (simp only: of_nat_less_iff)
    then show "of_char x < (256::int)" "0 \<le> (of_char x :: int)"
      using of_nat_of_char [of x, where 'a = int] by simp_all
  qed
  have "Uint32 xs = (Uint32 xs * 256 + of_char c) div 256" using less [of c] by simp
  also have "\<dots> = Uint32 ys'" unfolding eq using less [of d] by simp
  finally have 1: "Uint32 xs = Uint32 ys'" .
  then have "of_char c = (of_char d :: int)" using eq by simp
  then have "c = d" by simp
  then show ?case using snoc.IH [of ys'] snoc.prems(1) ys 1 by simp
qed simp

lemma header_parts: "take 8 EncodeHeader = magic" "take 4 (drop 8 EncodeHeader) = PutUint32 FormatVersion"
  "Uint32 (PutUint32 FormatVersion) = FormatVersion" "length EncodeHeader = 16"
  "length (PutUint32 FormatVersion) = 4"
  by (simp_all add: EncodeHeader_def magic_def PutUint32_def FormatVersion_def Uint32_def)

text \<open>
  The header separates the three cases recovery tells apart: nothing but an empty file is
  taken for a new log, a file whose first bytes are not exactly the header of this version is
  refused, and the file this version writes is accepted and read up to the first record.
\<close>

theorem header_decides:
  "ReadHeader \<lparr>input = bs, ending = AtEOF\<rparr> =
     (if bs = [] then Inr (True, \<lparr>input = bs, ending = AtEOF\<rparr>)
      else if length bs < 16 then Inl ErrTruncatedHeader
      else if take 8 bs \<noteq> take 8 EncodeHeader then Inl ErrNotAnAOF
      else if take 4 (drop 8 bs) \<noteq> take 4 (drop 8 EncodeHeader)
        then Inl (UnsupportedVersionError (Uint32 (take 4 (drop 8 bs))) FormatVersion)
      else Inr (False, \<lparr>input = drop 16 bs, ending = AtEOF\<rparr>))"
proof (cases "length bs < 16")
  case True
  then show ?thesis by (simp add: ReadHeader_def ReadFull_def HeaderSize_def)
next
  case False
  have "Uint32 (take 4 (drop 8 bs)) = FormatVersion \<longleftrightarrow> take 4 (drop 8 bs) = PutUint32 FormatVersion"
    using Uint32_inj [of "take 4 (drop 8 bs)" "PutUint32 FormatVersion"] False by (auto simp: header_parts)
  moreover have "take 4 (drop 8 (take 16 bs)) = take 4 (drop 8 bs)"
    by (simp add: take_drop min_def)
  moreover from False have "bs \<noteq> []" by auto
  ultimately show ?thesis
    using False
    by (simp add: ReadHeader_def ReadFull_def HeaderSize_def header_parts Let_def min_def)
qed

end
