(* ===== verification/Aof_Replay.thy ===== *)
theory Aof_Replay
  imports Aof_Codec Store
begin

text \<open>
  Recovery: \<^verbatim>\<open>internal/aof/replay.go\<close> and \<^verbatim>\<open>open.go\<close>. Replay writes into anything that has the
  two operations of \<^verbatim>\<open>Applier\<close>; what it leaves there is stated against the contract
  \<open>applier\<close>, which the store satisfies. A file is its bytes; the operating system's answers
  are arguments.
\<close>

section \<open>Replay\<close>

record result =
  Records :: nat
  LastValidOffset :: int
  Truncated :: bool

type_synonym 's set_op = "'s \<Rightarrow> string \<Rightarrow> string \<Rightarrow> time \<Rightarrow> bool \<Rightarrow> 's"
type_synonym 's del_op = "'s \<Rightarrow> string \<Rightarrow> 's"

definition replay_apply :: "'s set_op \<Rightarrow> 's del_op \<Rightarrow> time \<Rightarrow> aof_record \<Rightarrow> 's \<Rightarrow> 's \<times> aof_err option" where
  "replay_apply Set Delete now rec dst =
     (if Kind rec = KindSet then
        (if \<not> HasExpiry rec then (Set dst (Key rec) (Value rec) zeroTime False, None)
         else let deadline = fromUnixMilli (ExpireAtMS rec) in
              if now < deadline then (Set dst (Key rec) (Value rec) deadline True, None)
              else (Delete dst (Key rec), None))
      else if Kind rec = KindDel then (foldl Delete dst (Keys rec), None)
      else (dst, Some (Corrupt UnknownKind)))"

text \<open>How a decoding error ends the replay: clean, torn, or refused at the last record boundary.\<close>

definition incomplete_frame :: "aof_err \<Rightarrow> bool" where
  "incomplete_frame e = (case e of ReadErr x \<Rightarrow> is_incomplete x | _ \<Rightarrow> False)"

definition replay_end :: "result \<Rightarrow> aof_err \<Rightarrow> result \<times> aof_err option" where
  "replay_end res e =
     (if e = ReadErr IoEOF then (res, None)
      else if incomplete_frame e then (res\<lparr>Truncated := True\<rparr>, None)
      else (res, Some (CorruptionError (LastValidOffset res) e)))"

lemma Decode_shorter:
  "Decode r = Inr (rec, r') \<Longrightarrow> length (input (src r')) < length (input (src r))"
proof -
  assume "Decode r = Inr (rec, r')"
  then obtain parts where "ReadCommand r = Inr (parts, r')" by (auto simp: Decode_def split: sum.splits)
  then have "parse_command (rlimits r) (src r) = Inr (parts, src r')" using ReadCommand_parse [of r] by simp
  then show ?thesis using parse_command_rest by blast
qed

text \<open>
  The loop of \<^verbatim>\<open>Replay\<close>. \<open>fsize\<close> is the size of the file, so that \<open>fsize\<close> less what the decoder has
  not consumed is \<^verbatim>\<open>counted.n - r.Buffered()\<close>.
\<close>

function replay_loop ::
  "'s set_op \<Rightarrow> 's del_op \<Rightarrow> time \<Rightarrow> int \<Rightarrow> reader \<Rightarrow> result \<Rightarrow> 's \<Rightarrow> result \<times> 's \<times> aof_err option" where
  "replay_loop Set Delete now fsize r res dst =
     (case Decode r of
        Inl e \<Rightarrow> (let (res', err) = replay_end res e in (res', dst, err))
      | Inr (rec, r') \<Rightarrow>
          (case replay_apply Set Delete now rec dst of
             (dst', Some e) \<Rightarrow> (res, dst', Some (CorruptionError (LastValidOffset res) e))
           | (dst', None) \<Rightarrow>
               replay_loop Set Delete now fsize r'
                 (res\<lparr>Records := Records res + 1, LastValidOffset := fsize - int (length (input (src r')))\<rparr>) dst'))"
  by pat_completeness auto
termination
  by (relation "measure (\<lambda>(Set, Delete, now, fsize, r, res, dst). length (input (src r)))")
    (auto dest: Decode_shorter)

declare replay_loop.simps [simp del]

definition Replay :: "'s set_op \<Rightarrow> 's del_op \<Rightarrow> time \<Rightarrow> stream \<Rightarrow> 's \<Rightarrow> result \<times> 's \<times> aof_err option" where
  "Replay Set Delete now file dst =
     (let zero = \<lparr>Records = 0, LastValidOffset = 0, Truncated = False\<rparr> in
      case ReadHeader file of
        Inl e \<Rightarrow> (zero, dst, Some e)
      | Inr (isEmpty, file') \<Rightarrow>
          if isEmpty then (zero, dst, None)
          else replay_loop Set Delete now (int (length (input file))) (NewReader file' DefaultLimits)
                 (zero\<lparr>LastValidOffset := int HeaderSize\<rparr>) dst)"

section \<open>Opening a file\<close>

record os_outcome =
  open_err :: "string option"
  read_end :: stream_end
  writeat_err :: "(nat \<times> string) option"
  truncate_err :: "string option"
  seek_err :: "string option"

definition no_faults :: os_outcome where
  "no_faults = \<lparr>open_err = None, read_end = AtEOF, writeat_err = None, truncate_err = None, seek_err = None\<rparr>"

text \<open>\<^verbatim>\<open>WriteAt\<close> at offset 0 and \<^verbatim>\<open>Truncate\<close> on the bytes of a file.\<close>

definition WriteAt0 :: "bytes \<Rightarrow> bytes \<Rightarrow> bytes" where
  "WriteAt0 w contents = w @ drop (length w) contents"

definition ftruncate :: "nat \<Rightarrow> bytes \<Rightarrow> bytes" where
  "ftruncate n contents = take n contents @ replicate (n - length contents) (CHR 0x00)"

definition OpenFile ::
  "'s set_op \<Rightarrow> 's del_op \<Rightarrow> os_outcome \<Rightarrow> time \<Rightarrow> bytes \<Rightarrow> 's \<Rightarrow> bytes \<times> result \<times> 's \<times> aof_err option" where
  "OpenFile Set Delete os now contents dst =
     (case open_err os of
        Some m \<Rightarrow> (contents, \<lparr>Records = 0, LastValidOffset = 0, Truncated = False\<rparr>, dst, Some (OsErr m))
      | None \<Rightarrow>
          (case Replay Set Delete now \<lparr>input = contents, ending = read_end os\<rparr> dst of
             (res, dst', Some e) \<Rightarrow> (contents, res, dst', Some e)
           | (res, dst', None) \<Rightarrow>
               (if LastValidOffset res = 0 \<and> writeat_err os \<noteq> None then
                  (WriteAt0 (take (fst (the (writeat_err os))) EncodeHeader) contents, res, dst',
                   Some (OsErr (snd (the (writeat_err os)))))
                else
                  let new = (LastValidOffset res = 0);
                      contents' = (if new then WriteAt0 EncodeHeader contents else contents);
                      res' = (if new then res\<lparr>LastValidOffset := int HeaderSize\<rparr> else res)
                  in case truncate_err os of
                       Some m \<Rightarrow> (contents', res', dst', Some (OsErr m))
                     | None \<Rightarrow>
                         (ftruncate (nat (LastValidOffset res')) contents', res', dst',
                          map_option OsErr (seek_err os)))))"

section \<open>What a log means\<close>

text \<open>The table a sequence of records leaves, whatever the time.\<close>

definition record_effect :: "table \<Rightarrow> aof_record \<Rightarrow> table" where
  "record_effect m rec =
     (if Kind rec = KindSet then
        m(Key rec \<mapsto> (Value rec, if HasExpiry rec then Some (fromUnixMilli (ExpireAtMS rec)) else None))
      else (\<lambda>k. if k \<in> set (Keys rec) then None else m k))"

definition log_meaning :: "aof_record list \<Rightarrow> table" where
  "log_meaning rs = foldl record_effect (\<lambda>_. None) rs"

definition replay_effect :: "'s set_op \<Rightarrow> 's del_op \<Rightarrow> time \<Rightarrow> 's \<Rightarrow> aof_record \<Rightarrow> 's" where
  "replay_effect Set Delete now dst rec = fst (replay_apply Set Delete now rec dst)"

lemma replay_apply_canonical:
  "canonical rec \<Longrightarrow> replay_apply Set Delete now rec dst = (replay_effect Set Delete now dst rec, None)"
  by (auto simp: canonical_def replay_apply_def replay_effect_def Let_def)

context applier
begin

text \<open>
  One record applied by replay has the effect of the record: an expired record removes the key
  it overwrites rather than leaving the older value.
\<close>

lemma view_replay_effect:
  assumes "\<forall>t \<ge> now. view s t = seen m t" "canonical rec"
  shows "\<forall>t \<ge> now. view (replay_effect set_op delete_op now s rec) t = seen (record_effect m rec) t"
proof (intro allI impI)
  fix t
  assume t: "now \<le> t"
  from assms t have v: "view s t = seen m t" by blast
  from assms(2) consider "Kind rec = KindSet" "\<not> HasExpiry rec"
    | "Kind rec = KindSet" "HasExpiry rec" "now < fromUnixMilli (ExpireAtMS rec)"
    | "Kind rec = KindSet" "HasExpiry rec" "fromUnixMilli (ExpireAtMS rec) \<le> now"
    | "Kind rec = KindDel"
    by (force simp: canonical_def)
  then show "view (replay_effect set_op delete_op now s rec) t = seen (record_effect m rec) t"
  proof cases
    case 1
    then show ?thesis
      by (auto simp: replay_effect_def replay_apply_def record_effect_def view_set v seen_def set_entry_def fun_eq_iff)
  next
    case 2
    then show ?thesis
      by (auto simp: replay_effect_def replay_apply_def record_effect_def view_set v seen_def set_entry_def fun_eq_iff
          Let_def)
  next
    case 3
    then show ?thesis using t
      by (auto simp: replay_effect_def replay_apply_def record_effect_def view_delete v seen_def fun_eq_iff Let_def)
  next
    case 4
    then show ?thesis
      by (auto simp: replay_effect_def replay_apply_def record_effect_def view_deletes v seen_def fun_eq_iff verb_defs)
  qed
qed

lemma view_replay_effects:
  assumes "\<forall>t \<ge> now. view s t = seen m t" "list_all canonical rs"
  shows "\<forall>t \<ge> now. view (foldl (replay_effect set_op delete_op now) s rs) t = seen (foldl record_effect m rs) t"
  using assms
proof (induction rs arbitrary: s m)
  case (Cons r rs)
  from view_replay_effect [OF Cons.prems(1)] Cons.prems(2) Cons.IH show ?case by simp
qed simp

end

section \<open>Replay over the bytes of a log\<close>

lemma replay_loop_bytes:
  assumes "list_all (storable (rlimits r)) rs" "src r = \<lparr>input = concat (map enc_record rs) @ t, ending = AtEOF\<rparr>"
    "read_record (rlimits r) t = Inl e" "fsize = LastValidOffset res + int (length (concat (map enc_record rs) @ t))"
  shows "replay_loop Set Delete now fsize r res dst =
    (let res' = res\<lparr>Records := Records res + length rs,
                    LastValidOffset := LastValidOffset res + int (length (concat (map enc_record rs)))\<rparr>
     in (fst (replay_end res' e), foldl (replay_effect Set Delete now) dst rs, snd (replay_end res' e)))"
  using assms
proof (induction rs arbitrary: r res dst)
  case Nil
  then have "Decode r = Inl e" using Decode_at [of r t] by simp
  then show ?case by (subst replay_loop.simps) (simp split: prod.splits)
next
  case (Cons rec rs)
  let ?rest = "concat (map enc_record rs) @ t"
  have ok: "storable (rlimits r) rec" "canonical rec" using Cons.prems(1) by (simp_all add: storable_def)
  have "read_record (rlimits r) (enc_record rec @ ?rest) = Inr (rec, ?rest)"
    using ok(1) by (rule recs.dec_enc)
  then obtain r' where r': "Decode r = Inr (rec, r')" "src r' = \<lparr>input = ?rest, ending = AtEOF\<rparr>"
    "rlimits r' = rlimits r"
    using Decode_at [of r "enc_record rec @ ?rest"] Cons.prems(2) by auto
  let ?res = "res\<lparr>Records := Records res + 1, LastValidOffset := fsize - int (length (input (src r')))\<rparr>"
  have step: "replay_loop Set Delete now fsize r res dst =
      replay_loop Set Delete now fsize r' ?res (replay_effect Set Delete now dst rec)"
    using r'(1) by (subst replay_loop.simps) (simp add: replay_apply_canonical [OF ok(2)])
  have off: "LastValidOffset ?res = LastValidOffset res + int (length (enc_record rec))"
    using Cons.prems(4) r'(2) by simp
  have "replay_loop Set Delete now fsize r' ?res (replay_effect Set Delete now dst rec) =
    (let res' = ?res\<lparr>Records := Records ?res + length rs,
                    LastValidOffset := LastValidOffset ?res + int (length (concat (map enc_record rs)))\<rparr>
     in (fst (replay_end res' e), foldl (replay_effect Set Delete now) (replay_effect Set Delete now dst rec) rs,
         snd (replay_end res' e)))"
    using Cons.prems r' off by (intro Cons.IH) simp_all
  also have "?res\<lparr>Records := Records ?res + length rs,
        LastValidOffset := LastValidOffset ?res + int (length (concat (map enc_record rs)))\<rparr>
      = res\<lparr>Records := Records res + length (rec # rs),
        LastValidOffset := LastValidOffset res + int (length (concat (map enc_record (rec # rs))))\<rparr>"
    unfolding off by simp
  finally show ?case using step by (simp add: Let_def)
qed

lemma ReadHeader_header:
  "ReadHeader \<lparr>input = EncodeHeader @ bs, ending = AtEOF\<rparr> = Inr (False, \<lparr>input = bs, ending = AtEOF\<rparr>)"
proof -
  have "take 4 (drop 8 EncodeHeader) = PutUint32 FormatVersion" by (rule header_parts)
  moreover have "take 16 (EncodeHeader @ bs) = EncodeHeader" by (simp add: header_parts)
  ultimately show ?thesis
    by (simp add: ReadHeader_def ReadFull_def HeaderSize_def header_parts)
qed

lemma Replay_bytes:
  assumes "list_all (storable DefaultLimits) rs" "read_record DefaultLimits t = Inl e"
  shows "Replay Set Delete now \<lparr>input = EncodeHeader @ concat (map enc_record rs) @ t, ending = AtEOF\<rparr> dst =
    (let res = \<lparr>Records = length rs, LastValidOffset = 16 + int (length (concat (map enc_record rs))), Truncated = False\<rparr>
     in (fst (replay_end res e), foldl (replay_effect Set Delete now) dst rs, snd (replay_end res e)))"
proof -
  let ?bs = "concat (map enc_record rs) @ t"
  let ?r = "NewReader \<lparr>input = ?bs, ending = AtEOF\<rparr> DefaultLimits"
  have "Replay Set Delete now \<lparr>input = EncodeHeader @ ?bs, ending = AtEOF\<rparr> dst =
      replay_loop Set Delete now (int (16 + length ?bs)) ?r
        \<lparr>Records = 0, LastValidOffset = 16, Truncated = False\<rparr> dst"
    by (simp add: Replay_def ReadHeader_header HeaderSize_def header_parts)
  also have "\<dots> = (let res' = \<lparr>Records = 0, LastValidOffset = 16, Truncated = False\<rparr>\<lparr>Records := 0 + length rs,
       LastValidOffset := 16 + int (length (concat (map enc_record rs)))\<rparr>
     in (fst (replay_end res' e), foldl (replay_effect Set Delete now) dst rs, snd (replay_end res' e)))"
    using assms by (subst replay_loop_bytes) (simp_all add: NewReader_def)
  finally show ?thesis by simp
qed

lemma replay_end_simps [simp]:
  "replay_end res (ReadErr IoEOF) = (res, None)"
  "replay_end res (ReadErr torn_err) = (res\<lparr>Truncated := True\<rparr>, None)"
  by (simp_all add: replay_end_def incomplete_frame_def torn_err_def incompleteErr_def is_incomplete_def)

text \<open>The whole frames in a prefix of a log, and what is left over.\<close>

fun whole :: "aof_record list \<Rightarrow> bytes \<Rightarrow> nat" where
  "whole [] p = 0"
| "whole (r # rs) p =
     (if length p < length (enc_record r) then 0 else Suc (whole rs (drop (length (enc_record r)) p)))"

lemma whole_le: "whole rs p \<le> length rs"
  by (induction rs p rule: whole.induct) auto

lemma whole_split:
  "prefix p (concat (map enc_record rs)) \<Longrightarrow>
   \<exists>t. p = concat (map enc_record (take (whole rs p) rs)) @ t
     \<and> (t = [] \<or> whole rs p < length rs \<and> strict_prefix t (enc_record (rs ! whole rs p)))"
proof (induction rs arbitrary: p)
  case (Cons r rs)
  from Cons.prems have "prefix p (enc_record r @ concat (map enc_record rs))" by simp
  then show ?case
  proof (cases rule: prefix_append_cases)
    case Inside
    then show ?thesis using prefix_length_less [OF Inside] by simp
  next
    case (Beyond q)
    from Cons.IH [OF Beyond(2)] Beyond(1) show ?thesis by auto
  qed
qed simp

lemma Replay_prefix:
  assumes rs: "list_all (storable DefaultLimits) rs" and p: "prefix p (concat (map enc_record rs))"
  shows "Replay Set Delete now \<lparr>input = EncodeHeader @ p, ending = AtEOF\<rparr> dst =
    (let keep = take (whole rs p) rs; size = length (concat (map enc_record keep)) in
     (\<lparr>Records = length keep, LastValidOffset = 16 + int size, Truncated = (size < length p)\<rparr>,
      foldl (replay_effect Set Delete now) dst keep, None))"
proof -
  let ?n = "whole rs p"
  define keep where "keep = take ?n rs"
  from whole_split [OF p] obtain t where t: "p = concat (map enc_record keep) @ t"
    "t = [] \<or> ?n < length rs \<and> strict_prefix t (enc_record (rs ! ?n))" by (auto simp: keep_def)
  have "list_all (storable DefaultLimits) keep"
    using rs by (auto simp: list_all_iff keep_def dest: in_set_takeD)
  moreover have "read_record DefaultLimits t = Inl (ReadErr (if t = [] then IoEOF else torn_err))"
  proof (cases "t = []")
    case False
    then have "storable DefaultLimits (rs ! ?n)" using t(2) rs by (simp add: list_all_length)
    from recs.dec_torn [OF this] t(2) False show ?thesis by simp
  qed (simp add: recs.dec_end)
  moreover have "length (concat (map enc_record keep)) < length p \<longleftrightarrow> t \<noteq> []"
    using t(1) by auto
  ultimately show ?thesis
    unfolding keep_def [symmetric] by (simp add: t(1) Replay_bytes Let_def)
qed

lemma replayed_agrees:
  assumes "list_all (storable DefaultLimits) rs"
  shows "agrees now (foldl (replay_effect store_Set (\<lambda>s k. fst (store_Delete s k)) now) store_New rs) (log_meaning rs)"
proof -
  have "list_all canonical rs" using assms by (auto simp: list_all_iff storable_def)
  from st.view_replay_effects [OF _ this, of now store_New "\<lambda>_. None"] agrees_New
  show ?thesis by (auto simp: agrees_def log_meaning_def)
qed

section \<open>Properties of recovery\<close>

text \<open>
  Recovery restores exactly the records that are whole. The log is cut at an arbitrary byte
  by a crash; replaying what is left into an empty store succeeds, counts the whole records,
  reports the offset behind the last of them and whether bytes were left over, and leaves a
  store that, from the instant of the replay on, answers as the table those records describe.
  In particular an expired record leaves its key absent and never brings back the value it
  replaced.
\<close>

theorem replay_recovers:
  assumes "list_all (storable DefaultLimits) rs" "prefix p (concat (map enc_record rs))"
  shows "\<exists>s. Replay store_Set (\<lambda>s k. fst (store_Delete s k)) now
        \<lparr>input = EncodeHeader @ p, ending = AtEOF\<rparr> store_New =
      (\<lparr>Records = whole rs p,
        LastValidOffset = 16 + int (length (concat (map enc_record (take (whole rs p) rs)))),
        Truncated = (length (concat (map enc_record (take (whole rs p) rs))) < length p)\<rparr>, s, None)
    \<and> agrees now s (log_meaning (take (whole rs p) rs))"
proof -
  let ?keep = "take (whole rs p) rs"
  let ?s = "foldl (replay_effect store_Set (\<lambda>s k. fst (store_Delete s k)) now) store_New ?keep"
  have "agrees now ?s (log_meaning ?keep)"
    using assms(1) by (intro replayed_agrees) (auto simp: list_all_iff dest: in_set_takeD)
  moreover have "length ?keep = whole rs p" using whole_le [of rs p] by simp
  ultimately show ?thesis
    using Replay_prefix [OF assms, of store_Set "\<lambda>s k. fst (store_Delete s k)" now store_New]
    by (simp add: Let_def)
qed

theorem replay_recovers_witness:
  "\<exists>s. Replay store_Set (\<lambda>s k. fst (store_Delete s k)) 0
        \<lparr>input = EncodeHeader @ enc_record (DeriveSet ''k'' ''v'' 0 False) @ ''*2'', ending = AtEOF\<rparr> store_New =
      (\<lparr>Records = 1, LastValidOffset = 16 + int (length (enc_record (DeriveSet ''k'' ''v'' 0 False))),
        Truncated = True\<rparr>, s, None)
    \<and> agrees 0 s (log_meaning [DeriveSet ''k'' ''v'' 0 False])"
proof -
  let ?r = "DeriveSet ''k'' ''v'' 0 False"
  let ?rs = "[?r, DeriveDel [''k'']]"
  let ?p = "enc_record ?r @ ''*2''"
  have "list_all (storable DefaultLimits) ?rs" "prefix ?p (concat (map enc_record ?rs))" "whole ?rs ?p = 1"
    by code_simp+
  from replay_recovers [OF this(1,2), of 0] this(3) show ?thesis by simp
qed

text \<open>
  C28: anything but a torn tail is refused. If behind some whole records the file goes on with
  bytes that the decoder rejects as malformed, or as a record it does not know, opening the log
  fails with the offset of that record, and the file is left as it was.
\<close>

theorem corrupt_refused:
  assumes "list_all (storable DefaultLimits) rs"
    and "Decode (NewReader \<lparr>input = bad, ending = AtEOF\<rparr> DefaultLimits) = Inl e"
    and "e \<noteq> ReadErr IoEOF" "\<not> incomplete_frame e"
    and "contents = EncodeHeader @ concat (map enc_record rs) @ bad"
  shows "\<exists>res dst'. OpenFile Set Delete no_faults now contents dst =
    (contents, res, dst', Some (CorruptionError (int (length (EncodeHeader @ concat (map enc_record rs)))) e))"
proof -
  from assms(2) Decode_at [of "NewReader \<lparr>input = bad, ending = AtEOF\<rparr> DefaultLimits" bad]
  have "read_record DefaultLimits bad = Inl e" by (auto simp: NewReader_def split: sum.splits)
  then have "Replay Set Delete now \<lparr>input = contents, ending = AtEOF\<rparr> dst =
      (\<lparr>Records = length rs, LastValidOffset = 16 + int (length (concat (map enc_record rs))), Truncated = False\<rparr>,
       foldl (replay_effect Set Delete now) dst rs,
       Some (CorruptionError (16 + int (length (concat (map enc_record rs)))) e))"
    unfolding assms(5) using assms(1,3,4) by (subst Replay_bytes) (auto simp: replay_end_def)
  then show ?thesis by (simp add: OpenFile_def no_faults_def header_parts)
qed

theorem corrupt_refused_witness:
  "\<exists>res dst'. OpenFile store_Set (\<lambda>s k. fst (store_Delete s k)) no_faults 0
      (EncodeHeader @ enc_request [''FLUSH'']) store_New =
    (EncodeHeader @ enc_request [''FLUSH''], res, dst',
     Some (CorruptionError 16 (Corrupt (UnknownVerb ''FLUSH''))))"
proof -
  let ?r = "NewReader \<lparr>input = enc_request [''FLUSH''], ending = AtEOF\<rparr> DefaultLimits"
  have "parse_command DefaultLimits \<lparr>input = enc_request [''FLUSH''], ending = AtEOF\<rparr>
      = Inr ([''FLUSH''], \<lparr>input = [], ending = AtEOF\<rparr>)"
    by code_simp
  from ReadCommand_Inr [of ?r, unfolded NewReader_def, simplified, OF this]
  have "Decode ?r = Inl (Corrupt (UnknownVerb ''FLUSH''))"
    by (auto simp: Decode_def NewReader_def decode_parts_def verb_defs)
  from corrupt_refused [of "[]", OF _ this _ _ refl] show ?thesis
    by (simp add: incomplete_frame_def header_parts)
qed

lemma whole_all: "whole rs (concat (map enc_record rs)) = length rs"
  by (induction rs) simp_all

lemma OpenFile_prefix:
  assumes "list_all (storable DefaultLimits) rs" "prefix p (concat (map enc_record rs))"
    and kept: "kept = EncodeHeader @ concat (map enc_record (take (whole rs p) rs))"
  shows "OpenFile Set Delete no_faults now (EncodeHeader @ p) dst =
      (kept, \<lparr>Records = whole rs p, LastValidOffset = int (length kept),
        Truncated = (length kept < length (EncodeHeader @ p))\<rparr>,
       foldl (replay_effect Set Delete now) dst (take (whole rs p) rs), None)"
proof -
  from whole_split [OF assms(2)] obtain t where
    "p = concat (map enc_record (take (whole rs p) rs)) @ t" by auto
  then have "EncodeHeader @ p = kept @ t" by (simp add: kept)
  then have "ftruncate (length kept) (EncodeHeader @ p) = kept" by (simp add: ftruncate_def)
  moreover have "min (length rs) (whole rs p) = whole rs p" using whole_le [of rs p] by simp
  moreover have "nat (16 + int (length (concat (map enc_record (take (whole rs p) rs))))) = length kept"
    by (simp add: kept header_parts nat_add_distrib)
  ultimately show ?thesis
    by (simp add: OpenFile_def no_faults_def Replay_prefix [OF assms(1,2)] Let_def) (simp add: kept header_parts)
qed

lemma OpenFile_new:
  "OpenFile Set Delete no_faults now [] dst =
     (EncodeHeader, \<lparr>Records = 0, LastValidOffset = int (length EncodeHeader), Truncated = False\<rparr>, dst, None)"
  by (simp add: OpenFile_def no_faults_def Replay_def ReadHeader_def ReadFull_def HeaderSize_def WriteAt0_def
      ftruncate_def header_parts)

text \<open>
  Opening a torn log repairs it. The file is cut back to its whole records and the log
  continues right behind them; opening the repaired file again, at any other time, finds the
  same records and nothing to cut.
\<close>

theorem open_repairs:
  assumes "list_all (storable DefaultLimits) rs" "prefix p (concat (map enc_record rs))"
    and "kept = EncodeHeader @ concat (map enc_record (take (whole rs p) rs))"
  shows "(\<exists>dst'. OpenFile Set Delete no_faults now (EncodeHeader @ p) dst =
      (kept, \<lparr>Records = whole rs p, LastValidOffset = int (length kept),
        Truncated = (length kept < length (EncodeHeader @ p))\<rparr>, dst', None))
    \<and> (\<exists>dst'. OpenFile Set Delete no_faults later kept dst =
      (kept, \<lparr>Records = whole rs p, LastValidOffset = int (length kept), Truncated = False\<rparr>, dst', None))"
proof -
  let ?keep = "take (whole rs p) rs"
  have "list_all (storable DefaultLimits) ?keep" using assms(1) by (auto simp: list_all_iff dest: in_set_takeD)
  from OpenFile_prefix [OF this prefix_order.refl, unfolded whole_all, OF refl, of Set Delete later dst]
  have "OpenFile Set Delete no_faults later kept dst =
      (kept, \<lparr>Records = length ?keep, LastValidOffset = int (length kept), Truncated = False\<rparr>,
       foldl (replay_effect Set Delete later) dst ?keep, None)"
    by (simp add: assms(3) min_absorb2 [OF whole_le])
  moreover have "length ?keep = whole rs p" using whole_le [of rs p] by simp
  ultimately show ?thesis using OpenFile_prefix [OF assms, of Set Delete now dst] by simp
qed

theorem open_repairs_witness:
  "\<exists>dst'. OpenFile store_Set (\<lambda>s k. fst (store_Delete s k)) no_faults 0 (EncodeHeader @ ''*3'') store_New =
      (EncodeHeader, \<lparr>Records = 0, LastValidOffset = 16, Truncated = True\<rparr>, dst', None)"
proof -
  let ?rs = "[DeriveSet ''k'' ''v'' 0 False]"
  have "list_all (storable DefaultLimits) ?rs" "prefix ''*3'' (concat (map enc_record ?rs))" "whole ?rs ''*3'' = 0"
    by code_simp+
  from open_repairs [OF this(1,2) refl, of store_Set "\<lambda>s k. fst (store_Delete s k)" 0 store_New 0] this(3)
  show ?thesis by (simp add: header_parts)
qed

section \<open>A record past the limits of recovery\<close>



end
