(* ===== verification/Aof_Log.thy ===== *)
theory Aof_Log
  imports Aof_Replay
begin

text \<open>
  The log itself: \<^verbatim>\<open>internal/aof/log.go\<close>. Each critical section under \<^verbatim>\<open>l.mu\<close> is a definition on
  the state of the log; the file is a parameter with the two operations the writer calls. The
  sequential writer, \<open>log_flush\<close>, is here; the interleaving of the writer with the clients is in
  the theory of durability. Sequence numbers are natural numbers: a uint64 that grows by one per
  record does not wrap in the life of a process.
\<close>

section \<open>State\<close>

datatype policy = EverySec | Always

text \<open>The policies in the order of what an acknowledgement promises.\<close>

instantiation policy :: linorder
begin

definition less_eq_policy :: "policy \<Rightarrow> policy \<Rightarrow> bool" where
  "less_eq_policy p q \<longleftrightarrow> p = EverySec \<or> q = Always"

definition less_policy :: "policy \<Rightarrow> policy \<Rightarrow> bool" where
  "less_policy p q \<longleftrightarrow> p = EverySec \<and> q = Always"

instance
proof
  fix p q r :: policy
  show "p < q \<longleftrightarrow> p \<le> q \<and> \<not> q \<le> p" "p \<le> p" "p \<le> q \<Longrightarrow> q \<le> r \<Longrightarrow> p \<le> r" "p \<le> q \<Longrightarrow> q \<le> p \<Longrightarrow> p = q"
    "p \<le> q \<or> q \<le> p"
    by (cases p; cases q; cases r; simp add: less_eq_policy_def less_policy_def)+
qed

end

datatype log_err =
    ErrFailed string
  | ErrClosed
  | LogAof aof_err

text \<open>
  \<open>lw\<close> is \<^verbatim>\<open>l.w\<close>, whose sink is \<^verbatim>\<open>l.buf\<close>: what the writer has delivered is the contents of the
  buffer. \<open>notified\<close> is the channel \<^verbatim>\<open>l.notify\<close> of capacity one, \<open>closeCh\<close> the closed state of
  \<^verbatim>\<open>l.closeCh\<close>; \<open>fatalCalls\<close> are the errors \<^verbatim>\<open>onFatal\<close> was called with, and \<^verbatim>\<open>fatalOnce\<close> has fired
  when there is one.
\<close>

record log =
  lpolicy :: policy
  lw :: writer
  lrecords :: "(nat \<times> nat) list"
  nextSeq :: nat
  appended :: nat
  written_seq :: nat
  synced :: nat
  failed :: "log_err option"
  closing :: bool
  closed :: bool
  notified :: bool
  closeCh :: bool
  fatalCalls :: "log_err list"

definition log_Open :: "policy \<Rightarrow> log" where
  "log_Open p =
     \<lparr>lpolicy = p, lw = NewWriter None, lrecords = [], nextSeq = 0, appended = 0, written_seq = 0, synced = 0,
      failed = None, closing = False, closed = False, notified = False, closeCh = False, fatalCalls = []\<rparr>"

abbreviation lbuf :: "log \<Rightarrow> bytes" where
  "lbuf l \<equiv> wout (lw l)"

section \<open>The clients\<close>

definition log_Append :: "log \<Rightarrow> aof_record \<Rightarrow> log \<times> (log_err + nat)" where
  "log_Append l r =
     (case failed l of
        Some e \<Rightarrow> (l, Inl e)
      | None \<Rightarrow>
          if closing l \<or> closed l then (l, Inl ErrClosed)
          else
            let before = length (lbuf l);
                (w1, e) = Encode (lw l) r
            in case e of
                 Some err \<Rightarrow> (l\<lparr>lw := w1\<rparr>, Inl (LogAof err))
               | None \<Rightarrow>
                   let (w2, ok) = writer_Flush w1 in
                   if \<not> ok then (l\<lparr>lw := w2\<rparr>, Inl (LogAof WriteErr))
                   else if length (wout w2) = before then (l\<lparr>lw := w2\<rparr>, Inl (LogAof (Corrupt NoBytes)))
                   else
                     let seq = nextSeq l + 1
                     in (l\<lparr>lw := w2, nextSeq := seq, appended := seq,
                           lrecords := lrecords l @ [(seq, length (wout w2))], notified := True\<rparr>, Inr seq))"

definition reached :: "log \<Rightarrow> nat \<Rightarrow> policy \<Rightarrow> bool" where
  "reached l seq p = (if p = Always then synced l \<ge> seq else written_seq l \<ge> seq)"

text \<open>
  One turn of the loop of \<^verbatim>\<open>Await\<close>, with the mutex held: \<open>None\<close> goes back to \<^verbatim>\<open>cond.Wait\<close>, otherwise
  the call returns, with an error or without.
\<close>

definition log_Await :: "log \<Rightarrow> nat \<Rightarrow> policy \<Rightarrow> log_err option option" where
  "log_Await l seq p =
     (case failed l of
        Some e \<Rightarrow> Some (Some e)
      | None \<Rightarrow>
          if reached l seq p then Some None
          else if closed l then Some (Some ErrClosed)
          else None)"

lemma reached_weaker: "synced l \<le> written_seq l \<Longrightarrow> p \<le> q \<Longrightarrow> reached l seq q \<Longrightarrow> reached l seq p"
  by (cases p; cases q) (simp_all add: reached_def less_eq_policy_def)

lemma Await_weaker:
  "synced l \<le> written_seq l \<Longrightarrow> p \<le> q \<Longrightarrow> log_Await l seq q = Some None \<Longrightarrow> log_Await l seq p = Some None"
  using reached_weaker [of l p q seq] by (auto simp: log_Await_def split: if_splits option.splits)

definition log_Markers :: "log \<Rightarrow> nat \<times> nat \<times> nat" where
  "log_Markers l = (appended l, written_seq l, synced l)"

definition log_Failed :: "log \<Rightarrow> log_err option" where
  "log_Failed l = failed l"

text \<open>The two effects of \<^verbatim>\<open>Close\<close>: the mark under the mutex, then the closed channel, once.\<close>

definition close_mark :: "log \<Rightarrow> log" where
  "close_mark l = l\<lparr>closing := True\<rparr>"

definition close_signal :: "log \<Rightarrow> log" where
  "close_signal l = l\<lparr>closeCh := True\<rparr>"

section \<open>The writer\<close>

type_synonym 'f write_fn = "'f \<Rightarrow> bytes \<Rightarrow> 'f \<times> int \<times> string option"
type_synonym 'f sync_fn = "'f \<Rightarrow> 'f \<times> string option"

function writeFull :: "'f write_fn \<Rightarrow> 'f \<Rightarrow> bytes \<Rightarrow> int \<Rightarrow> 'f \<times> int \<times> string option" where
  "writeFull Write f p total_n =
     (if total_n < int (length p) then
        (case Write f (drop (nat total_n) p) of
           (f', n, err) \<Rightarrow>
             if n < 0 then (f', total_n, Some ''aof: writer returned a negative count'')
             else if err \<noteq> None then (f', total_n + n, err)
             else if n = 0 then (f', total_n + n, Some ''aof: writer made no progress'')
             else writeFull Write f' p (total_n + n))
      else (f, total_n, None))"
  by pat_completeness auto
termination
  by (relation "measure (\<lambda>(Write, f, p, total_n). nat (int (length p) - total_n))") auto

declare writeFull.simps [simp del]

fun written_loop :: "(nat \<times> nat) list \<Rightarrow> int \<Rightarrow> nat \<Rightarrow> nat" where
  "written_loop [] n w = w"
| "written_loop ((seq, stop) # rs) n w = (if int stop > n then w else written_loop rs n seq)"

definition advanceWritten :: "log \<Rightarrow> (nat \<times> nat) list \<Rightarrow> int \<Rightarrow> log" where
  "advanceWritten l rs n = l\<lparr>written_seq := written_loop rs n (written_seq l)\<rparr>"

definition advanceSynced :: "log \<Rightarrow> log" where
  "advanceSynced l = l\<lparr>synced := written_seq l\<rparr>"

definition log_fail :: "log \<Rightarrow> string \<Rightarrow> log" where
  "log_fail l err =
     (let f = (case failed l of None \<Rightarrow> ErrFailed err | Some e \<Rightarrow> e)
      in l\<lparr>failed := Some f, fatalCalls := (if fatalCalls l = [] then [f] else fatalCalls l)\<rparr>)"

definition log_finish :: "log \<Rightarrow> log" where
  "log_finish l = l\<lparr>closed := True\<rparr>"

text \<open>The first critical section of \<^verbatim>\<open>flush\<close>: the batch is swapped out.\<close>

definition swap_batch :: "log \<Rightarrow> log \<times> bytes \<times> (nat \<times> nat) list" where
  "swap_batch l = (l\<lparr>lw := (lw l)\<lparr>wout := []\<rparr>, lrecords := []\<rparr>, lbuf l, lrecords l)"

definition flush_sync :: "'f sync_fn \<Rightarrow> 'f \<Rightarrow> log \<Rightarrow> bool \<Rightarrow> 'f \<times> log" where
  "flush_sync Sync f l forceSync =
     (if \<not> forceSync \<and> lpolicy l \<noteq> Always then (f, l)
      else case Sync f of
             (f', Some err) \<Rightarrow> (f', log_fail l err)
           | (f', None) \<Rightarrow> (f', advanceSynced l))"

definition log_flush :: "'f write_fn \<Rightarrow> 'f sync_fn \<Rightarrow> 'f \<Rightarrow> log \<Rightarrow> bool \<Rightarrow> 'f \<times> log" where
  "log_flush Write Sync f l forceSync =
     (if failed l \<noteq> None then (f, l)
      else
        let (l1, batch, recs) = swap_batch l in
        if batch \<noteq> [] then
          (case writeFull Write f batch 0 of
             (f', n, err) \<Rightarrow>
               let l2 = advanceWritten l1 recs n in
               case err of
                 Some m \<Rightarrow> (f', log_fail l2 m)
               | None \<Rightarrow> flush_sync Sync f' l2 forceSync)
        else flush_sync Sync f l1 forceSync)"

section \<open>What the writer relies on of the file\<close>

text \<open>
  The documented behaviour of a file opened for appending: \<^verbatim>\<open>Write\<close> reports how many bytes it has
  appended, and \<^verbatim>\<open>Sync\<close> without an error makes durable everything written so far. \<open>contents\<close> is what
  the operating system holds, \<open>durable\<close> what a power failure leaves at least.
\<close>

definition file_contract :: "'f write_fn \<Rightarrow> 'f sync_fn \<Rightarrow> ('f \<Rightarrow> bytes) \<Rightarrow> ('f \<Rightarrow> bytes) \<Rightarrow> bool" where
  "file_contract Write Sync contents durable \<longleftrightarrow>
     (\<forall>f p f' n e. Write f p = (f', n, e) \<longrightarrow>
        0 \<le> n \<and> n \<le> int (length p) \<and> contents f' = contents f @ take (nat n) p \<and> prefix (durable f) (durable f'))
   \<and> (\<forall>f f' e. Sync f = (f', e) \<longrightarrow>
        contents f' = contents f \<and> prefix (durable f) (durable f') \<and> (e = None \<longrightarrow> durable f' = contents f))"

lemma file_contractW:
  "file_contract Write Sync contents durable \<Longrightarrow> Write f p = (f', n, e) \<Longrightarrow>
   0 \<le> n \<and> n \<le> int (length p) \<and> contents f' = contents f @ take (nat n) p \<and> prefix (durable f) (durable f')"
  unfolding file_contract_def by blast

lemma file_contractS:
  "file_contract Write Sync contents durable \<Longrightarrow> Sync f = (f', e) \<Longrightarrow>
   contents f' = contents f \<and> prefix (durable f) (durable f') \<and> (e = None \<longrightarrow> durable f' = contents f)"
  unfolding file_contract_def by blast

text \<open>The loop delivers a prefix, all of it unless it reports an error.\<close>

lemma writeFull_delivers:
  assumes "file_contract Write Sync contents durable" "0 \<le> d" "d \<le> int (length p)"
    "writeFull Write f p d = (f', n, e)"
  shows "d \<le> n \<and> n \<le> int (length p) \<and> contents f' = contents f @ take (nat (n - d)) (drop (nat d) p)
    \<and> prefix (durable f) (durable f') \<and> (e = None \<longrightarrow> n = int (length p))"
  using assms
proof (induction Write f p d rule: writeFull.induct)
  case (1 W g p d)
  show ?case
  proof (cases "d < int (length p)")
    case False
    then have "f' = g" "n = d" "e = None" using 1(5) by (simp_all add: writeFull.simps [of W g])
    then show ?thesis using False 1(4) by simp
  next
    case True
    obtain g1 m e1 where W: "W g (drop (nat d) p) = (g1, m, e1)" by (metis prod_cases3)
    from file_contractW [OF 1(2) W] 1(3) True
    have c: "0 \<le> m" "m \<le> int (length p) - d" "contents g1 = contents g @ take (nat m) (drop (nat d) p)"
      "prefix (durable g) (durable g1)" by (auto simp: of_nat_diff nat_le_iff)
    show ?thesis
    proof (cases "e1 \<noteq> None \<or> m = 0")
      case stop: True
      then have "f' = g1" "n = d + m" "e \<noteq> None"
        using 1(5) W True c(1) by (auto simp: writeFull.simps [of W g] split: if_splits)
      then show ?thesis using c by auto
    next
      case go: False
      then have rest: "writeFull W g1 p (d + m) = (f', n, e)"
        using 1(5) W True c(1) by (simp add: writeFull.simps [of W g])
      have IH: "d + m \<le> n \<and> n \<le> int (length p)
          \<and> contents f' = contents g1 @ take (nat (n - (d + m))) (drop (nat (d + m)) p)
          \<and> prefix (durable g1) (durable f') \<and> (e = None \<longrightarrow> n = int (length p))"
        using 1(1) [OF True W [symmetric] refl] go c 1(2,3) rest by simp
      have "nat (n - d) = nat m + nat (n - (d + m))" "nat (d + m) = nat m + nat d"
        using IH c(1) 1(3) by linarith+
      then have "take (nat (n - d)) (drop (nat d) p) =
          take (nat m) (drop (nat d) p) @ take (nat (n - (d + m))) (drop (nat (d + m)) p)"
        by (simp add: take_add)
      then show ?thesis using IH c by (auto intro: prefix_order.trans)
    qed
  qed
qed

section \<open>Markers and batches\<close>

text \<open>The pending list of a batch: consecutive sequence numbers and the cumulative ends.\<close>

fun pend :: "nat \<Rightarrow> nat \<Rightarrow> aof_record list \<Rightarrow> (nat \<times> nat) list" where
  "pend seq at [] = []"
| "pend seq at (r # rs) = (seq + 1, at + length (enc_record r)) # pend (seq + 1) (at + length (enc_record r)) rs"

abbreviation enc_all :: "aof_record list \<Rightarrow> bytes" where
  "enc_all rs \<equiv> concat (map enc_record rs)"

lemma length_pend [simp]: "length (pend seq at rs) = length rs"
  by (induction rs arbitrary: seq at) simp_all

lemma pend_snoc: "pend seq at (rs @ [r]) = pend seq at rs @ [(seq + length rs + 1, at + length (enc_all (rs @ [r])))]"
  by (induction rs arbitrary: seq at) simp_all

text \<open>The marker moves behind the last record of the batch that is delivered entirely.\<close>

lemma written_loop_pend:
  "int at \<le> n \<Longrightarrow> n \<le> int (at + length (enc_all rs)) \<Longrightarrow>
   written_loop (pend seq at rs) n seq = seq + whole rs (take (nat n - at) (enc_all rs))"
proof (induction rs arbitrary: seq at)
  case (Cons r rs)
  show ?case
  proof (cases "int (at + length (enc_record r)) > n")
    case True
    then show ?thesis using Cons.prems(1) by (simp add: nat_less_iff min_def)
  next
    case False
    let ?at = "at + length (enc_record r)"
    have "nat n - at = length (enc_record r) + (nat n - ?at)" using False by simp
    then have "take (nat n - at) (enc_all (r # rs)) = enc_record r @ take (nat n - ?at) (enc_all rs)"
      by simp
    moreover have "written_loop (pend (seq + 1) ?at rs) n (seq + 1) = seq + 1 + whole rs (take (nat n - ?at) (enc_all rs))"
      using Cons.IH [of ?at "seq + 1"] Cons.prems(2) False by simp
    ultimately show ?thesis using False by simp
  qed
qed simp

end
