(* ===== verification/Engine.thy ===== *)
theory Engine
  imports Scan_Sessions Aof_Log
begin

text \<open>
  The engine: \<^verbatim>\<open>internal/engine/engine.go\<close>, \<^verbatim>\<open>incr.go\<close> and \<^verbatim>\<open>discovery.go\<close>. Each critical section
  under \<^verbatim>\<open>e.mu\<close> is one definition, the mutations in two parts as in the source: the closure that runs
  under the lock (\<open>_locked\<close>) and the wait for durability after it. The reading of the clock, the
  order of a map visit and the answers of the token source are arguments. \<open>later\<close> says what the log
  has become when \<^verbatim>\<open>Await\<close> takes its decision; an outcome \<open>None\<close> is a call that is still waiting.
\<close>

section \<open>State\<close>

datatype engine_err =
    ErrDraining
  | ErrPersistenceUnavailable log_err
  | ErrLog log_err
  | ErrNotAnInteger
  | ErrIncrOverflow

record TTL =
  ttl_d :: duration
  ttl_set :: bool

definition NoExpiry :: TTL where
  "NoExpiry = \<lparr>ttl_d = 0, ttl_set = False\<rparr>"

definition ExpiresIn :: "duration \<Rightarrow> TTL" where
  "ExpiresIn d = \<lparr>ttl_d = d, ttl_set = True\<rparr>"

record engine =
  estore :: store
  acceptingMutations :: bool
  scanSessions :: scanSessionManager
  elog :: "log option"
  epolicy :: policy
  appliedSeq :: nat

definition engine_New :: engine where
  "engine_New =
     \<lparr>estore = store_New, acceptingMutations = True,
      scanSessions = newScanSessionManager defaultScanSessionLimits,
      elog = None, epolicy = EverySec, appliedSeq = 0\<rparr>"

text \<open>\<open>None\<close> is the panic of a second log.\<close>

definition AttachLog :: "engine \<Rightarrow> log \<Rightarrow> policy \<Rightarrow> engine option" where
  "AttachLog e l p = (if elog e \<noteq> None then None else Some (e\<lparr>elog := Some l, epolicy := p\<rparr>))"

definition OpenLog ::
  "os_outcome \<Rightarrow> time \<Rightarrow> bytes \<Rightarrow> engine \<Rightarrow> policy \<Rightarrow> (bytes \<times> engine \<times> result \<times> aof_err option) option" where
  "OpenLog os now contents e p =
     (if elog e \<noteq> None then None
      else case OpenFile store_Set (\<lambda>s k. fst (store_Delete s k)) os now contents (estore e) of
             (contents', res, s', Some err) \<Rightarrow> Some (contents', e\<lparr>estore := s'\<rparr>, res, Some err)
           | (contents', res, s', None) \<Rightarrow>
               Some (contents', e\<lparr>estore := s', elog := Some (log_Open p), epolicy := p\<rparr>, res, None))"

text \<open>\<^verbatim>\<open>Finalize\<close> marks the log as closing and signals its writer; the wait is the log's.\<close>

definition Finalize_start :: "engine \<Rightarrow> engine" where
  "Finalize_start e = (case elog e of None \<Rightarrow> e | Some l \<Rightarrow> e\<lparr>elog := Some (close_signal (close_mark l))\<rparr>)"

section \<open>The commit path\<close>

fun is_ErrFailed :: "log_err \<Rightarrow> bool" where
  "is_ErrFailed (ErrFailed _) = True"
| "is_ErrFailed _ = False"

definition commit :: "engine \<Rightarrow> log \<Rightarrow> aof_record \<Rightarrow> (store \<Rightarrow> store) \<Rightarrow> engine \<times> (engine_err + nat)" where
  "commit e l rec apply_fn =
     (case log_Append l rec of
        (l', Inl err) \<Rightarrow>
          (e\<lparr>elog := Some l'\<rparr>, Inl (if is_ErrFailed err then ErrPersistenceUnavailable err else ErrLog err))
      | (l', Inr seq) \<Rightarrow> (e\<lparr>elog := Some l', estore := apply_fn (estore e), appliedSeq := seq\<rparr>, Inr seq))"

definition commitSet ::
  "engine \<Rightarrow> string \<Rightarrow> string \<Rightarrow> time \<Rightarrow> bool \<Rightarrow> (store \<Rightarrow> store) \<Rightarrow> engine \<times> (engine_err + nat)" where
  "commitSet e key val deadline hasTTL apply_fn =
     (case elog e of
        None \<Rightarrow> (e\<lparr>estore := apply_fn (estore e)\<rparr>, Inr 0)
      | Some l \<Rightarrow> commit e l (DeriveSet key val deadline hasTTL) apply_fn)"

definition commitDel :: "engine \<Rightarrow> string list \<Rightarrow> (store \<Rightarrow> store) \<Rightarrow> engine \<times> (engine_err + nat)" where
  "commitDel e keys apply_fn =
     (case elog e of
        None \<Rightarrow> (e\<lparr>estore := apply_fn (estore e)\<rparr>, Inr 0)
      | Some l \<Rightarrow> commit e l (DeriveDel keys) apply_fn)"

definition await :: "engine \<Rightarrow> (log \<Rightarrow> log) \<Rightarrow> nat \<Rightarrow> engine_err option option" where
  "await e later seq =
     (case elog e of
        None \<Rightarrow> Some None
      | Some l \<Rightarrow>
          if seq = 0 then Some None
          else map_option (map_option ErrPersistenceUnavailable) (log_Await (later l) seq (epolicy e)))"

section \<open>Reads\<close>

definition readNow :: "engine \<Rightarrow> time \<Rightarrow> time" where
  "readNow e now = (if \<not> store_HasExpirations (estore e) then zeroTime else now)"

definition engine_Get :: "engine \<Rightarrow> time \<Rightarrow> string \<Rightarrow> string option" where
  "engine_Get e now key = store_Get (estore e) key (readNow e now)"

definition engine_MGet :: "engine \<Rightarrow> time \<Rightarrow> string list \<Rightarrow> string option list" where
  "engine_MGet e now keys =
     (let at = readNow e now in foldl (\<lambda>out k. out @ [store_Get (estore e) k at]) [] keys)"

definition engine_Exists :: "engine \<Rightarrow> time \<Rightarrow> string list \<Rightarrow> int" where
  "engine_Exists e now keys =
     (let at = readNow e now
      in foldl (\<lambda>n k. if store_Get (estore e) k at \<noteq> None then n + 1 else n) 0 keys)"

definition engine_TTL :: "engine \<Rightarrow> time \<Rightarrow> string \<Rightarrow> duration \<times> TTLStatus" where
  "engine_TTL e now key =
     (case store_TTL (estore e) key (readNow e now) of
        (d, HasTTL) \<Rightarrow> (d, HasTTL)
      | (d, NoTTL) \<Rightarrow> (0, NoTTL)
      | (d, NoKey) \<Rightarrow> (0, NoKey))"

definition engine_DBSize :: "string ranger \<Rightarrow> engine \<Rightarrow> time \<Rightarrow> nat" where
  "engine_DBSize rng e now = store_Len rng (estore e) (readNow e now)"

definition physicalLen :: "engine \<Rightarrow> nat" where
  "physicalLen e = store_PhysicalLen (estore e)"

section \<open>Mutations\<close>

definition Set_locked :: "engine \<Rightarrow> time \<Rightarrow> string \<Rightarrow> string \<Rightarrow> TTL \<Rightarrow> engine \<times> (engine_err + nat)" where
  "Set_locked e now key val t =
     (if \<not> acceptingMutations e then (e, Inl ErrDraining)
      else
        let deadline = (if ttl_set t then time_Add now (ttl_d t) else zeroTime)
        in commitSet e key val deadline (ttl_set t) (\<lambda>s. store_Set s key val deadline (ttl_set t)))"

definition engine_Set ::
  "(log \<Rightarrow> log) \<Rightarrow> engine \<Rightarrow> time \<Rightarrow> string \<Rightarrow> string \<Rightarrow> TTL \<Rightarrow> engine \<times> engine_err option option" where
  "engine_Set later e now key val t =
     (case Set_locked e now key val t of
        (e', Inl err) \<Rightarrow> (e', Some (Some err))
      | (e', Inr seq) \<Rightarrow> (e', await e' later seq))"

text \<open>The first component of the outcome is \<^verbatim>\<open>applied\<close>, the variable the closure assigns.\<close>

definition Expire_locked :: "engine \<Rightarrow> time \<Rightarrow> string \<Rightarrow> duration \<Rightarrow> engine \<times> bool \<times> (engine_err + nat)" where
  "Expire_locked e now key d =
     (if \<not> acceptingMutations e then (e, False, Inl ErrDraining)
      else case store_Get (estore e) key now of
             None \<Rightarrow> (e, False, Inr 0)
           | Some val \<Rightarrow>
               let deadline = time_Add now d;
                   (e', r) = commitSet e key val deadline True (\<lambda>s. fst (store_Expire s key deadline now))
               in (e', True, r))"

definition engine_Expire ::
  "(log \<Rightarrow> log) \<Rightarrow> engine \<Rightarrow> time \<Rightarrow> string \<Rightarrow> duration \<Rightarrow> engine \<times> (bool \<times> engine_err option) option" where
  "engine_Expire later e now key d =
     (case Expire_locked e now key d of
        (e', applied, Inl err) \<Rightarrow> (e', Some (False, Some err))
      | (e', applied, Inr seq) \<Rightarrow>
          if \<not> applied then (e', Some (False, None))
          else (e', map_option (Pair True) (await e' later seq)))"

definition Persist_locked :: "engine \<Rightarrow> time \<Rightarrow> string \<Rightarrow> engine \<times> bool \<times> (engine_err + nat)" where
  "Persist_locked e now key =
     (if \<not> acceptingMutations e then (e, False, Inl ErrDraining)
      else case store_Get (estore e) key now of
             None \<Rightarrow> (e, False, Inr 0)
           | Some val \<Rightarrow>
               if snd (store_TTL (estore e) key now) \<noteq> HasTTL then (e, False, Inr 0)
               else
                 let (e', r) = commitSet e key val zeroTime False (\<lambda>s. fst (store_Persist s key now))
                 in (e', True, r))"

definition engine_Persist ::
  "(log \<Rightarrow> log) \<Rightarrow> engine \<Rightarrow> time \<Rightarrow> string \<Rightarrow> engine \<times> (bool \<times> engine_err option) option" where
  "engine_Persist later e now key =
     (case Persist_locked e now key of
        (e', removed, Inl err) \<Rightarrow> (e', Some (False, Some err))
      | (e', removed, Inr seq) \<Rightarrow>
          if \<not> removed then (e', Some (False, None))
          else (e', map_option (Pair True) (await e' later seq)))"

fun live_loop :: "store \<Rightarrow> time \<Rightarrow> string list \<Rightarrow> string fset \<Rightarrow> string list \<Rightarrow> string list" where
  "live_loop s now [] done_keys live = live"
| "live_loop s now (k # ks) done_keys live =
     (if k |\<in>| done_keys then live_loop s now ks done_keys live
      else live_loop s now ks (finsert k done_keys)
             (if store_Get s k now \<noteq> None then live @ [k] else live))"

definition delete_all :: "store \<Rightarrow> string list \<Rightarrow> store" where
  "delete_all s keys = foldl (\<lambda>s k. fst (store_Delete s k)) s keys"

definition Delete_locked :: "engine \<Rightarrow> time \<Rightarrow> string list \<Rightarrow> engine \<times> int \<times> (engine_err + nat)" where
  "Delete_locked e now keys =
     (if \<not> acceptingMutations e then (e, 0, Inl ErrDraining)
      else
        let live = live_loop (estore e) (readNow e now) keys {||} [];
            removed = int (length live)
        in if removed = 0 then (e\<lparr>estore := delete_all (estore e) keys\<rparr>, removed, Inr 0)
           else let (e', r) = commitDel e live (\<lambda>s. delete_all s keys) in (e', removed, r))"

definition engine_Delete ::
  "(log \<Rightarrow> log) \<Rightarrow> engine \<Rightarrow> time \<Rightarrow> string list \<Rightarrow> engine \<times> (int \<times> engine_err option) option" where
  "engine_Delete later e now keys =
     (case Delete_locked e now keys of
        (e', removed, Inl err) \<Rightarrow> (e', Some (0, Some err))
      | (e', removed, Inr seq) \<Rightarrow> (e', map_option (Pair removed) (await e' later seq)))"

definition parseStoredInt :: "string \<Rightarrow> int option" where
  "parseStoredInt s =
     (if s = [] then None
      else if s = ''0'' then Some 0
      else
        let digits = (if hd s = CHR ''-'' then tl s else s) in
        if digits = [] \<or> byte (hd digits) < byte CHR ''1'' \<or> byte (hd digits) > byte CHR ''9'' then None
        else if list_ex (\<lambda>c. byte c < byte CHR ''0'' \<or> byte c > byte CHR ''9'') digits then None
        else ParseInt s)"

definition IncrBy_locked :: "engine \<Rightarrow> time \<Rightarrow> string \<Rightarrow> int \<Rightarrow> engine \<times> int \<times> (engine_err + nat)" where
  "IncrBy_locked e now key delta =
     (if \<not> acceptingMutations e then (e, 0, Inl ErrDraining)
      else
        let val = store_Get (estore e) key (readNow e now) in
        case (case val of None \<Rightarrow> Some 0 | Some v \<Rightarrow> parseStoredInt v) of
          None \<Rightarrow> (e, 0, Inl ErrNotAnInteger)
        | Some current \<Rightarrow>
            if delta > 0 \<and> current > wrap64 (maxInt64 - delta) \<or> delta < 0 \<and> current < wrap64 (minInt64 - delta)
            then (e, 0, Inl ErrIncrOverflow)
            else
              let result = wrap64 (current + delta);
                  txt = FormatInt result;
                  held = (if val \<noteq> None then store_ExpiresAt (estore e) key else None);
                  deadline = (case held of None \<Rightarrow> zeroTime | Some d \<Rightarrow> d);
                  hasTTL = (held \<noteq> None);
                  (e', r) = commitSet e key txt deadline hasTTL (\<lambda>s. store_Set s key txt deadline hasTTL)
              in (e', result, r))"

definition engine_IncrBy ::
  "(log \<Rightarrow> log) \<Rightarrow> engine \<Rightarrow> time \<Rightarrow> string \<Rightarrow> int \<Rightarrow> engine \<times> (int \<times> engine_err option) option" where
  "engine_IncrBy later e now key delta =
     (case IncrBy_locked e now key delta of
        (e', result, Inl err) \<Rightarrow> (e', Some (0, Some err))
      | (e', result, Inr seq) \<Rightarrow> (e', map_option (Pair result) (await e' later seq)))"

definition BeginDrain :: "engine \<Rightarrow> engine" where
  "BeginDrain e = e\<lparr>acceptingMutations := False\<rparr>"

definition expirationInterval :: duration where
  "expirationInterval = 100 * nsPerMs"

definition expirationSample :: int where
  "expirationSample = 20"

definition reclaimOnce :: "string ranger \<Rightarrow> engine \<Rightarrow> time \<Rightarrow> engine \<times> int \<times> int" where
  "reclaimOnce rng e now =
     (case store_ReclaimExpired rng (estore e) now expirationSample of
        (s', removed, examined) \<Rightarrow> (e\<lparr>estore := s'\<rparr>, removed, examined))"

section \<open>Discovery\<close>

record ScanRequest =
  rCursor :: "64 word"
  rPattern :: string
  rPatternSet :: bool
  rCount :: "64 word"

definition snapshotLiveKeys :: "string ranger \<Rightarrow> engine \<Rightarrow> time \<Rightarrow> string list" where
  "snapshotLiveKeys rng e now = store_LiveKeys rng (estore e) (readNow e now)"

definition captureLiveKeys :: "string ranger \<Rightarrow> engine \<Rightarrow> time \<Rightarrow> string list \<times> time" where
  "captureLiveKeys rng e now = (store_LiveKeys rng (estore e) now, now)"

definition sortSnapshot :: "string list \<Rightarrow> string list" where
  "sortSnapshot keys = sort keys"

text \<open>
  The loop compacts the slice in place: \<open>arr\<close> is the backing array, \<open>i\<close> the element being read,
  \<open>n\<close> the length of \<^verbatim>\<open>out\<close>. Afterwards the tail is cleared.
\<close>

function filter_loop :: "string \<Rightarrow> string list \<Rightarrow> nat \<Rightarrow> nat \<Rightarrow> string list \<times> nat" where
  "filter_loop pattern arr i n =
     (if i < length arr then
        (if glob_Match pattern (arr ! i) then filter_loop pattern (arr[n := arr ! i]) (i + 1) (n + 1)
         else filter_loop pattern arr (i + 1) n)
      else (arr, n))"
  by pat_completeness auto
termination by (relation "measure (\<lambda>(pattern, arr, i, n). length arr - i)") auto

declare filter_loop.simps [simp del]

text \<open>The result and what the backing array holds behind it.\<close>

definition filterSnapshot :: "string list \<Rightarrow> string \<Rightarrow> string list \<times> string list" where
  "filterSnapshot keys pattern =
     (case filter_loop pattern keys 0 0 of (arr, n) \<Rightarrow> (take n arr, replicate (length arr - n) []))"

definition engine_Keys :: "string ranger \<Rightarrow> engine \<Rightarrow> time \<Rightarrow> string \<Rightarrow> string list" where
  "engine_Keys rng e now pattern = fst (filterSnapshot (sortSnapshot (snapshotLiveKeys rng e now)) pattern)"

text \<open>
  \<^verbatim>\<open>cap(keys)\<close> of the snapshot is the number of entries of the data map, which \<^verbatim>\<open>LiveKeys\<close> makes room
  for; filtering keeps the backing array.
\<close>

definition engine_Scan ::
  "string ranger \<Rightarrow> 64 word ranger \<Rightarrow> engine \<Rightarrow> time \<Rightarrow> tokens \<Rightarrow> ScanRequest \<Rightarrow>
   (engine \<times> (scan_err + ScanResult) \<times> tokens) option" where
  "engine_Scan rng trng e now toks req =
     map_option (\<lambda>(m, r, toks'). (e\<lparr>scanSessions := m\<rparr>, r, toks'))
       (if rCursor req \<noteq> 0
        then scan_next trng (scanSessions e) (rCursor req) (rPattern req) (rPatternSet req) (rCount req) now toks
        else
          let (keys, at) = captureLiveKeys rng e now;
              pattern = (if rPatternSet req then rPattern req else ''*'');
              kept = sortSnapshot (fst (filterSnapshot keys pattern))
          in scan_start trng (scanSessions e) kept (store_PhysicalLen (estore e)) pattern (rCount req) at toks)"

definition ClearScanSessions :: "engine \<Rightarrow> engine" where
  "ClearScanSessions e = e\<lparr>scanSessions := scan_clear (scanSessions e)\<rparr>"

lemmas mutation_defs = Set_locked_def Expire_locked_def Persist_locked_def Delete_locked_def IncrBy_locked_def
lemmas commit_defs = commitSet_def commitDel_def commit_def

section \<open>What the reads see\<close>

text \<open>
  Skipping the clock is harmless: a store with no deadline looks the same at every instant.
\<close>

lemma view_without_deadlines: "\<not> store_HasExpirations s \<Longrightarrow> store_view s t = store_view s t'"
  by (auto simp: store_HasExpirations_def store_view_def fun_eq_iff Let_def split: option.splits)

lemma view_readNow [simp]: "store_view (estore e) (readNow e now) = store_view (estore e) now"
  using view_without_deadlines by (simp add: readNow_def)

lemma expired_readNow [simp]: "store_expired (estore e) k (readNow e now) \<longleftrightarrow> store_expired (estore e) k now"
  by (auto simp: readNow_def store_HasExpirations_def store_expired_def)

lemma engine_Get_view: "engine_Get e now k = map_option fst (store_view (estore e) now k)"
  by (simp add: engine_Get_def st.get_view)

lemma foldl_snoc_map: "foldl (\<lambda>out k. out @ [f k]) acc ks = acc @ map f ks"
  by (induction ks arbitrary: acc) simp_all

lemma foldl_count: "foldl (\<lambda>n k. if P k then n + 1 else n) (i :: int) ks = i + int (length (filter P ks))"
  by (induction ks arbitrary: i) simp_all

lemma engine_MGet_view: "engine_MGet e now ks = map (\<lambda>k. map_option fst (store_view (estore e) now k)) ks"
  by (simp add: engine_MGet_def Let_def foldl_snoc_map st.get_view)

lemma engine_Exists_view:
  "engine_Exists e now ks = int (length (filter (\<lambda>k. store_view (estore e) now k \<noteq> None) ks))"
  by (simp add: engine_Exists_def Let_def foldl_count st.get_view)

lemma engine_TTL_view:
  "engine_TTL e now k =
     (case store_view (estore e) now k of
        None \<Rightarrow> (0, NoKey)
      | Some (v, None) \<Rightarrow> (0, NoTTL)
      | Some (v, Some d) \<Rightarrow> (time_Sub d now, HasTTL))"
proof (cases "store_view (estore e) now k")
  case (Some x)
  then show ?thesis
    by (cases x; cases "snd x")
      (auto simp: engine_TTL_def st.ttl_view readNow_def store_HasExpirations_def store_view_def Let_def
        split: option.splits if_splits)
qed (simp add: engine_TTL_def st.ttl_view)

lemma engine_DBSize_view: "fair_ranger rng \<Longrightarrow> engine_DBSize rng e now = card (live_keys (estore e) now)"
  by (simp add: engine_DBSize_def store_Len_card live_keys_def)

section \<open>Snapshots\<close>

text \<open>
  Compacting in place is filtering: what has been kept never overtakes what is still to be read.
\<close>

lemma filter_loop_eq:
  "n \<le> i \<Longrightarrow> i \<le> length arr \<Longrightarrow>
   (case filter_loop pattern arr i n of (arr', n') \<Rightarrow>
      take n' arr' = take n arr @ filter (glob_Match pattern) (drop i arr) \<and> length arr' = length arr)"
proof (induction pattern arr i n rule: filter_loop.induct)
  case (1 pattern arr i n)
  show ?case
  proof (cases "i < length arr")
    case True
    let ?k = "arr ! i" and ?arr = "arr[n := arr ! i]"
    have d: "drop i arr = ?k # drop (Suc i) arr" using True by (rule Cons_nth_drop_Suc [symmetric])
    show ?thesis
    proof (cases "glob_Match pattern ?k")
      case match: True
      have "take (Suc n) ?arr = take n arr @ [?k]" using True "1.prems" by (simp add: take_Suc_conv_app_nth)
      moreover have "drop (Suc i) ?arr = drop (Suc i) arr" using "1.prems" by (simp add: drop_update_cancel)
      ultimately show ?thesis
        using "1.IH"(1) [OF True match] True match "1.prems" d by (subst filter_loop.simps) simp
    next
      case False
      then show ?thesis using "1.IH"(2) [OF True False] True "1.prems" d by (subst filter_loop.simps) simp
    qed
  qed (use "1.prems" in \<open>subst filter_loop.simps, simp\<close>)
qed

lemma filterSnapshot_eq [simp]: "fst (filterSnapshot keys pattern) = filter (glob_Match pattern) keys"
  using filter_loop_eq [of 0 0 keys pattern] by (auto simp: filterSnapshot_def split: prod.splits)

lemma glob_meaning: "glob_Match pattern value \<longleftrightarrow> matches (tokenize pattern) value"
  by (simp add: glob_Match_def match_loop_correct loop_inv_def loop_goal_def)

definition matching_keys :: "store \<Rightarrow> time \<Rightarrow> string \<Rightarrow> string list" where
  "matching_keys s now pattern = filter (matches (tokenize pattern)) (sorted_list_of_set (live_keys s now))"

lemma engine_Keys_view: "fair_ranger rng \<Longrightarrow> engine_Keys rng e now pattern = matching_keys (estore e) now pattern"
  by (simp add: engine_Keys_def sortSnapshot_def snapshotLiveKeys_def sort_LiveKeys matching_keys_def
      live_keys_def glob_meaning [abs_def])

lemma scan_snapshot:
  "fair_ranger rng \<Longrightarrow>
   sortSnapshot (fst (filterSnapshot (store_LiveKeys rng (estore e) now) pattern)) = matching_keys (estore e) now pattern"
  by (simp add: sortSnapshot_def matching_keys_def glob_meaning [abs_def] filter_sort [symmetric] sort_LiveKeys)

section \<open>Deleting\<close>

lemma set_live_loop:
  "set (live_loop s now ks D live) = set live \<union> {k \<in> set ks. k |\<notin>| D \<and> store_view s now k \<noteq> None}"
  by (induction ks arbitrary: D live) (auto simp: st.get_view)

lemma distinct_live_loop:
  "distinct live \<Longrightarrow> set live \<subseteq> fset D \<Longrightarrow> distinct (live_loop s now ks D live)"
proof (induction ks arbitrary: D live)
  case (Cons k ks)
  show ?case
    using Cons.prems Cons.IH [of live D] Cons.IH [of live "finsert k D"] Cons.IH [of "live @ [k]" "finsert k D"]
    by auto
qed simp

lemma live_requested:
  "set (live_loop s now ks {||} []) = {k \<in> set ks. store_view s now k \<noteq> None}"
  "length (live_loop s now ks {||} []) = card {k \<in> set ks. store_view s now k \<noteq> None}"
  using set_live_loop [of s now ks "{||}" "[]"] distinct_live_loop [of "[]" "{||}" s now ks]
  by (simp_all add: distinct_card [symmetric])

lemma view_delete_all: "store_view (delete_all s ks) t = (\<lambda>k. if k \<in> set ks then None else store_view s t k)"
  unfolding delete_all_def by (rule st.view_deletes)

section \<open>Incrementing\<close>

lemma digit_not_sign: "is_digit c \<Longrightarrow> c \<noteq> CHR ''-'' \<and> c \<noteq> CHR ''+''"
  by (auto simp: is_digit_def)

text \<open>A decimal numeral with no leading zero is the one \<^verbatim>\<open>FormatUint\<close> writes.\<close>

lemma byte_zero: "byte c = 48 \<longleftrightarrow> c = CHR ''0''"
proof
  assume "byte c = 48"
  then have "c = char_of (48 :: nat)" by (metis char_of_char)
  then show "c = CHR ''0''" by (simp add: char_of_def bit_0)
qed simp

lemma dec_val_pos: "list_all is_digit s \<Longrightarrow> s \<noteq> [] \<Longrightarrow> hd s \<noteq> CHR ''0'' \<Longrightarrow> 0 < dec_val s"
proof (induction s rule: rev_induct)
  case (snoc c s)
  show ?case
  proof (cases "s = []")
    case True
    have "byte c \<noteq> 48" using snoc.prems(3) True by (simp add: byte_zero)
    then show ?thesis using True snoc.prems by (auto simp: is_digit_def digit_val_def)
  next
    case False
    then show ?thesis using snoc by simp
  qed
qed simp

lemma FormatUint_dec_val:
  "list_all is_digit s \<Longrightarrow> s \<noteq> [] \<Longrightarrow> hd s \<noteq> CHR ''0'' \<Longrightarrow> FormatUint (dec_val s) = s"
proof (induction s rule: rev_induct)
  case (snoc c s)
  have c: "digit_val c < 10" "digit_char (digit_val c) = c"
    using snoc.prems(1) by (auto simp: is_digit_def digit_val_def digit_char_def)
  show ?case
  proof (cases "s = []")
    case True
    then show ?thesis using c by (subst FormatUint.simps) simp
  next
    case False
    then have "0 < dec_val s" "FormatUint (dec_val s) = s"
      using snoc dec_val_pos [of s] by auto
    then show ?thesis using c by (subst FormatUint.simps) simp
  qed
qed simp

lemma hd_FormatUint_nonzero: "0 < n \<Longrightarrow> hd (FormatUint n) \<noteq> CHR ''0''"
proof (induction n rule: FormatUint.induct)
  case (1 n)
  show ?case
  proof (cases "n < 10")
    case True
    then have "byte (digit_char n) \<noteq> byte CHR ''0''" using 1(2) by (simp add: digit_char_def)
    then show ?thesis using True by (subst FormatUint.simps) auto
  next
    case False
    then show ?thesis using 1 by (subst FormatUint.simps) simp
  qed
qed

lemma first_digit: "is_digit c \<Longrightarrow> byte c < 49 \<longleftrightarrow> c = CHR ''0''"
  using byte_zero [of c] by (auto simp: is_digit_def)

lemma stored_digits:
  "digits \<noteq> [] \<and> \<not> byte (hd digits) < 49 \<and> \<not> 57 < byte (hd digits) \<and> \<not> list_ex (\<lambda>c. byte c < 48 \<or> 57 < byte c) digits
   \<longleftrightarrow> digits \<noteq> [] \<and> list_all is_digit digits \<and> hd digits \<noteq> CHR ''0''"
proof -
  have "\<not> list_ex (\<lambda>c. byte c < 48 \<or> 57 < byte c) digits \<longleftrightarrow> list_all is_digit digits"
    by (auto simp: list_ex_iff list_all_iff is_digit_def)
  then show ?thesis using first_digit by (cases digits) (auto simp: is_digit_def)
qed

lemma parseStoredInt_alt:
  "parseStoredInt s =
     (let digits = (if hd s = CHR ''-'' then tl s else s) in
      if s = ''0'' then Some 0
      else if s \<noteq> [] \<and> digits \<noteq> [] \<and> list_all is_digit digits \<and> hd digits \<noteq> CHR ''0'' then ParseInt s
      else None)"
  using stored_digits [of "if hd s = CHR ''-'' then tl s else s"]
  by (auto simp: parseStoredInt_def Let_def)

lemma parseStoredInt_is_int64: "parseStoredInt s = Some n \<Longrightarrow> is_int64 n"
  by (auto simp: parseStoredInt_alt Let_def int64_defs dest: ParseInt_is_int64 split: if_splits)

lemma FormatInt_0: "FormatInt 0 = ''0''"
  by (simp add: FormatInt_def FormatUint.simps [of 0] digit_char_def char_of_def bit_0)

lemma ParseInt_unsigned:
  "s \<noteq> [] \<Longrightarrow> is_digit (hd s) \<Longrightarrow> ParseInt s = Some n \<Longrightarrow> n = int (dec_val s)"
  using digit_not_sign [of "hd s"]
  by (cases s) (auto simp: ParseInt_def ParseUint_def Let_def split: if_splits)

lemma ParseInt_negative: "ParseInt (CHR ''-'' # s) = Some n \<Longrightarrow> n = - int (dec_val s)"
  by (auto simp: ParseInt_def ParseUint_def Let_def split: if_splits)

text \<open>
  C40: a stored value can be incremented exactly when it is the decimal numeral the server itself
  writes for an int64: no plus sign, no leading zero, no \<^verbatim>\<open>-0\<close>, no surrounding bytes, and the
  number read is the number written.
\<close>

theorem parseStoredInt_canonical: "parseStoredInt s = Some n \<longleftrightarrow> is_int64 n \<and> s = FormatInt n"
proof
  assume p: "parseStoredInt s = Some n"
  let ?d = "if hd s = CHR ''-'' then tl s else s"
  show "is_int64 n \<and> s = FormatInt n"
  proof (cases "s = ''0''")
    case True
    then show ?thesis using p by (simp add: parseStoredInt_alt FormatInt_0 int64_defs)
  next
    case False
    then have d: "s \<noteq> []" "?d \<noteq> []" "list_all is_digit ?d" "hd ?d \<noteq> CHR ''0''" and n: "ParseInt s = Some n"
      using p by (auto simp: parseStoredInt_alt Let_def split: if_splits)
    have pos: "0 < dec_val ?d" "FormatUint (dec_val ?d) = ?d"
      using d dec_val_pos FormatUint_dec_val by blast+
    show ?thesis
    proof (cases "hd s = CHR ''-''")
      case True
      then have s: "s = CHR ''-'' # tl s" using d(1) by (metis list.collapse)
      then have "n = - int (dec_val (tl s))" using n ParseInt_negative by metis
      then show ?thesis using pos True s ParseInt_is_int64 [OF n] by (simp add: FormatInt_def)
    next
      case unsigned: False
      then have "is_digit (hd s)" using d by (cases s) simp_all
      then have "n = int (dec_val s)" using ParseInt_unsigned [OF d(1) _ n] by simp
      then show ?thesis using pos unsigned ParseInt_is_int64 [OF n] by (simp add: FormatInt_def)
    qed
  qed
next
  assume n: "is_int64 n \<and> s = FormatInt n"
  show "parseStoredInt s = Some n"
  proof (cases "n = 0")
    case True
    then show ?thesis using n by (simp add: parseStoredInt_alt FormatInt_0)
  next
    case False
    let ?u = "FormatUint (nat \<bar>n\<bar>)"
    have u: "?u \<noteq> []" "list_all is_digit ?u" "hd ?u \<noteq> CHR ''0''"
      using False hd_FormatUint_nonzero by simp_all
    moreover have "hd ?u \<noteq> CHR ''-''" using hd_FormatUint digit_not_sign by blast
    moreover have "s = (if n < 0 then CHR ''-'' # ?u else ?u)" using n by (simp add: FormatInt_def)
    moreover from this have "s \<noteq> ''0''" using u by auto
    ultimately show ?thesis
      using n ParseInt_FormatInt [of n] by (auto simp: parseStoredInt_alt Let_def)
  qed
qed

lemmas engine_views = engine_Get_view engine_MGet_view engine_Exists_view engine_TTL_view engine_DBSize_view
  engine_Keys_view

end
