(* ===== verification/Engine_Spec.thy ===== *)
theory Engine_Spec
  imports Engine
begin

text \<open>
  What the engine promises its callers: one table of entries, on which every call acts atomically at
  the instant it reads the clock. The calls of the engine are collected in one type; the theorems say
  that the answers of the engine are those of the table, and what a refused call leaves behind.
\<close>

section \<open>Calls\<close>

datatype ecall =
    EGet string
  | EMGet "string list"
  | EExists "string list"
  | ETTL string
  | EDBSize
  | EKeys string
  | ESet string string TTL
  | EExpire string duration
  | EPersist string
  | EDelete "string list"
  | EIncrBy string int
  | EReclaim
  | EDrain

datatype eanswer =
    AnsValue "string option"
  | AnsValues "string option list"
  | AnsTTL duration TTLStatus
  | AnsKeys "string list"
  | AnsInt int "engine_err option"
  | AnsBool bool "engine_err option"
  | AnsDone "engine_err option"

text \<open>\<open>None\<close> instead of an answer is a call that waits for the log.\<close>

fun engine_call :: "string ranger \<Rightarrow> (log \<Rightarrow> log) \<Rightarrow> time \<Rightarrow> engine \<Rightarrow> ecall \<Rightarrow> engine \<times> eanswer option" where
  "engine_call rng later now e (EGet k) = (e, Some (AnsValue (engine_Get e now k)))"
| "engine_call rng later now e (EMGet ks) = (e, Some (AnsValues (engine_MGet e now ks)))"
| "engine_call rng later now e (EExists ks) = (e, Some (AnsInt (engine_Exists e now ks) None))"
| "engine_call rng later now e (ETTL k) = (e, Some (case engine_TTL e now k of (d, s) \<Rightarrow> AnsTTL d s))"
| "engine_call rng later now e EDBSize = (e, Some (AnsInt (int (engine_DBSize rng e now)) None))"
| "engine_call rng later now e (EKeys p) = (e, Some (AnsKeys (engine_Keys rng e now p)))"
| "engine_call rng later now e (ESet k v t) = map_prod id (map_option AnsDone) (engine_Set later e now k v t)"
| "engine_call rng later now e (EExpire k d) =
     map_prod id (map_option (case_prod AnsBool)) (engine_Expire later e now k d)"
| "engine_call rng later now e (EPersist k) =
     map_prod id (map_option (case_prod AnsBool)) (engine_Persist later e now k)"
| "engine_call rng later now e (EDelete ks) =
     map_prod id (map_option (case_prod AnsInt)) (engine_Delete later e now ks)"
| "engine_call rng later now e (EIncrBy k n) =
     map_prod id (map_option (case_prod AnsInt)) (engine_IncrBy later e now k n)"
| "engine_call rng later now e EReclaim = (fst (reclaimOnce rng e now), Some (AnsDone None))"
| "engine_call rng later now e EDrain = (BeginDrain e, Some (AnsDone None))"

section \<open>The table\<close>

definition spec_expiry :: "time \<Rightarrow> TTL \<Rightarrow> time option" where
  "spec_expiry now t = (if ttl_set t then Some (now + ttl_d t) else None)"

text \<open>The mutations of the table, by a server that admits them.\<close>

fun spec_mutate :: "time \<Rightarrow> table \<Rightarrow> ecall \<Rightarrow> table \<times> eanswer" where
  "spec_mutate now m (ESet k v t) = (m(k \<mapsto> (v, spec_expiry now t)), AnsDone None)"
| "spec_mutate now m (EExpire k d) =
     (case seen m now k of
        None \<Rightarrow> (m, AnsBool False None)
      | Some (v, _) \<Rightarrow> (m(k \<mapsto> (v, Some (now + d))), AnsBool True None))"
| "spec_mutate now m (EPersist k) =
     (case seen m now k of
        Some (v, Some _) \<Rightarrow> (m(k \<mapsto> (v, None)), AnsBool True None)
      | _ \<Rightarrow> (m, AnsBool False None))"
| "spec_mutate now m (EDelete ks) =
     (\<lambda>k. if k \<in> set ks then None else m k, AnsInt (int (card {k \<in> set ks. seen m now k \<noteq> None})) None)"
| "spec_mutate now m (EIncrBy k n) =
     (let (old, d) = (case seen m now k of None \<Rightarrow> (Some 0, None) | Some (v, d) \<Rightarrow> (parseStoredInt v, d))
      in case old of
           None \<Rightarrow> (m, AnsInt 0 (Some ErrNotAnInteger))
         | Some i \<Rightarrow>
             if is_int64 (i + n) then (m(k \<mapsto> (FormatInt (i + n), d)), AnsInt (i + n) None)
             else (m, AnsInt 0 (Some ErrIncrOverflow)))"
| "spec_mutate now m _ = (m, AnsDone None)"

text \<open>What a server that is shutting down answers.\<close>

fun spec_refuse :: "ecall \<Rightarrow> eanswer" where
  "spec_refuse (ESet k v t) = AnsDone (Some ErrDraining)"
| "spec_refuse (EExpire k d) = AnsBool False (Some ErrDraining)"
| "spec_refuse (EPersist k) = AnsBool False (Some ErrDraining)"
| "spec_refuse (EDelete ks) = AnsInt 0 (Some ErrDraining)"
| "spec_refuse (EIncrBy k n) = AnsInt 0 (Some ErrDraining)"
| "spec_refuse _ = AnsDone None"

fun spec_call :: "time \<Rightarrow> bool \<times> table \<Rightarrow> ecall \<Rightarrow> (bool \<times> table) \<times> eanswer" where
  "spec_call now (acc, m) (EGet k) = ((acc, m), AnsValue (map_option fst (seen m now k)))"
| "spec_call now (acc, m) (EMGet ks) = ((acc, m), AnsValues (map (\<lambda>k. map_option fst (seen m now k)) ks))"
| "spec_call now (acc, m) (EExists ks) =
     ((acc, m), AnsInt (int (length (filter (\<lambda>k. seen m now k \<noteq> None) ks))) None)"
| "spec_call now (acc, m) (ETTL k) =
     ((acc, m), case seen m now k of
                  None \<Rightarrow> AnsTTL 0 NoKey
                | Some (_, None) \<Rightarrow> AnsTTL 0 NoTTL
                | Some (_, Some d) \<Rightarrow> AnsTTL (time_Sub d now) HasTTL)"
| "spec_call now (acc, m) EDBSize = ((acc, m), AnsInt (int (card (dom (seen m now)))) None)"
| "spec_call now (acc, m) (EKeys p) =
     ((acc, m), AnsKeys (filter (matches (tokenize p)) (sorted_list_of_set (dom (seen m now)))))"
| "spec_call now (acc, m) EReclaim = ((acc, m), AnsDone None)"
| "spec_call now (acc, m) EDrain = ((False, m), AnsDone None)"
| "spec_call now (acc, m) c =
     (if acc then (case spec_mutate now m c of (m', a) \<Rightarrow> ((True, m'), a)) else ((False, m), spec_refuse c))"

text \<open>The numbers a client can ask to add are int64, and so are durations.\<close>

fun well_typed :: "ecall \<Rightarrow> bool" where
  "well_typed (EIncrBy k n) \<longleftrightarrow> is_int64 n"
| "well_typed (ESet k v t) \<longleftrightarrow> is_int64 (ttl_d t)"
| "well_typed (EExpire k d) \<longleftrightarrow> is_int64 d"
| "well_typed _ \<longleftrightarrow> True"

section \<open>The critical sections act on the view\<close>

text \<open>
  The five mutations share their shape: refuse, do nothing, or commit one record together with its
  effect. \<open>committed\<close> is the shape, with the outcome of a log that accepts the record.
\<close>

definition committed :: "engine \<Rightarrow> engine \<Rightarrow> store \<Rightarrow> engine_err + nat \<Rightarrow> bool" where
  "committed e e' s r \<longleftrightarrow>
     (case r of
        Inl err \<Rightarrow> estore e' = estore e \<and> elog e \<noteq> None
      | Inr seq \<Rightarrow> estore e' = s \<and> (elog e = None \<longrightarrow> seq = 0))
     \<and> acceptingMutations e' = acceptingMutations e \<and> scanSessions e' = scanSessions e
     \<and> epolicy e' = epolicy e \<and> (elog e' = None \<longleftrightarrow> elog e = None)"

lemma committed_Set: "commitSet e k v d h f = (e', r) \<Longrightarrow> committed e e' (f (estore e)) r"
  by (auto simp: committed_def commit_defs split: option.splits prod.splits sum.splits)

lemma committed_Del: "commitDel e ks f = (e', r) \<Longrightarrow> committed e e' (f (estore e)) r"
  by (auto simp: committed_def commit_defs split: option.splits prod.splits sum.splits)

lemma committed_done: "committed e e' s (Inr seq) \<Longrightarrow> estore e' = s"
  by (simp add: committed_def)

lemma committed_refused: "committed e e' s (Inl err) \<Longrightarrow> estore e' = estore e"
  by (simp add: committed_def)

lemma agrees_Set:
  "agrees now s m \<Longrightarrow> agrees now (store_Set s k v d h) (m(k \<mapsto> (v, if h then Some d else None)))"
  by (simp add: agrees_def st.view_set seen_upd)

lemma agrees_Expire:
  assumes "agrees now s m" "seen m now k = Some (v, d')"
  shows "agrees now (fst (store_Expire s k d now)) (m(k \<mapsto> (v, Some d)))"
proof -
  have "store_view s now k = Some (v, d')" using assms by (simp add: agreesD)
  from st.expire_effect [OF this] show ?thesis
    using assms(1) seen_upd [of m k v True d] by (simp add: agrees_def)
qed

lemma agrees_Persist:
  assumes "agrees now s m" "seen m now k = Some (v, Some d)"
  shows "agrees now (fst (store_Persist s k now)) (m(k \<mapsto> (v, None)))"
proof -
  have "store_view s now k = Some (v, Some d)" using assms by (simp add: agreesD)
  from st.persist_effect [OF this] show ?thesis
    using assms(1) seen_upd_persistent [of m k v] by (simp add: agrees_def)
qed

lemma agrees_delete_all:
  "agrees now s m \<Longrightarrow> agrees now (delete_all s ks) (\<lambda>k. if k \<in> set ks then None else m k)"
  by (auto simp: agrees_def view_delete_all seen_def fun_eq_iff)

lemma agrees_Reclaim: "agrees now s m \<Longrightarrow> agrees now (fst (store_ReclaimExpired rng s now n)) m"
  by (simp add: agrees_def store_view_ReclaimExpired)

text \<open>The test made before the sum is exact, although it is itself made in 64 bits.\<close>

lemma incr_overflow_iff:
  assumes "is_int64 i" "is_int64 n"
  shows "(n > 0 \<and> i > wrap64 (maxInt64 - n) \<or> n < 0 \<and> i < wrap64 (minInt64 - n)) \<longleftrightarrow> \<not> is_int64 (i + n)"
proof -
  have "n > 0 \<Longrightarrow> wrap64 (maxInt64 - n) = maxInt64 - n" "n < 0 \<Longrightarrow> wrap64 (minInt64 - n) = minInt64 - n"
    using assms by (auto intro!: wrap64_id simp: int64_defs)
  then show ?thesis using assms by (cases "n > 0"; cases "n < 0") (auto simp: int64_defs)
qed

section \<open>One call\<close>

text \<open>
  How the answer of a call can differ from the table's: the call waits; or the effect happened and
  the answer carries the error of the wait; or the log refused the record and nothing happened.
\<close>

fun with_err :: "eanswer \<Rightarrow> engine_err \<Rightarrow> eanswer" where
  "with_err (AnsInt i _) err = AnsInt i (Some err)"
| "with_err (AnsBool b _) err = AnsBool b (Some err)"
| "with_err (AnsDone _) err = AnsDone (Some err)"
| "with_err a err = a"

fun zero_answer :: "eanswer \<Rightarrow> eanswer" where
  "zero_answer (AnsInt i x) = AnsInt 0 x"
| "zero_answer (AnsBool b x) = AnsBool False x"
| "zero_answer a = a"

definition from_log :: "engine_err \<Rightarrow> bool" where
  "from_log err \<longleftrightarrow> (\<exists>l. err = ErrPersistenceUnavailable l \<or> err = ErrLog l)"

definition outcome_of :: "engine \<Rightarrow> (log \<Rightarrow> log) \<Rightarrow> engine \<Rightarrow> eanswer \<Rightarrow> engine_err + nat \<Rightarrow> eanswer option" where
  "outcome_of e later e' a r =
     (case r of
        Inl err \<Rightarrow> Some (with_err (zero_answer a) err)
      | Inr seq \<Rightarrow> map_option (\<lambda>x. case x of None \<Rightarrow> a | Some err \<Rightarrow> with_err a err) (await e' later seq))"

lemma commit_from_log: "commitSet e k v d h f = (e', Inl err) \<Longrightarrow> from_log err"
  "commitDel e ks f = (e', Inl err) \<Longrightarrow> from_log err"
  by (auto simp: commit_defs from_log_def split: option.splits prod.splits sum.splits if_splits)

lemma await_cases:
  obtains "await e later seq = None" "elog e \<noteq> None" "seq \<noteq> 0" | "await e later seq = Some None"
    | l where "await e later seq = Some (Some (ErrPersistenceUnavailable l))" "elog e \<noteq> None" "seq \<noteq> 0"
  by (cases "elog e"; cases "seq = 0"; cases "log_Await (later (the (elog e))) seq (epolicy e)")
    (auto simp: await_def split: option.splits)

definition served :: "time \<Rightarrow> engine \<Rightarrow> engine \<Rightarrow> table \<Rightarrow> eanswer \<Rightarrow> eanswer option \<Rightarrow> bool" where
  "served now e e' m' a out \<longleftrightarrow>
     agrees now (estore e') m'
       \<and> (out = Some a \<or> elog e \<noteq> None \<and> (out = None \<or> (\<exists>l. out = Some (with_err a (ErrPersistenceUnavailable l)))))
     \<or> elog e \<noteq> None \<and> estore e' = estore e \<and> (\<exists>err. from_log err \<and> out = Some (with_err (zero_answer a) err))"

lemma served_commit:
  assumes "committed e e' s r" "agrees now s m'" "out = outcome_of e later e' a r" "\<And>err. r = Inl err \<Longrightarrow> from_log err"
  shows "served now e e' m' a out"
proof (cases r)
  case (Inl err)
  then show ?thesis using assms by (auto simp: served_def outcome_of_def committed_def)
next
  case (Inr seq)
  then have "estore e' = s" "elog e' = None \<longleftrightarrow> elog e = None" using assms(1) by (auto simp: committed_def)
  then show ?thesis
    using assms(2,3) Inr by (cases rule: await_cases [of e' later seq]) (auto simp: served_def outcome_of_def)
qed

lemma served_commitSet:
  "commitSet e k v d h f = (e', r) \<Longrightarrow> agrees now (f (estore e)) m' \<Longrightarrow> served now e e' m' a (outcome_of e later e' a r)"
  using commit_from_log(1) by (auto intro!: served_commit [OF committed_Set])

lemma served_commitDel:
  "commitDel e ks f = (e', r) \<Longrightarrow> agrees now (f (estore e)) m' \<Longrightarrow> served now e e' m' a (outcome_of e later e' a r)"
  using commit_from_log(2) by (auto intro!: served_commit [OF committed_Del])

lemma served_at_once: "agrees now (estore e') m' \<Longrightarrow> served now e e' m' a (Some a)"
  by (simp add: served_def)

lemmas out_simps = outcome_of_def map_prod_def

lemma served_Set:
  assumes "agrees now (estore e) m" "acceptingMutations e" "engine_call rng later now e (ESet k v t) = (e', out)"
  shows "served now e e' (fst (spec_mutate now m (ESet k v t))) (snd (spec_mutate now m (ESet k v t))) out"
proof -
  let ?d = "if ttl_set t then time_Add now (ttl_d t) else zeroTime"
  obtain e1 r where c: "commitSet e k v ?d (ttl_set t) (\<lambda>s. store_Set s k v ?d (ttl_set t)) = (e1, r)"
    by (cases "commitSet e k v ?d (ttl_set t) (\<lambda>s. store_Set s k v ?d (ttl_set t))")
  then have "e' = e1" "out = outcome_of e later e1 (AnsDone None) r"
    using assms(2,3)
    by (auto simp: engine_Set_def Set_locked_def Let_def out_simps option.map_comp o_def
        split: sum.splits option.splits intro!: option.map_cong)
  moreover have "spec_expiry now t = (if ttl_set t then Some ?d else None)"
    by (simp add: spec_expiry_def time_Add_def)
  ultimately show ?thesis
    using served_commitSet [OF c, where m' = "m(k \<mapsto> (v, spec_expiry now t))" and a = "AnsDone None" and later = later]
      agrees_Set [OF assms(1), of k v ?d "ttl_set t"] by simp
qed

lemma served_Expire:
  assumes "agrees now (estore e) m" "acceptingMutations e" "engine_call rng later now e (EExpire k d) = (e', out)"
  shows "served now e e' (fst (spec_mutate now m (EExpire k d))) (snd (spec_mutate now m (EExpire k d))) out"
proof (cases "seen m now k")
  case None
  then have "store_Get (estore e) k now = None" using assms(1) by (simp add: st.get_view agreesD)
  then show ?thesis using assms None by (auto simp: engine_Expire_def Expire_locked_def served_at_once)
next
  case (Some x)
  obtain v d' where x: "x = (v, d')" by (cases x)
  have g: "store_Get (estore e) k now = Some v" using assms(1) Some x by (simp add: st.get_view agreesD)
  let ?f = "\<lambda>s. fst (store_Expire s k (time_Add now d) now)"
  obtain e1 r where c: "commitSet e k v (time_Add now d) True ?f = (e1, r)"
    by (cases "commitSet e k v (time_Add now d) True ?f")
  then have "e' = e1" "out = outcome_of e later e1 (AnsBool True None) r"
    using assms(2,3) g
    by (auto simp: engine_Expire_def Expire_locked_def Let_def out_simps option.map_comp o_def
        split: sum.splits option.splits intro!: option.map_cong)
  then show ?thesis
    using served_commitSet [OF c, where m' = "m(k \<mapsto> (v, Some (now + d)))" and a = "AnsBool True None" and later = later]
      agrees_Expire [OF assms(1) Some [unfolded x], of "now + d"] by (simp add: Some x time_Add_def)
qed

lemma served_Persist:
  assumes "agrees now (estore e) m" "acceptingMutations e" "engine_call rng later now e (EPersist k) = (e', out)"
  shows "served now e e' (fst (spec_mutate now m (EPersist k))) (snd (spec_mutate now m (EPersist k))) out"
proof (cases "\<exists>v d. seen m now k = Some (v, Some d)")
  case False
  have "store_view (estore e) now k = seen m now k" using assms(1) by (simp add: agreesD)
  with False have "store_Get (estore e) k now = None \<or> snd (store_TTL (estore e) k now) \<noteq> HasTTL"
    by (auto simp: st.get_view st.ttl_view split: option.splits)
  then show ?thesis
    using assms False by (auto simp: engine_Persist_def Persist_locked_def served_at_once split: option.splits)
next
  case True
  then obtain v d where x: "seen m now k = Some (v, Some d)" by blast
  then have "store_view (estore e) now k = Some (v, Some d)" using assms(1) by (simp add: agreesD)
  then have g: "store_Get (estore e) k now = Some v" "snd (store_TTL (estore e) k now) = HasTTL"
    by (simp_all add: st.get_view st.ttl_view)
  let ?f = "\<lambda>s. fst (store_Persist s k now)"
  obtain e1 r where c: "commitSet e k v zeroTime False ?f = (e1, r)"
    by (cases "commitSet e k v zeroTime False ?f")
  then have "e' = e1" "out = outcome_of e later e1 (AnsBool True None) r"
    using assms(2,3) g
    by (auto simp: engine_Persist_def Persist_locked_def Let_def out_simps option.map_comp o_def
        split: sum.splits option.splits intro!: option.map_cong)
  then show ?thesis
    using served_commitSet [OF c, where m' = "m(k \<mapsto> (v, None))" and a = "AnsBool True None" and later = later]
      agrees_Persist [OF assms(1) x] by (simp add: x)
qed

lemma served_Delete:
  assumes "agrees now (estore e) m" "acceptingMutations e" "engine_call rng later now e (EDelete ks) = (e', out)"
  shows "served now e e' (fst (spec_mutate now m (EDelete ks))) (snd (spec_mutate now m (EDelete ks))) out"
proof -
  let ?live = "live_loop (estore e) (readNow e now) ks {||} []"
  have v: "store_view (estore e) now = seen m now" using assms(1) by (simp add: agreesD)
  have n: "length ?live = card {k \<in> set ks. seen m now k \<noteq> None}"
    by (simp add: live_requested(2) v)
  show ?thesis
  proof (cases "?live = []")
    case True
    then have "e' = e\<lparr>estore := delete_all (estore e) ks\<rparr>" "out = Some (AnsInt (int (length ?live)) None)"
      using assms(2,3)
      by (auto simp: engine_Delete_def Delete_locked_def Let_def await_def split: option.splits)
    then show ?thesis
      using served_at_once [of now "e\<lparr>estore := delete_all (estore e) ks\<rparr>"] agrees_delete_all [OF assms(1), of ks]
      by (simp only: spec_mutate.simps fst_conv snd_conv n) simp
  next
    case False
    let ?f = "\<lambda>s. delete_all s ks"
    obtain e1 r where c: "commitDel e ?live ?f = (e1, r)" by (cases "commitDel e ?live ?f")
    then have "e' = e1" "out = outcome_of e later e1 (AnsInt (int (length ?live)) None) r"
      using assms(2,3) False
      by (auto simp: engine_Delete_def Delete_locked_def Let_def out_simps option.map_comp o_def
          split: sum.splits option.splits intro!: option.map_cong)
    then show ?thesis
      using served_commitDel [OF c agrees_delete_all [OF assms(1)], of "AnsInt (int (length ?live)) None" later]
      by (simp only: spec_mutate.simps fst_conv snd_conv n)
  qed
qed

lemma served_IncrBy:
  assumes "agrees now (estore e) m" "acceptingMutations e" "engine_call rng later now e (EIncrBy k n) = (e', out)"
    "is_int64 n"
  shows "served now e e' (fst (spec_mutate now m (EIncrBy k n))) (snd (spec_mutate now m (EIncrBy k n))) out"
proof -
  have v: "store_view (estore e) now k = seen m now k" using assms(1) by (simp add: agreesD)
  let ?val = "store_Get (estore e) k (readNow e now)"
  have val: "?val = map_option fst (seen m now k)" by (simp add: st.get_view v)
  define old where "old = (case seen m now k of None \<Rightarrow> Some 0 | Some (v, _) \<Rightarrow> parseStoredInt v)"
  define d where "d = (case seen m now k of None \<Rightarrow> None | Some (_, d) \<Rightarrow> d)"
  have old: "(case ?val of None \<Rightarrow> Some 0 | Some v \<Rightarrow> parseStoredInt v) = old"
    by (auto simp: val old_def split: option.splits)
  have "seen m now k = Some (v', d') \<Longrightarrow> store_ExpiresAt (estore e) k = d'" for v' d'
    using st.deadline_view v by metis
  then have d: "(if ?val \<noteq> None then store_ExpiresAt (estore e) k else None) = d"
    by (auto simp: val d_def split: option.splits)
  have spec: "spec_mutate now m (EIncrBy k n) =
      (case old of
         None \<Rightarrow> (m, AnsInt 0 (Some ErrNotAnInteger))
       | Some i \<Rightarrow> if is_int64 (i + n) then (m(k \<mapsto> (FormatInt (i + n), d)), AnsInt (i + n) None)
                   else (m, AnsInt 0 (Some ErrIncrOverflow)))"
    by (auto simp: old_def d_def Let_def split: option.splits)
  note locked = IncrBy_locked_def [of e now k n, unfolded Let_def old d]
  show ?thesis
  proof (cases old)
    case None
    then show ?thesis
      using assms(1-3) unfolding spec by (auto simp: engine_IncrBy_def locked served_at_once)
  next
    case (Some i)
    have i: "is_int64 i"
      using Some parseStoredInt_is_int64 by (auto simp: old_def int64_defs split: option.splits prod.splits)
    note ov = incr_overflow_iff [OF i assms(4)]
    show ?thesis
    proof (cases "is_int64 (i + n)")
      case False
      then show ?thesis
        using assms(1-3) Some ov unfolding spec by (auto simp: engine_IncrBy_def locked served_at_once)
    next
      case True
      let ?d = "case d of None \<Rightarrow> zeroTime | Some d \<Rightarrow> d" and ?t = "FormatInt (i + n)"
      let ?f = "\<lambda>s. store_Set s k ?t ?d (d \<noteq> None)"
      obtain e1 r where c: "commitSet e k ?t ?d (d \<noteq> None) ?f = (e1, r)"
        by (cases "commitSet e k ?t ?d (d \<noteq> None) ?f")
      have l: "IncrBy_locked e now k n = (e1, i + n, r)"
        using assms(2) Some ov True c unfolding locked by (auto simp del: not_None_eq)
      then have "e' = e1" "out = outcome_of e later e1 (AnsInt (i + n) None) r"
        using assms(3)
        by (auto simp: engine_IncrBy_def out_simps option.map_comp o_def
            split: sum.splits option.splits intro!: option.map_cong)
      moreover have "(if d \<noteq> None then Some ?d else None) = d" by (cases d) simp_all
      ultimately show ?thesis
        using served_commitSet [OF c, where m' = "m(k \<mapsto> (?t, d))" and a = "AnsInt (i + n) None" and later = later]
          agrees_Set [OF assms(1), of k ?t ?d "d \<noteq> None"] Some True
        unfolding spec by (simp del: not_None_eq)
    qed
  qed
qed

text \<open>What no call touches, apart from the log, the store and the gate.\<close>

definition same_frame :: "engine \<Rightarrow> engine \<Rightarrow> bool" where
  "same_frame e e' \<longleftrightarrow>
     acceptingMutations e' = acceptingMutations e \<and> scanSessions e' = scanSessions e
     \<and> epolicy e' = epolicy e \<and> (elog e' = None \<longleftrightarrow> elog e = None)"

lemma same_frame_refl [simp]: "same_frame e e" "same_frame e (e\<lparr>estore := s\<rparr>)"
  by (simp_all add: same_frame_def)

lemma committed_frame: "committed e e' s r \<Longrightarrow> same_frame e e'"
  by (simp add: committed_def same_frame_def)

lemmas commit_frame = committed_Set [THEN committed_frame] committed_Del [THEN committed_frame]

lemma locked_frame:
  "Set_locked e now k v t = (e', r) \<Longrightarrow> same_frame e e'"
  "Expire_locked e now k d = (e', b, r) \<Longrightarrow> same_frame e e'"
  "Persist_locked e now k = (e', b, r) \<Longrightarrow> same_frame e e'"
  "Delete_locked e now ks = (e', i, r) \<Longrightarrow> same_frame e e'"
  "IncrBy_locked e now k n = (e', i, r) \<Longrightarrow> same_frame e e'"
  by (auto simp: mutation_defs Let_def dest: commit_frame split: if_splits option.splits prod.splits)

lemma call_frame:
  "engine_call rng later now e c = (e', out) \<Longrightarrow> c \<noteq> EDrain \<Longrightarrow> same_frame e e'"
  by (cases c) (auto simp: engine_Set_def engine_Expire_def engine_Persist_def engine_Delete_def engine_IncrBy_def
      reclaimOnce_def dest: locked_frame split: prod.splits sum.splits if_splits)

fun mutation :: "ecall \<Rightarrow> bool" where
  "mutation (ESet k v t) = True"
| "mutation (EExpire k d) = True"
| "mutation (EPersist k) = True"
| "mutation (EDelete ks) = True"
| "mutation (EIncrBy k n) = True"
| "mutation _ = False"

lemma spec_call_mutation:
  "mutation c \<Longrightarrow> spec_call now (acc, m) c =
     (if acc then ((True, fst (spec_mutate now m c)), snd (spec_mutate now m c)) else ((False, m), spec_refuse c))"
  by (cases c) (simp_all split: prod.splits)

lemma refused_mutation:
  "mutation c \<Longrightarrow> \<not> acceptingMutations e \<Longrightarrow> engine_call rng later now e c = (e, Some (spec_refuse c))"
  by (cases c) (simp_all add: engine_Set_def engine_Expire_def engine_Persist_def engine_Delete_def
      engine_IncrBy_def mutation_defs)

lemma served_mutation:
  assumes "mutation c" "acceptingMutations e" "agrees now (estore e) m" "well_typed c"
    "engine_call rng later now e c = (e', out)"
  shows "served now e e' (fst (spec_mutate now m c)) (snd (spec_mutate now m c)) out"
proof (cases c)
  case (ESet k v t)
  then show ?thesis using assms served_Set by blast
next
  case (EExpire k d)
  then show ?thesis using assms served_Expire by blast
next
  case (EPersist k)
  then show ?thesis using assms served_Persist by blast
next
  case (EDelete ks)
  then show ?thesis using assms served_Delete by blast
next
  case (EIncrBy k n)
  then show ?thesis using assms served_IncrBy by (metis well_typed.simps(1))
qed (use assms(1) in simp_all)

lemma read_served:
  assumes "fair_ranger rng" "agrees now (estore e) m" "\<not> mutation c" "engine_call rng later now e c = (e', out)"
    "spec_call now (acc, m) c = ((acc', m'), a)"
  shows "out = Some a \<and> agrees now (estore e') m' \<and> acc' = (acc \<and> c \<noteq> EDrain)"
proof -
  have v: "store_view (estore e) now = seen m now" and lv: "live_keys (estore e) now = dom (seen m now)"
    using assms(2) by (simp_all add: agreesD live_keys_agrees)
  show ?thesis
  proof (cases c)
    case EReclaim
    then show ?thesis
      using assms agrees_Reclaim [OF assms(2), of rng expirationSample]
      by (auto simp: reclaimOnce_def split: prod.splits)
  next
    case (ETTL k)
    then show ?thesis
      using assms(2,4,5) by (auto simp: engine_TTL_view v split: option.splits)
  qed (use assms v lv in \<open>auto simp: engine_views matching_keys_def BeginDrain_def\<close>)
qed

lemma call_served:
  assumes fair: "fair_ranger rng" and ag: "agrees now (estore e) m" and wt: "well_typed c"
    and call: "engine_call rng later now e c = (e', out)"
    and spec: "spec_call now (acceptingMutations e, m) c = ((acc', m'), a)"
  shows "served now e e' m' a out \<and> acceptingMutations e' = acc' \<and> (elog e' = None \<longleftrightarrow> elog e = None)"
proof (cases "mutation c")
  case True
  then have "c \<noteq> EDrain" by auto
  then have frame: "acceptingMutations e' = acceptingMutations e \<and> (elog e' = None \<longleftrightarrow> elog e = None)"
    using call_frame [OF call] by (simp add: same_frame_def)
  show ?thesis
  proof (cases "acceptingMutations e")
    case acc: True
    from served_mutation [OF True acc ag wt call] spec frame acc show ?thesis
      by (simp add: spec_call_mutation [OF True])
  next
    case False
    then show ?thesis
      using spec call ag refused_mutation [OF True False]
      by (auto simp: spec_call_mutation [OF True] served_at_once)
  qed
next
  case False
  then have "acceptingMutations e' = (acceptingMutations e \<and> c \<noteq> EDrain) \<and> (elog e' = None \<longleftrightarrow> elog e = None)"
    using call_frame [OF call] call by (cases "c = EDrain") (auto simp: same_frame_def BeginDrain_def)
  then show ?thesis using read_served [OF fair ag False call spec] by (simp add: served_at_once)
qed

section \<open>Runs\<close>

fun engine_run :: "string ranger \<Rightarrow> (log \<Rightarrow> log) \<Rightarrow> engine \<Rightarrow> (time \<times> ecall) list \<Rightarrow> engine \<times> eanswer option list" where
  "engine_run rng later e [] = (e, [])"
| "engine_run rng later e ((now, c) # cs) =
     (let (e', a) = engine_call rng later now e c; (e'', as) = engine_run rng later e' cs in (e'', a # as))"

fun spec_run :: "bool \<times> table \<Rightarrow> (time \<times> ecall) list \<Rightarrow> eanswer list" where
  "spec_run s [] = []"
| "spec_run s ((now, c) # cs) = (let (s', a) = spec_call now s c in a # spec_run s' cs)"

lemma run_served:
  assumes "fair_ranger rng" "agrees now (estore e) m" "elog e = None" "sorted (now # map fst cs)"
    "list_all (well_typed \<circ> snd) cs"
  shows "snd (engine_run rng later e cs) = map Some (spec_run (acceptingMutations e, m) cs)"
  using assms(2-)
proof (induction cs arbitrary: now e m)
  case (Cons tc cs)
  obtain t c where tc: "tc = (t, c)" by fastforce
  obtain e' out where call: "engine_call rng later t e c = (e', out)" by fastforce
  obtain acc' m' a where spec: "spec_call t (acceptingMutations e, m) c = ((acc', m'), a)" by (metis prod.exhaust)
  have ag: "agrees t (estore e) m" using Cons.prems by (simp add: tc agrees_later)
  have "served t e e' m' a out" "acceptingMutations e' = acc'" "elog e' = None"
    using call_served [OF assms(1) ag _ call spec] Cons.prems by (simp_all add: tc)
  moreover from this have "out = Some a" "agrees t (estore e') m'" using Cons.prems(2) by (simp_all add: served_def)
  moreover from this have "snd (engine_run rng later e' cs) = map Some (spec_run (acceptingMutations e', m') cs)"
    using Cons.prems \<open>elog e' = None\<close> by (intro Cons.IH [of t]) (simp_all add: tc)
  ultimately show ?case using call spec by (cases "engine_run rng later e' cs") (simp add: tc)
qed simp

section \<open>Properties\<close>

text \<open>
  C6: the engine answers as one table. Whatever the clients ask in whatever order, with sweeps and
  the begin of the shutdown at any point, every answer of an engine without a log is the answer of a
  table on which each call acts at once at the instant of its clock reading: reads never show an
  expired key, \<^verbatim>\<open>DEL\<close> counts each live key once, \<^verbatim>\<open>INCRBY\<close> adds without wrapping and keeps the deadline,
  a listing is the sorted list of the live keys that match, and from the begin of the shutdown on
  every mutation is refused.
\<close>

theorem engine_refines_table:
  assumes "fair_ranger rng" "sorted (map fst cs)" "list_all (well_typed \<circ> snd) cs"
  shows "snd (engine_run rng later engine_New cs) = map Some (spec_run (True, \<lambda>_. None) cs)"
proof (cases cs)
  case (Cons c cs')
  with assms run_served [OF assms(1), of "fst c" engine_New "\<lambda>_. None" cs later] show ?thesis
    by (simp add: engine_New_def agrees_New)
qed simp

theorem engine_refines_table_witness:
  "snd (engine_run sorted_list_of_fset id engine_New
     [(0, ESet ''n'' ''41'' (ExpiresIn 10)), (5, EIncrBy ''n'' 1), (6, ETTL ''n''), (10, EGet ''n''), (11, EIncrBy ''n'' 3)])
   = [Some (AnsDone None), Some (AnsInt 42 None), Some (AnsTTL 4 HasTTL), Some (AnsValue None), Some (AnsInt 3 None)]"
proof -
  have p: "parseStoredInt ''41'' = Some 41"
    by (simp add: parseStoredInt_def ParseInt_def ParseUint_def is_digit_def dec_val_def digit_val_def)
  show ?thesis
    by (subst engine_refines_table [OF fair_sorted_list_of_fset])
      (simp_all add: seen_def spec_expiry_def ExpiresIn_def p int64_defs time_Sub_def)
qed



lemma view_delete_dead:
  assumes "live_loop s at ks {||} [] = []" "store_view s at = store_view s now" "now \<le> t"
  shows "store_view (delete_all s ks) t = store_view s t"
proof -
  have "{k \<in> set ks. store_view s now k \<noteq> None} = {}" using live_requested(1) [of s at ks] assms(1,2) by simp
  then have "store_view s t k = None" if "k \<in> set ks" for k
    using st.absent_stays_absent [of s now k t] assms(3) that by blast
  then show ?thesis by (simp add: view_delete_all fun_eq_iff)
qed

lemma failed_commit:
  assumes "elog e = Some l" "failed l = Some err"
  shows "commitSet e k v d h f = (e, Inl (if is_ErrFailed err then ErrPersistenceUnavailable err else ErrLog err))"
    "commitDel e ks f = (e, Inl (if is_ErrFailed err then ErrPersistenceUnavailable err else ErrLog err))"
  using assms by (simp_all add: commit_defs log_Append_def)

lemma unseen_delete:
  assumes "live_loop (estore e) (readNow e now) ks {||} [] = []" "now \<le> t"
  shows "store_view (delete_all (estore e) ks) t = store_view (estore e) t"
  using view_delete_dead [OF assms(1) _ assms(2)] by simp

text \<open>
  C19: a failed log stops every mutation before memory. While the log is failed no call of a mutation
  waits, none appends a record, and none changes what any client can see from that instant on.
\<close>

theorem failed_log_refuses:
  assumes "elog e = Some l" "failed l = Some err" "mutation c" "engine_call rng later now e c = (e', out)"
  shows "elog e' = Some l \<and> out \<noteq> None \<and> (\<forall>t \<ge> now. store_view (estore e') t = store_view (estore e) t)"
  using assms unseen_delete [of e now]
  by (cases c) (auto simp: engine_Set_def engine_Expire_def engine_Persist_def engine_Delete_def engine_IncrBy_def
      mutation_defs Let_def failed_commit await_def split: if_splits option.splits)

theorem failed_log_refuses_witness:
  "let l = log_fail (log_Open Always) ''disk full''; e = engine_New\<lparr>elog := Some l, epolicy := Always\<rparr>
   in elog (fst (engine_call sorted_list_of_fset id 0 e (ESet ''k'' ''v'' NoExpiry))) = Some l"
proof -
  let ?l = "log_fail (log_Open Always) ''disk full''"
  let ?e = "engine_New\<lparr>elog := Some ?l, epolicy := Always\<rparr>"
  obtain e' out where c: "engine_call sorted_list_of_fset id 0 ?e (ESet ''k'' ''v'' NoExpiry) = (e', out)"
    by fastforce
  have "failed ?l = Some (ErrFailed ''disk full'')" by (simp add: log_fail_def log_Open_def Let_def)
  from failed_log_refuses [OF _ this _ c] show ?thesis by (simp add: Let_def c del: engine_call.simps)
qed

lemma drained_call:
  assumes "\<not> acceptingMutations e" "engine_call rng later now e c = (e', out)"
  shows "\<not> acceptingMutations e' \<and> elog e' = elog e \<and> (\<forall>t \<ge> now. store_view (estore e') t = store_view (estore e) t)"
proof (cases "mutation c")
  case True
  then show ?thesis using refused_mutation [OF True assms(1)] assms by auto
next
  case False
  then show ?thesis
    using assms store_view_ReclaimExpired [of now _ rng "estore e" expirationSample]
    by (cases c) (auto simp: reclaimOnce_def BeginDrain_def split: prod.splits)
qed

text \<open>
  C20: once the shutdown has begun nothing changes any more. Whatever is called after \<^verbatim>\<open>BeginDrain\<close>, the
  log gets no record and every client sees, from the latest of the calls on, exactly what was there
  before.
\<close>

theorem drain_freezes:
  assumes "engine_run rng later (BeginDrain e) cs = (e', as)" "\<forall>x \<in> set cs. fst x \<le> t"
  shows "\<not> acceptingMutations e' \<and> elog e' = elog e \<and> store_view (estore e') t = store_view (estore e) t"
proof -
  have "\<not> acceptingMutations e0 \<Longrightarrow> engine_run rng later e0 cs = (e', as) \<Longrightarrow>
      \<not> acceptingMutations e' \<and> elog e' = elog e0 \<and> store_view (estore e') t = store_view (estore e0) t" for e0
    using assms(2)
  proof (induction cs arbitrary: e0 as)
    case (Cons tc cs)
    obtain u c where tc: "tc = (u, c)" by fastforce
    obtain e1 a where c: "engine_call rng later u e0 c = (e1, a)" by fastforce
    from Cons.prems(2) obtain as1 where "engine_run rng later e1 cs = (e', as1)"
      by (auto simp: tc c split: prod.splits)
    with Cons.IH [of e1 as1] drained_call [OF Cons.prems(1) c] Cons.prems(3) show ?case by (simp add: tc)
  qed simp
  from this [of "BeginDrain e"] assms(1) show ?thesis by (simp add: BeginDrain_def)
qed

theorem drain_freezes_witness:
  "store_view (estore (fst (engine_run sorted_list_of_fset id (BeginDrain engine_New)
      [(3, ESet ''k'' ''v'' NoExpiry), (4, EReclaim)]))) 9 = store_view store_New 9"
proof -
  let ?cs = "[(3, ESet ''k'' ''v'' NoExpiry), (4, EReclaim)]"
  obtain e' as where r: "engine_run sorted_list_of_fset id (BeginDrain engine_New) ?cs = (e', as)" by fastforce
  from drain_freezes [OF r, of 9] r show ?thesis by (simp add: engine_New_def)
qed

section \<open>Scans through the engine\<close>

text \<open>
  The calls of all clients: pages, each with its time and the answers of the token source, and the
  other calls, which change the store but not the sessions.
\<close>

datatype sevent = SPage time tokens ScanRequest | SCall time ecall

text \<open>
  One client's scan among them: the keys of the pages it asks for with the cursor it holds, and the
  cursor it holds in the end; \<open>None\<close> when its session is gone or a call does not return.
\<close>

fun scan_client :: "string ranger \<Rightarrow> 64 word ranger \<Rightarrow> (log \<Rightarrow> log) \<Rightarrow> engine \<Rightarrow> 64 word \<Rightarrow> sevent list \<Rightarrow>
    (string list \<times> 64 word) option" where
  "scan_client rng trng later e c [] = Some ([], c)"
| "scan_client rng trng later e c (SCall now call # es) =
     scan_client rng trng later (fst (engine_call rng later now e call)) c es"
| "scan_client rng trng later e c (SPage now toks req # es) =
     (if \<not> live_cursor (scanSessions e) c now then None
      else case engine_Scan rng trng e now toks req of
             None \<Rightarrow> None
           | Some (e', r, _) \<Rightarrow>
               if rCursor req \<noteq> c then scan_client rng trng later e' c es
               else (case r of
                       Inl _ \<Rightarrow> scan_client rng trng later e' c es
                     | Inr res \<Rightarrow>
                         if Cursor res = 0 then Some (RKeys res, 0)
                         else map_option (map_prod ((@) (RKeys res)) id) (scan_client rng trng later e' (Cursor res) es)))"

lemma sessions_call: "scanSessions (fst (engine_call rng later now e c)) = scanSessions e"
proof (cases "c = EDrain")
  case False
  then show ?thesis using call_frame [of rng later now e c] by (cases "engine_call rng later now e c") (simp add: same_frame_def)
qed (simp add: BeginDrain_def)

lemma engine_Scan_first:
  assumes "fair_ranger rng" "rCursor req = 0"
  shows "engine_Scan rng trng e now toks req =
    (let pattern = (if rPatternSet req then rPattern req else ''*'')
     in map_option (\<lambda>(m, r, toks'). (e\<lparr>scanSessions := m\<rparr>, r, toks'))
          (scan_start trng (scanSessions e) (matching_keys (estore e) now pattern) (store_PhysicalLen (estore e)) pattern
            (rCount req) now toks))"
  using assms by (simp add: engine_Scan_def captureLiveKeys_def scan_snapshot Let_def del: filterSnapshot_eq)

lemma engine_Scan_cases:
  assumes "engine_Scan rng trng e now toks req = Some (e', r, ts)"
  obtains (Next) m where "rCursor req \<noteq> 0" "e' = e\<lparr>scanSessions := m\<rparr>"
      "scan_next trng (scanSessions e) (rCursor req) (rPattern req) (rPatternSet req) (rCount req) now toks = Some (m, r, ts)"
    | (Start) keys cap pattern m where "rCursor req = 0" "e' = e\<lparr>scanSessions := m\<rparr>"
      "scan_start trng (scanSessions e) keys cap pattern (rCount req) now toks = Some (m, r, ts)"
  using assms by (auto simp: engine_Scan_def captureLiveKeys_def Let_def split: if_splits)

lemma engine_Scan_sessions [kv_inv]:
  assumes "sessions_inv (scanSessions e)" "engine_Scan rng trng e now toks req = Some (e', r, ts)"
  shows "sessions_inv (scanSessions e')"
  using assms(2)
  by (cases rule: engine_Scan_cases) (simp_all add: sessions_inv_next [OF assms(1)] sessions_inv_start [OF assms(1)])

lemma scan_client_remaining:
  assumes "fair_ranger rng" "fair_ranger trng"
  shows "sessions_inv (scanSessions e) \<Longrightarrow> c \<noteq> 0 \<Longrightarrow> scan_client rng trng later e c es = Some (ks, 0) \<Longrightarrow>
    ks = remaining (scanSessions e) c"
proof (induction es arbitrary: e c ks)
  case (Cons ev es)
  show ?case
  proof (cases ev)
    case (SCall now call)
    then show ?thesis using Cons.IH [of "fst (engine_call rng later now e call)" c ks] Cons.prems
      by (simp add: sessions_call del: engine_call.simps)
  next
    case (SPage now toks req)
    then have live: "live_cursor (scanSessions e) c now" using Cons.prems(3) by (simp split: if_splits)
    obtain e' r ts where s: "engine_Scan rng trng e now toks req = Some (e', r, ts)"
      using Cons.prems(3) SPage live by (cases "engine_Scan rng trng e now toks req") auto
    have inv: "sessions_inv (scanSessions e')" using Cons.prems(1) s by (rule engine_Scan_sessions)
    note rest = Cons.prems(3) [unfolded SPage scan_client.simps s option.case prod.case]
    show ?thesis
    proof (cases "rCursor req = c")
      case False
      have "fmlookup (sessions (scanSessions e')) c = fmlookup (sessions (scanSessions e)) c"
        using s by (cases rule: engine_Scan_cases)
          (simp_all add: start_keeps [OF assms(2) live] next_keeps [OF assms(2) live False])
      then have "remaining (scanSessions e') c = remaining (scanSessions e) c" by (simp add: remaining_def)
      then show ?thesis using Cons.IH [OF inv Cons.prems(2)] rest live False by simp
    next
      case True
      then obtain m where n: "scan_next trng (scanSessions e) c (rPattern req) (rPatternSet req) (rCount req) now toks
          = Some (m, r, ts)" and m: "scanSessions e' = m"
        using engine_Scan_cases [OF s] Cons.prems(2) by (metis engine.select_convs(3) engine.update_convs(3) engine.surjective)
      note hand = next_hands_on [OF assms(2) Cons.prems(1) live n]
      show ?thesis
      proof (cases r)
        case (Inl x)
        then have "remaining (scanSessions e') c = remaining (scanSessions e) c" using hand m by (simp add: remaining_def)
        then show ?thesis using Cons.IH [OF inv Cons.prems(2)] rest live True Inl by simp
      next
        case (Inr res)
        show ?thesis
        proof (cases "Cursor res = 0")
          case zero: True
          then show ?thesis using rest live True Inr hand by simp
        next
          case more: False
          then obtain ks1 where "scan_client rng trng later e' (Cursor res) es = Some (ks1, 0)" "ks = RKeys res @ ks1"
            using rest live True Inr by auto
          then show ?thesis using Cons.IH [OF inv more] hand Inr more m by simp
        qed
      qed
    qed
  qed
qed simp

text \<open>
  C11: \<^verbatim>\<open>SCAN\<close> and \<^verbatim>\<open>KEYS\<close> list the same keys. The pages of one scan, from the first to the one that
  comes with cursor 0, are together the sorted list of the keys that were live and matched the
  pattern at the instant of the first page, each exactly once, although other clients set, delete,
  expire and scan between the pages.
\<close>

theorem scan_lists_snapshot:
  assumes "fair_ranger rng" "fair_ranger trng" "sessions_inv (scanSessions e)" "rCursor req = 0"
    and first: "engine_Scan rng trng e now toks req = Some (e1, Inr res, ts)"
    and rest: "Cursor res = 0 \<and> ks = [] \<or> Cursor res \<noteq> 0 \<and> scan_client rng trng later e1 (Cursor res) es = Some (ks, 0)"
  shows "RKeys res @ ks = engine_Keys rng e now (if rPatternSet req then rPattern req else ''*'')"
proof -
  let ?p = "if rPatternSet req then rPattern req else ''*''"
  let ?keys = "matching_keys (estore e) now ?p"
  obtain m where st: "scan_start trng (scanSessions e) ?keys (store_PhysicalLen (estore e)) ?p (rCount req) now toks
      = Some (m, Inr res, ts)" and m: "scanSessions e1 = m"
    using first by (auto simp: engine_Scan_first [OF assms(1,4)] Let_def)
  have inv: "sessions_inv (scanSessions e1)" using assms(3) first by (rule engine_Scan_sessions)
  have "RKeys res @ ks = ?keys"
    using st refl refl refl
  proof (cases rule: scan_start_cases)
    case (Kept t)
    have "t \<noteq> 0" using nextToken_fresh [OF Kept(1)] by simp
    then have "ks = remaining m t"
      using rest scan_client_remaining [OF assms(1,2) inv] Kept(6) m by auto
    also have "\<dots> = drop (scanPageEnd 0 (length ?keys) (rCount req)) ?keys"
      unfolding Kept(7) by (simp add: remaining_def)
    finally show ?thesis using Kept(6) by simp
  qed (use rest in auto)
  then show ?thesis by (simp add: engine_Keys_view [OF assms(1)])
qed

text \<open>A store with two keys, listed in pages of one.\<close>

definition two_keys :: engine where
  "two_keys = engine_New\<lparr>estore := store_Set (store_Set store_New ''b'' ''2'' 0 False) ''a'' ''1'' 0 False\<rparr>"

lemma two_keys_listed: "matching_keys (estore two_keys) 0 ''*'' = [''a'', ''b'']"
proof -
  have "live_keys (estore two_keys) 0 = set [''a'', ''b'']"
    by (auto simp: two_keys_def live_keys_def store_view_def store_Set_def store_New_def)
  then have "sorted_list_of_set (live_keys (estore two_keys) 0) = sort [''a'', ''b'']"
    by (simp only: sorted_list_of_set_sort_remdups) simp
  moreover have "sort [''a'', ''b''] = [''a'', ''b'']" by code_simp
  moreover have "filter (matches (tokenize ''*'')) [''a'', ''b''] = [''a'', ''b'']" by code_simp
  ultimately show ?thesis by (simp only: matching_keys_def)
qed

theorem scan_lists_snapshot_witness:
  "\<exists>e1. engine_Scan sorted_list_of_fset sorted_list_of_fset two_keys 0 [Inr 7]
       \<lparr>rCursor = 0, rPattern = [], rPatternSet = False, rCount = 1\<rparr>
     = Some (e1, Inr \<lparr>Cursor = 7, RKeys = [''a'']\<rparr>, [])
     \<and> scan_client sorted_list_of_fset sorted_list_of_fset id e1 7
         [SPage 1 [] \<lparr>rCursor = 7, rPattern = [], rPatternSet = False, rCount = 1\<rparr>] = Some ([''b''], 0)
     \<and> engine_Keys sorted_list_of_fset two_keys 0 ''*'' = [''a'', ''b'']"
proof -
  let ?rng = "sorted_list_of_fset" and ?req = "\<lambda>c. \<lparr>rCursor = c, rPattern = [], rPatternSet = False, rCount = 1\<rparr>"
  let ?m = "newScanSessionManager defaultScanSessionLimits"
  have sm: "scanSessions two_keys = ?m" "store_PhysicalLen (estore two_keys) = 2"
    by (simp_all add: two_keys_def engine_New_def store_PhysicalLen_def store_Set_def store_New_def map_len_fmupd)
  have b: "scanSessionBytes [''a'', ''b''] 2 ''*'' = 99"
    by (simp add: scanSessionBytes_def scanSessionRetainedBytes_def scanSaturatingAdd_def
        scanSaturatingMultiply_def MaxUint64_def scanStringBytes_def scanSessionOverhead_def)
  let ?s = "\<lparr>skeys = [''a'', ''b''], spattern = ''*'', position = 1, lastUsed = 0, sbytes = 99, stoken = 7\<rparr>"
  let ?m1 = "?m\<lparr>sessions := fmupd 7 ?s fmempty, mbytes := 99\<rparr>"
  let ?e1 = "two_keys\<lparr>scanSessions := ?m1\<rparr>"
  have "scan_start ?rng ?m [''a'', ''b''] 2 ''*'' 1 0 [Inr 7] = Some (?m1, Inr \<lparr>Cursor = 7, RKeys = [''a'']\<rparr>, [])"
    by (simp add: scan_start_def b newScanSessionManager_def expire_none scanPageEnd_def Let_def
        defaultScanSessionLimits_def maxScanSessions_def maxScanSessionBytes_def)
  then have first: "engine_Scan ?rng ?rng two_keys 0 [Inr 7] (?req 0) = Some (?e1, Inr \<lparr>Cursor = 7, RKeys = [''a'']\<rparr>, [])"
    by (subst engine_Scan_first [OF fair_sorted_list_of_fset]) (simp_all add: sm two_keys_listed)
  have "live_cursor ?m1 7 1" "expireLocked ?rng ?m1 1 = ?m1"
    by (simp_all add: live_cursor_def due_def expire_none fmpred_iff newScanSessionManager_def
        defaultScanSessionLimits_def scanSessionTTL_def nsPerSec_def time_Add_def)
  then have "scan_next ?rng ?m1 7 [] False 1 1 [] = Some (removeLocked ?m1 7 ?s, Inr \<lparr>Cursor = 0, RKeys = [''b'']\<rparr>, [])"
    by (simp add: scan_next_def scanPageEnd_def)
  then have rest: "scan_client ?rng ?rng id ?e1 7 [SPage 1 [] (?req 7)] = Some ([''b''], 0)"
    using \<open>live_cursor ?m1 7 1\<close> by (simp add: engine_Scan_def)
  have "sessions_inv (scanSessions two_keys)" by (simp add: sm sessions_inv_new)
  from scan_lists_snapshot [OF fair_sorted_list_of_fset fair_sorted_list_of_fset this _ first, where ks = "[''b'']"]
    first rest show ?thesis by (force simp del: scan_client.simps)
qed

end
