(* ===== verification/Engine_Worker.thy ===== *)
theory Engine_Worker
  imports Engine_Spec
begin

text \<open>
  The active expiration worker of \<^verbatim>\<open>internal/engine/engine.go\<close>: \<^verbatim>\<open>StartExpiration\<close> spawns a goroutine that
  sweeps on every tick, \<^verbatim>\<open>StopExpiration\<close> closes its stop channel and waits for it. Any number of callers
  start and stop it at any time; each operation is split where it gives up \<^verbatim>\<open>expMu\<close>.
\<close>

section \<open>State and operations\<close>

text \<open>
  A worker is known by the number of its pair of channels. \<open>handle\<close> is \<^verbatim>\<open>e.expStop\<close>; \<open>stops\<close> counts how
  often a stop channel was closed (a second close panics), \<open>exited\<close> holds the workers whose \<^verbatim>\<open>done\<close>
  channel is closed. \<open>stopping\<close> holds the channels that callers of \<^verbatim>\<open>StopExpiration\<close> have taken and
  not closed yet.
\<close>

record worker =
  keng :: engine
  handle :: "nat option"
  spawned :: nat
  stopping :: "nat list"
  stops :: "nat \<Rightarrow> nat"
  exited :: "nat set"

definition worker_New :: "engine \<Rightarrow> worker" where
  "worker_New e = \<lparr>keng = e, handle = None, spawned = 0, stopping = [], stops = (\<lambda>_. 0), exited = {}\<rparr>"

definition startExpiration :: "worker \<Rightarrow> worker" where
  "startExpiration w =
     (case handle w of
        Some _ \<Rightarrow> w
      | None \<Rightarrow> w\<lparr>handle := Some (spawned w), spawned := Suc (spawned w)\<rparr>)"

text \<open>The critical section of \<^verbatim>\<open>StopExpiration\<close>, and the close of the channel it took.\<close>

definition stop_take :: "worker \<Rightarrow> worker" where
  "stop_take w =
     (case handle w of
        None \<Rightarrow> w
      | Some i \<Rightarrow> w\<lparr>handle := None, stopping := i # stopping w\<rparr>)"

definition stop_close :: "nat \<Rightarrow> worker \<Rightarrow> worker" where
  "stop_close i w = w\<lparr>stopping := remove1 i (stopping w), stops := (stops w)(i := Suc (stops w i))\<rparr>"

text \<open>What \<^verbatim>\<open>StopExpiration\<close> returns once it has closed channel \<open>i\<close>: it waits, or gives up with its context.\<close>

definition stop_returns_nil :: "nat \<Rightarrow> worker \<Rightarrow> bool" where
  "stop_returns_nil i w \<longleftrightarrow> i \<in> exited w"

definition sweeping :: "worker \<Rightarrow> nat \<Rightarrow> bool" where
  "sweeping w i \<longleftrightarrow> i < spawned w \<and> i \<notin> exited w"

text \<open>The loop of the goroutine: a closed stop channel ends it, a tick sweeps; when both are ready either may happen.\<close>

inductive worker_step :: "worker \<Rightarrow> worker \<Rightarrow> bool" where
  start: "worker_step w (startExpiration w)"
| take: "worker_step w (stop_take w)"
| close: "i \<in> set (stopping w) \<Longrightarrow> worker_step w (stop_close i w)"
| tick: "sweeping w i \<Longrightarrow> fair_ranger rng \<Longrightarrow> worker_step w (w\<lparr>keng := fst (reclaimOnce rng (keng w) now)\<rparr>)"
| leave: "sweeping w i \<Longrightarrow> 0 < stops w i \<Longrightarrow> worker_step w (w\<lparr>exited := insert i (exited w)\<rparr>)"

inductive worker_reachable :: "engine \<Rightarrow> worker \<Rightarrow> bool" for e where
  fresh: "worker_reachable e (worker_New e)"
| moved: "worker_reachable e w \<Longrightarrow> worker_step w w' \<Longrightarrow> worker_reachable e w'"

inductive_cases worker_stepE: "worker_step w w'"

section \<open>One worker, one close\<close>

text \<open>Every channel made so far is held by the engine, held by a caller that is stopping it, or closed once.\<close>

definition worker_inv :: "worker \<Rightarrow> bool" where
  "worker_inv w \<longleftrightarrow>
     distinct (stopping w)
     \<and> (\<forall>i. stops w i = (if i < spawned w \<and> handle w \<noteq> Some i \<and> i \<notin> set (stopping w) then 1 else 0))
     \<and> (\<forall>i \<in> set (stopping w). i < spawned w \<and> handle w \<noteq> Some i) \<and> (\<forall>i. handle w = Some i \<longrightarrow> i < spawned w)
     \<and> (\<forall>i \<in> exited w. i < spawned w \<and> handle w \<noteq> Some i \<and> i \<notin> set (stopping w))"

lemma worker_inv_step: "worker_inv w \<Longrightarrow> worker_step w w' \<Longrightarrow> worker_inv w'"
proof (erule worker_stepE, goal_cases)
  case 1
  then show ?case by (cases "handle w") (auto simp: worker_inv_def startExpiration_def less_Suc_eq)
next
  case 2
  then show ?case by (cases "handle w") (auto simp: worker_inv_def stop_take_def)
next
  case (3 i)
  then show ?case by (auto simp: worker_inv_def stop_close_def)
qed (auto simp: worker_inv_def split: if_splits)

lemma worker_inv_reachable: "worker_reachable e w \<Longrightarrow> worker_inv w"
proof (induction rule: worker_reachable.induct)
  case fresh
  show ?case by (simp add: worker_New_def worker_inv_def)
qed (rule worker_inv_step)

text \<open>
  C32: however often and by whomever the expiration worker is started and stopped, no stop channel is
  closed twice (which would panic), at most one worker is running that nobody has begun to stop, and a
  worker that has left was told to.
\<close>

theorem worker_discipline:
  assumes "worker_reachable e w"
  shows "stops w i \<le> 1 \<and> (\<exists>k. \<forall>j. sweeping w j \<and> stops w j = 0 \<and> j \<notin> set (stopping w) \<longrightarrow> j = k)
    \<and> (stop_returns_nil i w \<longrightarrow> stops w i = 1 \<and> handle w \<noteq> Some i)"
proof -
  have inv: "worker_inv w" using assms by (rule worker_inv_reachable)
  have "\<forall>j. sweeping w j \<and> stops w j = 0 \<and> j \<notin> set (stopping w) \<longrightarrow> j = the (handle w)"
    using inv by (auto simp: worker_inv_def sweeping_def split: if_splits)
  then show ?thesis using inv by (auto simp: worker_inv_def stop_returns_nil_def split: if_splits)
qed

theorem worker_discipline_witness:
  "\<exists>w. worker_reachable engine_New w \<and> spawned w = 2 \<and> stop_returns_nil 0 w \<and> stops w 0 = 1 \<and> handle w = Some 1"
proof -
  let ?w = "\<lambda>w. startExpiration (stop_close 0 (stop_take (startExpiration w)))"
  let ?n = "worker_New engine_New"
  have "worker_reachable engine_New (stop_close 0 (stop_take (startExpiration ?n)))"
    by (intro moved [OF moved [OF moved [OF fresh start] take] close])
      (simp add: worker_New_def startExpiration_def stop_take_def)
  then have "worker_reachable engine_New (?w ?n)" by (rule moved [OF _ start])
  then have "worker_reachable engine_New ((?w ?n)\<lparr>exited := insert 0 (exited (?w ?n))\<rparr>)"
    by (rule moved [OF _ leave])
      (simp_all add: worker_New_def startExpiration_def stop_take_def stop_close_def sweeping_def)
  from this worker_discipline [OF this, of 0] show ?thesis
    by (intro exI [of _ "(?w ?n)\<lparr>exited := insert 0 (exited (?w ?n))\<rparr>"] conjI)
      (simp_all add: worker_New_def startExpiration_def stop_take_def stop_close_def stop_returns_nil_def)
qed

end
