(* ===== verification/Command.thy ===== *)
theory Command
  imports Engine_Spec
begin

text \<open>
  The command layer: \<^verbatim>\<open>internal/command/command.go\<close>, \<^verbatim>\<open>discovery.go\<close> and \<^verbatim>\<open>reply.go\<close>. A request is the
  list of its arguments. A handler gets the engine and what the call needs of the world (the clock,
  the map orders, the token source and the progress of the log), and gives the engine back with its
  outcome: a reply, a wait that does not end, or the panic of an index out of range.
\<close>

section \<open>Replies\<close>

definition ReplySimple :: int where "ReplySimple = 0"
definition ReplyError :: int where "ReplyError = 1"
definition ReplyInt :: int where "ReplyInt = 2"
definition ReplyBulk :: int where "ReplyBulk = 3"
definition ReplyNullBulk :: int where "ReplyNullBulk = 4"
definition ReplyArray :: int where "ReplyArray = 5"

datatype Reply = Reply (rkind: int) (rstr: string) (rint: int) (rarray: "Reply list")

definition Simple :: "string \<Rightarrow> Reply" where
  "Simple s = Reply ReplySimple s 0 []"

definition Err :: "string \<Rightarrow> Reply" where
  "Err s = Reply ReplyError s 0 []"

definition IntReply :: "int \<Rightarrow> Reply" where
  "IntReply n = Reply ReplyInt [] n []"

definition Bulk :: "string \<Rightarrow> Reply" where
  "Bulk s = Reply ReplyBulk s 0 []"

definition NullBulk :: Reply where
  "NullBulk = Reply ReplyNullBulk [] 0 []"

definition Array :: "Reply list \<Rightarrow> Reply" where
  "Array items = Reply ReplyArray [] 0 items"

lemmas reply_kinds = ReplySimple_def ReplyError_def ReplyInt_def ReplyBulk_def ReplyNullBulk_def ReplyArray_def
lemmas reply_defs = Simple_def Err_def IntReply_def Bulk_def NullBulk_def Array_def

section \<open>What a handler runs in\<close>

record env =
  key_order :: "string ranger"
  token_order :: "64 word ranger"
  later_log :: "log \<Rightarrow> log"
  clock :: time
  token_source :: tokens

datatype outcome = Replied Reply | Waiting | Panicked

type_synonym handler = "env \<Rightarrow> engine \<Rightarrow> bytes list \<Rightarrow> engine \<times> outcome"

text \<open>\<^verbatim>\<open>args[i]\<close> and \<^verbatim>\<open>args[i:]\<close>.\<close>

definition with_arg :: "engine \<Rightarrow> bytes list \<Rightarrow> nat \<Rightarrow> (bytes \<Rightarrow> engine \<times> outcome) \<Rightarrow> engine \<times> outcome" where
  "with_arg e args i f = (if i < length args then f (args ! i) else (e, Panicked))"

definition with_rest :: "engine \<Rightarrow> bytes list \<Rightarrow> nat \<Rightarrow> (bytes list \<Rightarrow> engine \<times> outcome) \<Rightarrow> engine \<times> outcome" where
  "with_rest e args i f = (if i \<le> length args then f (drop i args) else (e, Panicked))"

text \<open>The errors that reach this layer, from the engine and from its scan sessions.\<close>

datatype cmd_err = EngineErr engine_err | ScanErr scan_err

definition mutationError :: "cmd_err \<Rightarrow> Reply" where
  "mutationError err =
     (case err of
        EngineErr ErrDraining \<Rightarrow> Err ''ERR server is shutting down''
      | EngineErr (ErrPersistenceUnavailable _) \<Rightarrow> Err ''ERR persistence unavailable''
      | _ \<Rightarrow> Err ''ERR internal error'')"

text \<open>The reply to a call that gives an error or a value, or that waits.\<close>

definition finish_call :: "engine \<times> (engine_err + 'a) option \<Rightarrow> (engine_err \<Rightarrow> Reply) \<Rightarrow> ('a \<Rightarrow> Reply) \<Rightarrow> engine \<times> outcome" where
  "finish_call res bad good =
     (case res of
        (e', None) \<Rightarrow> (e', Waiting)
      | (e', Some (Inl err)) \<Rightarrow> (e', Replied (bad err))
      | (e', Some (Inr x)) \<Rightarrow> (e', Replied (good x)))"

text \<open>\<^verbatim>\<open>if err != nil\<close> on the pair a call returns.\<close>

definition err_or :: "engine \<times> ('a \<times> engine_err option) option \<Rightarrow> engine \<times> (engine_err + 'a) option" where
  "err_or res = map_prod id (map_option (\<lambda>(x, err). case err of None \<Rightarrow> Inr x | Some y \<Rightarrow> Inl y)) res"

abbreviation mutation_reply :: "engine_err \<Rightarrow> Reply" where
  "mutation_reply err \<equiv> mutationError (EngineErr err)"

section \<open>Commands\<close>

definition cmdPing :: handler where
  "cmdPing v e args =
     (if length args = 2 then with_arg e args 1 (\<lambda>a. (e, Replied (Bulk a))) else (e, Replied (Simple ''PONG'')))"

definition maxExpireSeconds :: int where
  "maxExpireSeconds = quo maxInt64 nsPerSec"

definition maxExpireMillis :: int where
  "maxExpireMillis = quo maxInt64 nsPerMs"

definition errNotAnInteger :: string where
  "errNotAnInteger = ''ERR value is not an integer or out of range''"

definition errSyntax :: string where
  "errSyntax = ''ERR syntax error''"

definition errIncrOverflow :: string where
  "errIncrOverflow = ''ERR increment or decrement would overflow''"

definition invalidExpire :: "string \<Rightarrow> Reply" where
  "invalidExpire command = Err (''ERR invalid expire time in '' @ [CHR 0x27] @ command @ [CHR 0x27] @ '' command'')"

fun parse_opts :: "TTL \<Rightarrow> string \<Rightarrow> bytes list \<Rightarrow> Reply + TTL" where
  "parse_opts t unit [] = Inr t"
| "parse_opts t unit (opt # rest) =
     (let name = ToUpper opt in
      if name = ''EX'' \<or> name = ''PX'' then
        (if unit \<noteq> [] \<and> unit \<noteq> name then Inl (Err errSyntax)
         else case rest of
                [] \<Rightarrow> Inl (Err errSyntax)
              | a # rest' \<Rightarrow>
                  (case ParseInt a of
                     None \<Rightarrow> Inl (Err errNotAnInteger)
                   | Some n \<Rightarrow>
                       if n \<le> 0 then Inl (invalidExpire ''set'')
                       else
                         let step = (if name = ''PX'' then nsPerMs else nsPerSec) in
                         if name = ''EX'' \<and> n > maxExpireSeconds \<or> name = ''PX'' \<and> n > maxExpireMillis
                         then Inl (invalidExpire ''set'')
                         else parse_opts (ExpiresIn (wrap64 (n * step))) name rest'))
      else Inl (Err errSyntax))"

definition parseSetOptions :: "bytes list \<Rightarrow> Reply + TTL" where
  "parseSetOptions opts = parse_opts NoExpiry [] opts"

definition cmdSet :: handler where
  "cmdSet v e args =
     with_rest e args 3 (\<lambda>opts.
       case parseSetOptions opts of
         Inl bad \<Rightarrow> (e, Replied bad)
       | Inr t \<Rightarrow>
           with_arg e args 1 (\<lambda>key. with_arg e args 2 (\<lambda>val.
             finish_call (err_or (map_prod id (map_option (Pair ())) (engine_Set (later_log v) e (clock v) key val t)))
               mutation_reply (\<lambda>_. Simple ''OK''))))"

definition incr_error :: "engine_err \<Rightarrow> Reply" where
  "incr_error err =
     (case err of
        ErrNotAnInteger \<Rightarrow> Err errNotAnInteger
      | ErrIncrOverflow \<Rightarrow> Err errIncrOverflow
      | _ \<Rightarrow> mutation_reply err)"

definition incrBy :: "env \<Rightarrow> engine \<Rightarrow> bytes list \<Rightarrow> int \<Rightarrow> engine \<times> outcome" where
  "incrBy v e args delta =
     with_arg e args 1 (\<lambda>key. finish_call (err_or (engine_IncrBy (later_log v) e (clock v) key delta)) incr_error IntReply)"

definition cmdIncr :: handler where
  "cmdIncr v e args = incrBy v e args 1"

definition cmdDecr :: handler where
  "cmdDecr v e args = incrBy v e args (- 1)"

definition boolInt :: "bool \<Rightarrow> Reply" where
  "boolInt b = (if b then IntReply 1 else IntReply 0)"

definition cmdExpire :: handler where
  "cmdExpire v e args =
     with_arg e args 2 (\<lambda>a.
       case ParseInt a of
         None \<Rightarrow> (e, Replied (Err errNotAnInteger))
       | Some n \<Rightarrow>
           with_arg e args 1 (\<lambda>key.
             if n \<le> 0 then finish_call (err_or (engine_Delete (later_log v) e (clock v) [key])) mutation_reply IntReply
             else if n > maxExpireSeconds then (e, Replied (invalidExpire ''expire''))
             else finish_call (err_or (engine_Expire (later_log v) e (clock v) key (wrap64 (n * nsPerSec))))
                    mutation_reply boolInt))"

definition cmdTTL :: handler where
  "cmdTTL v e args =
     with_arg e args 1 (\<lambda>key.
       case engine_TTL e (clock v) key of
         (d, NoKey) \<Rightarrow> (e, Replied (IntReply (- 2)))
       | (d, NoTTL) \<Rightarrow> (e, Replied (IntReply (- 1)))
       | (d, HasTTL) \<Rightarrow>
           let ms = dur_Milliseconds d;
               ms' = (if ms < 0 then 0 else ms)
           in (e, Replied (IntReply (quo (wrap64 (ms' + 500)) 1000))))"

definition cmdPersist :: handler where
  "cmdPersist v e args =
     with_arg e args 1 (\<lambda>key. finish_call (err_or (engine_Persist (later_log v) e (clock v) key)) mutation_reply boolInt)"

definition cmdGet :: handler where
  "cmdGet v e args =
     with_arg e args 1 (\<lambda>key.
       (e, Replied (case engine_Get e (clock v) key of None \<Rightarrow> NullBulk | Some x \<Rightarrow> Bulk x)))"

text \<open>\<^verbatim>\<open>args[1:]\<close> with every element copied.\<close>

definition ownedKeys :: "bytes list \<Rightarrow> string list" where
  "ownedKeys args = foldl (\<lambda>keys a. keys @ [a]) [] (drop 1 args)"

definition cmdMGet :: handler where
  "cmdMGet v e args =
     with_rest e args 1 (\<lambda>_.
       (e, Replied (Array (foldl (\<lambda>items r. items @ [case r of None \<Rightarrow> NullBulk | Some x \<Rightarrow> Bulk x]) []
              (engine_MGet e (clock v) (ownedKeys args))))))"

definition cmdDel :: handler where
  "cmdDel v e args =
     with_rest e args 1 (\<lambda>_. finish_call (err_or (engine_Delete (later_log v) e (clock v) (ownedKeys args))) mutation_reply IntReply)"

definition cmdExists :: handler where
  "cmdExists v e args = with_rest e args 1 (\<lambda>_. (e, Replied (IntReply (engine_Exists e (clock v) (ownedKeys args)))))"

section \<open>Discovery\<close>

definition defaultScanCount :: "64 word" where
  "defaultScanCount = 10"

definition errInvalidCursor :: string where
  "errInvalidCursor = ''ERR invalid cursor''"

definition errScanSessionLimit :: string where
  "errScanSessionLimit = ''ERR scan session limit reached''"

definition errScanMatchChanged :: string where
  "errScanMatchChanged = ''ERR scan MATCH cannot change during iteration''"

definition bulks :: "string list \<Rightarrow> Reply list" where
  "bulks keys = foldl (\<lambda>items key. items @ [Bulk key]) [] keys"

definition cmdKeys :: handler where
  "cmdKeys v e args =
     with_arg e args 1 (\<lambda>pattern. (e, Replied (Array (bulks (engine_Keys (key_order v) e (clock v) pattern)))))"

definition cmdDBSize :: handler where
  "cmdDBSize v e args = (e, Replied (IntReply (int (engine_DBSize (key_order v) e (clock v)))))"

fun scan_opts :: "ScanRequest \<Rightarrow> bytes list \<Rightarrow> Reply + ScanRequest" where
  "scan_opts req [] = Inr req"
| "scan_opts req (opt # rest) =
     (let name = ToUpper opt in
      if name = ''MATCH'' then
        (case rest of
           [] \<Rightarrow> Inl (Err errSyntax)
         | a # rest' \<Rightarrow> scan_opts (req\<lparr>rPattern := a, rPatternSet := True\<rparr>) rest')
      else if name = ''COUNT'' then
        (case rest of
           [] \<Rightarrow> Inl (Err errSyntax)
         | a # rest' \<Rightarrow>
             (case ParseInt a of
                None \<Rightarrow> Inl (Err errNotAnInteger)
              | Some n \<Rightarrow> if n \<le> 0 then Inl (Err errSyntax) else scan_opts (req\<lparr>rCount := of_int n\<rparr>) rest'))
      else Inl (Err errSyntax))"

text \<open>\<open>None\<close> is a panic.\<close>

definition parseScan :: "bytes list \<Rightarrow> (Reply + ScanRequest) option" where
  "parseScan args =
     (if length args < 2 then None
      else
        let signed = (case args ! 1 of [] \<Rightarrow> False | c # _ \<Rightarrow> c = CHR ''+'');
            cursorText = (if signed then drop 1 (args ! 1) else args ! 1)
        in Some (if signed \<and> cursorText = [] then Inl (Err errInvalidCursor)
                 else case ParseUint cursorText of
                        None \<Rightarrow> Inl (Err errInvalidCursor)
                      | Some c \<Rightarrow>
                          scan_opts \<lparr>rCursor = of_nat c, rPattern = [], rPatternSet = False, rCount = defaultScanCount\<rparr>
                            (drop 2 args)))"

definition scanError :: "scan_err \<Rightarrow> Reply" where
  "scanError err =
     (case err of
        ErrInvalidCursor \<Rightarrow> Err errInvalidCursor
      | ErrScanSessionLimit \<Rightarrow> Err errScanSessionLimit
      | ErrScanMatchChanged \<Rightarrow> Err errScanMatchChanged
      | _ \<Rightarrow> mutationError (ScanErr err))"

definition cmdScan :: handler where
  "cmdScan v e args =
     (case parseScan args of
        None \<Rightarrow> (e, Panicked)
      | Some (Inl bad) \<Rightarrow> (e, Replied bad)
      | Some (Inr req) \<Rightarrow>
          (case engine_Scan (key_order v) (token_order v) e (clock v) (token_source v) req of
             None \<Rightarrow> (e, Waiting)
           | Some (e', Inl err, _) \<Rightarrow> (e', Replied (scanError err))
           | Some (e', Inr page, _) \<Rightarrow>
               (e', Replied (Array [Bulk (FormatUint (unat (Cursor page))), Array (bulks (RKeys page))]))))"

section \<open>The registry\<close>

record cmd_spec =
  minArgs :: int
  maxArgs :: int
  run :: handler

definition Registry_New :: "(string, cmd_spec) fmap" where
  "Registry_New = fmap_of_list
     [(''PING'', \<lparr>minArgs = 1, maxArgs = 2, run = cmdPing\<rparr>),
      (''SET'', \<lparr>minArgs = 3, maxArgs = -1, run = cmdSet\<rparr>),
      (''GET'', \<lparr>minArgs = 2, maxArgs = 2, run = cmdGet\<rparr>),
      (''MGET'', \<lparr>minArgs = 2, maxArgs = -1, run = cmdMGet\<rparr>),
      (''DEL'', \<lparr>minArgs = 2, maxArgs = -1, run = cmdDel\<rparr>),
      (''EXISTS'', \<lparr>minArgs = 2, maxArgs = -1, run = cmdExists\<rparr>),
      (''INCR'', \<lparr>minArgs = 2, maxArgs = 2, run = cmdIncr\<rparr>),
      (''DECR'', \<lparr>minArgs = 2, maxArgs = 2, run = cmdDecr\<rparr>),
      (''EXPIRE'', \<lparr>minArgs = 3, maxArgs = 3, run = cmdExpire\<rparr>),
      (''TTL'', \<lparr>minArgs = 2, maxArgs = 2, run = cmdTTL\<rparr>),
      (''PERSIST'', \<lparr>minArgs = 2, maxArgs = 2, run = cmdPersist\<rparr>),
      (''KEYS'', \<lparr>minArgs = 2, maxArgs = 2, run = cmdKeys\<rparr>),
      (''SCAN'', \<lparr>minArgs = 2, maxArgs = -1, run = cmdScan\<rparr>),
      (''DBSIZE'', \<lparr>minArgs = 1, maxArgs = 1, run = cmdDBSize\<rparr>)]"

definition maxEchoedName :: nat where
  "maxEchoedName = 128"

definition echoName :: "bytes \<Rightarrow> string" where
  "echoName b = (if length b > maxEchoedName then take maxEchoedName b @ ''...'' else b)"

definition Dispatch :: "(string, cmd_spec) fmap \<Rightarrow> handler" where
  "Dispatch cmds v e args =
     (case args of
        [] \<Rightarrow> (e, Replied (Err ''ERR empty command''))
      | a0 # _ \<Rightarrow>
          (let name = ToUpper a0 in
           case fmlookup cmds name of
             None \<Rightarrow> (e, Replied (Err (''ERR unknown command '' @ [CHR 0x27] @ echoName a0 @ [CHR 0x27])))
           | Some sp \<Rightarrow>
               if int (length args) < minArgs sp \<or> maxArgs sp \<ge> 0 \<and> int (length args) > maxArgs sp
               then (e, Replied (Err (''ERR wrong number of arguments for '' @ [CHR 0x27] @ ToLower name @ [CHR 0x27]
                       @ '' command'')))
               else run sp v e args))"

section \<open>What a request means\<close>

text \<open>
  The table of the commands, as a client reads it: a request is answered at once, asks the engine for
  one call, or asks for a page of a scan.
\<close>

datatype request = AtOnce Reply | Ask ecall "eanswer \<Rightarrow> Reply" | Page ScanRequest

definition or_error :: "(engine_err \<Rightarrow> Reply) \<Rightarrow> engine_err option \<Rightarrow> Reply \<Rightarrow> Reply" where
  "or_error bad err r = (case err of None \<Rightarrow> r | Some x \<Rightarrow> bad x)"

fun reply_of :: "(engine_err \<Rightarrow> Reply) \<Rightarrow> eanswer \<Rightarrow> Reply" where
  "reply_of bad (AnsValue x) = (case x of None \<Rightarrow> NullBulk | Some v \<Rightarrow> Bulk v)"
| "reply_of bad (AnsValues xs) = Array (map (\<lambda>x. case x of None \<Rightarrow> NullBulk | Some v \<Rightarrow> Bulk v) xs)"
| "reply_of bad (AnsKeys ks) = Array (map Bulk ks)"
| "reply_of bad (AnsInt i err) = or_error bad err (IntReply i)"
| "reply_of bad (AnsBool b err) = or_error bad err (IntReply (if b then 1 else 0))"
| "reply_of bad (AnsDone err) = or_error bad err (Simple ''OK'')"
| "reply_of bad (AnsTTL d st) =
     IntReply (case st of NoKey \<Rightarrow> - 2 | NoTTL \<Rightarrow> - 1 | HasTTL \<Rightarrow> (max 0 (quo d nsPerMs) + 500) div 1000)"

definition wrong_arity :: "string \<Rightarrow> request" where
  "wrong_arity name = AtOnce (Err (''ERR wrong number of arguments for '' @ [CHR 0x27] @ ToLower name @ [CHR 0x27] @ '' command''))"

abbreviation ask :: "ecall \<Rightarrow> request" where
  "ask c \<equiv> Ask c (reply_of mutation_reply)"

definition request_of :: "bytes list \<Rightarrow> request" where
  "request_of args =
     (case args of
        [] \<Rightarrow> AtOnce (Err ''ERR empty command'')
      | a0 # rest \<Rightarrow>
          (let name = ToUpper a0 in
           if name = ''PING'' then
             (case rest of [] \<Rightarrow> AtOnce (Simple ''PONG'') | [m] \<Rightarrow> AtOnce (Bulk m) | _ \<Rightarrow> wrong_arity name)
           else if name = ''SET'' then
             (case rest of
                k # v # opts \<Rightarrow> (case parseSetOptions opts of Inl bad \<Rightarrow> AtOnce bad | Inr t \<Rightarrow> ask (ESet k v t))
              | _ \<Rightarrow> wrong_arity name)
           else if name = ''GET'' then (case rest of [k] \<Rightarrow> ask (EGet k) | _ \<Rightarrow> wrong_arity name)
           else if name = ''MGET'' then (if rest = [] then wrong_arity name else ask (EMGet rest))
           else if name = ''DEL'' then (if rest = [] then wrong_arity name else ask (EDelete rest))
           else if name = ''EXISTS'' then (if rest = [] then wrong_arity name else ask (EExists rest))
           else if name = ''INCR'' then
             (case rest of [k] \<Rightarrow> Ask (EIncrBy k 1) (reply_of incr_error) | _ \<Rightarrow> wrong_arity name)
           else if name = ''DECR'' then
             (case rest of [k] \<Rightarrow> Ask (EIncrBy k (- 1)) (reply_of incr_error) | _ \<Rightarrow> wrong_arity name)
           else if name = ''EXPIRE'' then
             (case rest of
                [k, a] \<Rightarrow>
                  (case ParseInt a of
                     None \<Rightarrow> AtOnce (Err errNotAnInteger)
                   | Some n \<Rightarrow>
                       if n \<le> 0 then ask (EDelete [k])
                       else if n > maxInt64 div nsPerSec then AtOnce (invalidExpire ''expire'')
                       else ask (EExpire k (n * nsPerSec)))
              | _ \<Rightarrow> wrong_arity name)
           else if name = ''TTL'' then (case rest of [k] \<Rightarrow> ask (ETTL k) | _ \<Rightarrow> wrong_arity name)
           else if name = ''PERSIST'' then (case rest of [k] \<Rightarrow> ask (EPersist k) | _ \<Rightarrow> wrong_arity name)
           else if name = ''KEYS'' then (case rest of [k] \<Rightarrow> ask (EKeys k) | _ \<Rightarrow> wrong_arity name)
           else if name = ''SCAN'' then
             (if rest = [] then wrong_arity name
              else case the (parseScan args) of Inl bad \<Rightarrow> AtOnce bad | Inr req \<Rightarrow> Page req)
           else if name = ''DBSIZE'' then (if rest = [] then ask EDBSize else wrong_arity name)
           else AtOnce (Err (''ERR unknown command '' @ [CHR 0x27] @ echoName a0 @ [CHR 0x27]))))"

definition perform :: "env \<Rightarrow> engine \<Rightarrow> request \<Rightarrow> engine \<times> outcome" where
  "perform v e q =
     (case q of
        AtOnce r \<Rightarrow> (e, Replied r)
      | Ask c f \<Rightarrow>
          (case engine_call (key_order v) (later_log v) (clock v) e c of
             (e', None) \<Rightarrow> (e', Waiting)
           | (e', Some a) \<Rightarrow> (e', Replied (f a)))
      | Page req \<Rightarrow>
          (case engine_Scan (key_order v) (token_order v) e (clock v) (token_source v) req of
             None \<Rightarrow> (e, Waiting)
           | Some (e', Inl err, _) \<Rightarrow> (e', Replied (scanError err))
           | Some (e', Inr page, _) \<Rightarrow>
               (e', Replied (Array [Bulk (FormatUint (unat (Cursor page))), Array (map Bulk (RKeys page))]))))"

lemma ownedKeys_eq [simp]: "ownedKeys args = drop 1 args"
  using foldl_snoc_map [of "\<lambda>a. a" "[]" "drop 1 args"] by (simp add: ownedKeys_def)

lemma bulks_eq [simp]: "bulks keys = map Bulk keys"
  using foldl_snoc_map [of Bulk "[]" keys] by (simp add: bulks_def)

lemma finish_pair:
  "finish_call (err_or res) bad good =
     (case res of (e', None) \<Rightarrow> (e', Waiting) | (e', Some (x, err)) \<Rightarrow> (e', Replied (or_error bad err (good x))))"
  by (auto simp: finish_call_def err_or_def or_error_def split: prod.splits option.splits)

lemma expire_range:
  assumes "0 < n" "n \<le> maxExpireSeconds"
  shows "is_int64 (n * nsPerSec)" "wrap64 (n * nsPerSec) = n * nsPerSec"
proof -
  have "n \<le> maxInt64 div nsPerSec" using assms(2) by (simp add: maxExpireSeconds_def maxInt64_def nsPerSec_def)
  then have "n * nsPerSec \<le> maxInt64" by (simp add: maxInt64_def nsPerSec_def)
  then show "is_int64 (n * nsPerSec)" using assms(1) by (simp add: int64_defs nsPerSec_def)
  then show "wrap64 (n * nsPerSec) = n * nsPerSec" by simp
qed

lemma maxExpire_eqs: "maxExpireSeconds = maxInt64 div nsPerSec" "maxExpireMillis = maxInt64 div nsPerMs"
  by (simp_all add: maxExpireSeconds_def maxExpireMillis_def maxInt64_def nsPerSec_def nsPerMs_def)

lemma ttl_seconds:
  assumes "is_int64 d"
  shows "(let ms = dur_Milliseconds d; ms' = (if ms < 0 then 0 else ms) in quo (wrap64 (ms' + 500)) 1000)
    = (max 0 (quo d nsPerMs) + 500) div 1000"
proof -
  have "max 0 (quo d nsPerMs) \<le> maxInt64 div nsPerMs"
  proof (cases "0 \<le> d")
    case True
    then have "quo d nsPerMs = d div nsPerMs" by (simp add: nsPerMs_def)
    then show ?thesis using True assms zdiv_mono1 [of d maxInt64 nsPerMs] by (simp add: int64_defs nsPerMs_def)
  next
    case False
    then have "quo d nsPerMs = - (\<bar>d\<bar> div nsPerMs)" by (simp add: quo_def nsPerMs_def)
    then show ?thesis by (simp add: maxInt64_def nsPerMs_def)
  qed
  then have "is_int64 (max 0 (quo d nsPerMs) + 500)" by (simp add: int64_defs nsPerMs_def)
  moreover have "(if dur_Milliseconds d < 0 then 0 else dur_Milliseconds d) = max 0 (quo d nsPerMs)"
    by (simp add: dur_Milliseconds_def max_def)
  ultimately show ?thesis by (simp only: Let_def wrap64_id) simp
qed

lemma engine_TTL_int64: "is_int64 (fst (engine_TTL e now k))"
  by (auto simp: engine_TTL_view time_Sub_def int64_defs split: option.splits prod.splits)

text \<open>One command: the check of the arity, then the handler.\<close>

definition checked :: "int \<Rightarrow> int \<Rightarrow> handler \<Rightarrow> string \<Rightarrow> handler" where
  "checked lo hi h name v e args =
     (if int (length args) < lo \<or> hi \<ge> 0 \<and> int (length args) > hi then perform v e (wrong_arity name) else h v e args)"

lemmas handler_defs = checked_def with_arg_def with_rest_def perform_def or_error_def wrong_arity_def
lemmas handler_simps = handler_defs finish_pair

lemma checked_PING: "checked 1 2 cmdPing name v e (a # rest) =
    perform v e (case rest of [] \<Rightarrow> AtOnce (Simple ''PONG'') | [m] \<Rightarrow> AtOnce (Bulk m) | _ \<Rightarrow> wrong_arity name)"
  by (auto simp: handler_simps cmdPing_def split: list.splits)

lemma checked_GET: "checked 2 2 cmdGet name v e (a # rest) =
    perform v e (case rest of [k] \<Rightarrow> ask (EGet k) | _ \<Rightarrow> wrong_arity name)"
  by (auto simp: handler_simps cmdGet_def split: list.splits)

lemma checked_TTL: "checked 2 2 cmdTTL name v e (a # rest) =
    perform v e (case rest of [k] \<Rightarrow> ask (ETTL k) | _ \<Rightarrow> wrong_arity name)"
proof -
  have "quo (wrap64 ((if dur_Milliseconds d < 0 then 0 else dur_Milliseconds d) + 500)) 1000
      = (max 0 (quo d nsPerMs) + 500) div 1000" if "engine_TTL e (clock v) k = (d, HasTTL)" for d k
    using ttl_seconds [of d] engine_TTL_int64 [of e "clock v" k] that by (simp only: Let_def fst_conv)
  then show ?thesis
    by (simp add: handler_simps cmdTTL_def Let_def split: list.split prod.split TTLStatus.split split del: if_split)
qed

lemma checked_KEYS: "checked 2 2 cmdKeys name v e (a # rest) =
    perform v e (case rest of [k] \<Rightarrow> ask (EKeys k) | _ \<Rightarrow> wrong_arity name)"
  by (auto simp: handler_simps cmdKeys_def split: list.splits)

lemma checked_DBSIZE: "checked 1 1 cmdDBSize name v e (a # rest) =
    perform v e (if rest = [] then ask EDBSize else wrong_arity name)"
  by (auto simp: handler_simps cmdDBSize_def)

lemma checked_MGET: "checked 2 (-1) cmdMGet name v e (a # rest) =
    perform v e (if rest = [] then wrong_arity name else ask (EMGet rest))"
  by (cases rest) (auto simp: handler_simps cmdMGet_def foldl_snoc_map)

lemma checked_EXISTS: "checked 2 (-1) cmdExists name v e (a # rest) =
    perform v e (if rest = [] then wrong_arity name else ask (EExists rest))"
  by (cases rest) (auto simp: handler_simps cmdExists_def)

lemma checked_DEL: "checked 2 (-1) cmdDel name v e (a # rest) =
    perform v e (if rest = [] then wrong_arity name else ask (EDelete rest))"
  by (cases rest) (auto simp: handler_simps cmdDel_def split: prod.splits option.splits)

lemma checked_PERSIST: "checked 2 2 cmdPersist name v e (a # rest) =
    perform v e (case rest of [k] \<Rightarrow> ask (EPersist k) | _ \<Rightarrow> wrong_arity name)"
  by (auto simp: handler_simps cmdPersist_def boolInt_def split: list.splits prod.splits option.splits)

lemma checked_INCR: "checked 2 2 cmdIncr name v e (a # rest) =
    perform v e (case rest of [k] \<Rightarrow> Ask (EIncrBy k 1) (reply_of incr_error) | _ \<Rightarrow> wrong_arity name)"
  by (auto simp: handler_simps cmdIncr_def incrBy_def split: list.splits prod.splits option.splits)

lemma checked_DECR: "checked 2 2 cmdDecr name v e (a # rest) =
    perform v e (case rest of [k] \<Rightarrow> Ask (EIncrBy k (- 1)) (reply_of incr_error) | _ \<Rightarrow> wrong_arity name)"
  by (auto simp: handler_simps cmdDecr_def incrBy_def split: list.splits prod.splits option.splits)

lemma checked_SET: "checked 3 (-1) cmdSet name v e (a # rest) =
    perform v e (case rest of
        k # x # opts \<Rightarrow> (case parseSetOptions opts of Inl bad \<Rightarrow> AtOnce bad | Inr t \<Rightarrow> ask (ESet k x t))
      | _ \<Rightarrow> wrong_arity name)"
  by (auto simp: handler_defs finish_call_def err_or_def cmdSet_def map_prod_def split: list.splits sum.splits prod.splits option.splits)

lemma checked_EXPIRE: "checked 3 3 cmdExpire name v e (a # rest) =
    perform v e (case rest of
        [k, x] \<Rightarrow>
          (case ParseInt x of
             None \<Rightarrow> AtOnce (Err errNotAnInteger)
           | Some n \<Rightarrow>
               if n \<le> 0 then ask (EDelete [k])
               else if n > maxInt64 div nsPerSec then AtOnce (invalidExpire ''expire'')
               else ask (EExpire k (n * nsPerSec)))
      | _ \<Rightarrow> wrong_arity name)"
  by (auto simp: handler_simps cmdExpire_def boolInt_def maxExpire_eqs expire_range [unfolded maxExpire_eqs]
      split: list.splits prod.splits option.splits)

lemma checked_SCAN: "checked 2 (-1) cmdScan name v e (a # rest) =
    perform v e (if rest = [] then wrong_arity name
      else case the (parseScan (a # rest)) of Inl bad \<Rightarrow> AtOnce bad | Inr req \<Rightarrow> Page req)"
  by (cases rest) (auto simp: handler_simps cmdScan_def parseScan_def Let_def
      split: option.splits prod.splits sum.splits)

lemma Dispatch_checked:
  "Dispatch Registry_New v e (a # rest) =
     (let name = ToUpper a in
      case fmlookup Registry_New name of
        None \<Rightarrow> perform v e (AtOnce (Err (''ERR unknown command '' @ [CHR 0x27] @ echoName a @ [CHR 0x27])))
      | Some sp \<Rightarrow> checked (minArgs sp) (maxArgs sp) (run sp) name v e (a # rest))"
  by (simp add: Dispatch_def checked_def perform_def wrong_arity_def Let_def split: option.splits)

lemmas checked_commands = checked_PING checked_GET checked_TTL checked_KEYS checked_DBSIZE checked_MGET checked_EXISTS
  checked_DEL checked_PERSIST checked_INCR checked_DECR checked_SET checked_EXPIRE checked_SCAN

lemma Dispatch_perform: "Dispatch Registry_New v e args = perform v e (request_of args)"
proof (cases args)
  case Nil
  then show ?thesis by (simp add: Dispatch_def request_of_def perform_def)
next
  case (Cons a rest)
  obtain name where name: "ToUpper a = name" by blast
  show ?thesis
    unfolding Cons Dispatch_checked request_of_def Let_def list.case name
    by (auto simp: Registry_New_def fmlookup_of_list checked_commands)
qed

section \<open>Options\<close>

lemma parse_opts_typed:
  "parse_opts t u opts = Inr t' \<Longrightarrow> is_int64 (ttl_d t) \<Longrightarrow> is_int64 (ttl_d t')"
  by (induction t u opts rule: parse_opts.induct)
    (auto simp: Let_def ExpiresIn_def split: if_splits list.splits option.splits)

lemma parseSetOptions_typed: "parseSetOptions opts = Inr t \<Longrightarrow> is_int64 (ttl_d t)"
  using parse_opts_typed [of NoExpiry "[]" opts t] by (simp add: parseSetOptions_def NoExpiry_def int64_defs)

lemma one_int64 [simp]: "is_int64 1" "is_int64 (- 1)"
  by (simp_all add: int64_defs)

lemma request_typed: "request_of args = Ask c f \<Longrightarrow> well_typed c"
  by (auto simp: request_of_def wrong_arity_def Let_def not_less not_le dest!: parseSetOptions_typed
      intro: expire_range(1) [unfolded maxExpire_eqs] split: list.splits if_splits sum.splits option.splits)

definition unit_step :: "string \<Rightarrow> duration" where
  "unit_step u = (if u = ''PX'' then nsPerMs else nsPerSec)"

text \<open>One option of a unit: its name in any case and a positive number of units that fits a duration.\<close>

definition good_option :: "string \<Rightarrow> bytes \<times> bytes \<Rightarrow> bool" where
  "good_option u p \<longleftrightarrow>
     ToUpper (fst p) = u
     \<and> (case ParseInt (snd p) of None \<Rightarrow> False | Some n \<Rightarrow> 0 < n \<and> n * unit_step u \<le> maxInt64)"

definition option_ttl :: "string \<Rightarrow> bytes \<times> bytes \<Rightarrow> TTL" where
  "option_ttl u p = ExpiresIn (the (ParseInt (snd p)) * unit_step u)"

abbreviation flat :: "(bytes \<times> bytes) list \<Rightarrow> bytes list" where
  "flat ps \<equiv> concat (map (\<lambda>(x, y). [x, y]) ps)"

lemma in_range:
  "u = ''EX'' \<or> u = ''PX'' \<Longrightarrow> 0 < n \<Longrightarrow>
   \<not> (u = ''EX'' \<and> n > maxExpireSeconds \<or> u = ''PX'' \<and> n > maxExpireMillis) \<longleftrightarrow> n * unit_step u \<le> maxInt64"
  by (auto simp: maxExpire_eqs unit_step_def maxInt64_def nsPerSec_def nsPerMs_def)

lemma duration_exact: "0 < n \<Longrightarrow> n * unit_step u \<le> maxInt64 \<Longrightarrow> wrap64 (n * unit_step u) = n * unit_step u"
  by (rule wrap64_id) (simp add: int64_defs unit_step_def nsPerSec_def nsPerMs_def)

lemma parse_one:
  assumes "u = [] \<or> u = ''EX'' \<or> u = ''PX''"
  shows "parse_opts t u (x # y # rest) = Inr t' \<longleftrightarrow>
    (\<exists>w. (w = ''EX'' \<or> w = ''PX'') \<and> (u = [] \<or> u = w) \<and> good_option w (x, y) \<and> parse_opts (option_ttl w (x, y)) w rest = Inr t')"
proof (cases "ParseInt y")
  case None
  then show ?thesis by (auto simp: good_option_def Let_def)
next
  case (Some n)
  show ?thesis
  proof (cases "(ToUpper x = ''EX'' \<or> ToUpper x = ''PX'') \<and> (u = [] \<or> u = ToUpper x) \<and> 0 < n")
    case False
    then show ?thesis using Some by (auto simp: good_option_def Let_def)
  next
    case True
    define w where "w = ToUpper x"
    have w: "w = ''EX'' \<or> w = ''PX''" "u = [] \<or> u = w" "0 < n" using True by (auto simp: w_def)
    have step: "(if w = ''PX'' then nsPerMs else nsPerSec) = unit_step w" by (simp add: unit_step_def)
    have "parse_opts t u (x # y # rest) = Inr t' \<longleftrightarrow>
        n * unit_step w \<le> maxInt64 \<and> parse_opts (ExpiresIn (wrap64 (n * unit_step w))) w rest = Inr t'"
      using w in_range [OF w(1,3)] Some by (auto simp: Let_def w_def [symmetric] step)
    also have "\<dots> \<longleftrightarrow> good_option w (x, y) \<and> parse_opts (option_ttl w (x, y)) w rest = Inr t'"
      using w Some duration_exact [of n w] by (auto simp: good_option_def option_ttl_def w_def [symmetric])
    also have "\<dots> \<longleftrightarrow> (\<exists>w. (w = ''EX'' \<or> w = ''PX'') \<and> (u = [] \<or> u = w) \<and> good_option w (x, y)
        \<and> parse_opts (option_ttl w (x, y)) w rest = Inr t')"
      using w by (auto simp: good_option_def w_def)
    finally show ?thesis .
  qed
qed

declare parse_opts.simps [simp del]

lemma parse_within:
  assumes "u = ''EX'' \<or> u = ''PX''"
  shows "parse_opts t u opts = Inr t' \<longleftrightarrow>
    (\<exists>ps. opts = flat ps \<and> list_all (good_option u) ps \<and> t' = (if ps = [] then t else option_ttl u (last ps)))"
proof (induction "length opts" arbitrary: t opts rule: less_induct)
  case less
  show ?case
  proof (cases opts)
    case Nil
    then have "opts = flat ps \<longleftrightarrow> ps = []" for ps by (cases ps) auto
    then show ?thesis using Nil by (simp only:) (auto simp: parse_opts.simps)
  next
    case (Cons x rest)
    show ?thesis
    proof (cases rest)
      case Nil
      have "opts \<noteq> flat ps" for ps using Cons Nil by (cases ps) auto
      then show ?thesis using Cons Nil by (auto simp: parse_opts.simps Let_def)
    next
      case (Cons y rest')
      with \<open>opts = x # rest\<close> have o: "opts = x # y # rest'" by simp
      have "parse_opts t u opts = Inr t' \<longleftrightarrow> good_option u (x, y) \<and> parse_opts (option_ttl u (x, y)) u rest' = Inr t'"
        unfolding o using parse_one [of u t x y rest' t'] assms by auto
      also have "\<dots> \<longleftrightarrow> good_option u (x, y) \<and> (\<exists>ps. rest' = flat ps \<and> list_all (good_option u) ps
          \<and> t' = (if ps = [] then option_ttl u (x, y) else option_ttl u (last ps)))"
        using less [of rest' "option_ttl u (x, y)"] o by simp
      also have "\<dots> \<longleftrightarrow> (\<exists>ps. opts = flat ps \<and> list_all (good_option u) ps \<and> t' = (if ps = [] then t else option_ttl u (last ps)))"
      proof
        assume "good_option u (x, y) \<and> (\<exists>ps. rest' = flat ps \<and> list_all (good_option u) ps
          \<and> t' = (if ps = [] then option_ttl u (x, y) else option_ttl u (last ps)))"
        then obtain ps where "good_option u (x, y)" "rest' = flat ps" "list_all (good_option u) ps"
          "t' = (if ps = [] then option_ttl u (x, y) else option_ttl u (last ps))" by blast
        then show "\<exists>ps. opts = flat ps \<and> list_all (good_option u) ps \<and> t' = (if ps = [] then t else option_ttl u (last ps))"
          using o by (intro exI [of _ "(x, y) # ps"]) simp
      next
        assume "\<exists>ps. opts = flat ps \<and> list_all (good_option u) ps \<and> t' = (if ps = [] then t else option_ttl u (last ps))"
        then obtain ps where ps: "opts = flat ps" "list_all (good_option u) ps"
          "t' = (if ps = [] then t else option_ttl u (last ps))" by blast
        then obtain p qs where "ps = p # qs" using o by (cases ps) auto
        with ps o show "good_option u (x, y) \<and> (\<exists>ps. rest' = flat ps \<and> list_all (good_option u) ps
          \<and> t' = (if ps = [] then option_ttl u (x, y) else option_ttl u (last ps)))"
          by (cases p) auto
      qed
      finally show ?thesis .
    qed
  qed
qed

section \<open>Properties\<close>

text \<open>
  C23: a request is what the table of the commands says. For every list of arguments, \<^verbatim>\<open>Dispatch\<close> either
  answers at once and leaves the engine alone, or makes the one engine call of the command and
  answers from its result, or asks for one page. No argument count makes a handler index out of
  range, no expiry overflows on the way from seconds to nanoseconds, and command names are
  recognised in any case.
\<close>

theorem dispatch_is_request: "Dispatch Registry_New v e args = perform v e (request_of args)"
  by (rule Dispatch_perform)

text \<open>
  C36: the options of \<^verbatim>\<open>SET\<close>. The arguments behind the value are accepted exactly when they are any
  number of pairs of one unit, \<^verbatim>\<open>EX\<close> or \<^verbatim>\<open>PX\<close> in any case, each with a positive number that fits a
  duration; the last pair decides the time to live, exactly, and no pair means no expiry.
\<close>

theorem set_options_exact:
  "parseSetOptions opts = Inr t \<longleftrightarrow>
     opts = [] \<and> t = NoExpiry
     \<or> (\<exists>u ps. (u = ''EX'' \<or> u = ''PX'') \<and> ps \<noteq> [] \<and> opts = flat ps \<and> list_all (good_option u) ps
           \<and> t = option_ttl u (last ps))"
proof (cases opts)
  case Nil
  then have "opts = flat ps \<longleftrightarrow> ps = []" for ps by (cases ps) auto
  then show ?thesis using Nil by (simp only:) (auto simp: parseSetOptions_def parse_opts.simps)
next
  case (Cons x rest)
  show ?thesis
  proof (cases rest)
    case Nil
    have "opts \<noteq> flat ps" for ps using Cons Nil by (cases ps) auto
    then show ?thesis using Cons Nil by (auto simp: parseSetOptions_def parse_opts.simps Let_def)
  next
    case (Cons y rest')
    with \<open>opts = x # rest\<close> have o: "opts = x # y # rest'" by simp
    have "parseSetOptions opts = Inr t \<longleftrightarrow> (\<exists>w. (w = ''EX'' \<or> w = ''PX'') \<and> good_option w (x, y)
        \<and> parse_opts (option_ttl w (x, y)) w rest' = Inr t)"
      unfolding parseSetOptions_def o using parse_one [of "[]" NoExpiry x y rest' t] by simp
    also have "\<dots> \<longleftrightarrow> (\<exists>w ps. (w = ''EX'' \<or> w = ''PX'') \<and> good_option w (x, y)
        \<and> rest' = flat ps \<and> list_all (good_option w) ps
        \<and> t = (if ps = [] then option_ttl w (x, y) else option_ttl w (last ps)))"
    proof (rule ex_cong1)
      fix w
      show "(w = ''EX'' \<or> w = ''PX'') \<and> good_option w (x, y) \<and> parse_opts (option_ttl w (x, y)) w rest' = Inr t
        \<longleftrightarrow> (\<exists>ps. (w = ''EX'' \<or> w = ''PX'') \<and> good_option w (x, y) \<and> rest' = flat ps \<and> list_all (good_option w) ps
          \<and> t = (if ps = [] then option_ttl w (x, y) else option_ttl w (last ps)))"
        using parse_within [of w "option_ttl w (x, y)" rest' t] by (cases "w = ''EX'' \<or> w = ''PX''") simp_all
    qed
    also have "\<dots> \<longleftrightarrow> (\<exists>u ps. (u = ''EX'' \<or> u = ''PX'') \<and> ps \<noteq> [] \<and> opts = flat ps \<and> list_all (good_option u) ps
           \<and> t = option_ttl u (last ps))" (is "?l \<longleftrightarrow> ?r")
    proof
      assume ?l
      then obtain w ps where "w = ''EX'' \<or> w = ''PX''" "good_option w (x, y)" "rest' = flat ps" "list_all (good_option w) ps"
        "t = (if ps = [] then option_ttl w (x, y) else option_ttl w (last ps))" by blast
      then show ?r using o by (intro exI [of _ w] exI [of _ "(x, y) # ps"]) simp
    next
      assume ?r
      then obtain u ps where u: "u = ''EX'' \<or> u = ''PX''" "ps \<noteq> []" "opts = flat ps" "list_all (good_option u) ps"
        "t = option_ttl u (last ps)" by blast
      then obtain p qs where "ps = p # qs" by (cases ps) auto
      with u o show ?l by (cases p) auto
    qed
    finally show ?thesis using o by simp
  qed
qed

text \<open>What the table answers to a request, for all requests but the pages of a scan.\<close>

fun table_reply :: "time \<Rightarrow> bool \<times> table \<Rightarrow> request \<Rightarrow> (bool \<times> table) \<times> Reply" where
  "table_reply now s (AtOnce r) = (s, r)"
| "table_reply now s (Ask c f) = (case spec_call now s c of (s', a) \<Rightarrow> (s', f a))"
| "table_reply now s (Page req) = (s, NullBulk)"

fun table_replies :: "bool \<times> table \<Rightarrow> (env \<times> bytes list) list \<Rightarrow> Reply list" where
  "table_replies s [] = []"
| "table_replies s ((v, args) # rs) =
     (case table_reply (clock v) s (request_of args) of (s', r) \<Rightarrow> r # table_replies s' rs)"

fun dispatch_run :: "engine \<Rightarrow> (env \<times> bytes list) list \<Rightarrow> outcome list" where
  "dispatch_run e [] = []"
| "dispatch_run e ((v, args) # rs) =
     (case Dispatch Registry_New v e args of (e', out) \<Rightarrow> out # dispatch_run e' rs)"

fun no_page :: "request \<Rightarrow> bool" where
  "no_page (Page req) \<longleftrightarrow> False"
| "no_page _ \<longleftrightarrow> True"

definition served_in :: "env \<times> bytes list \<Rightarrow> bool" where
  "served_in r \<longleftrightarrow> fair_ranger (key_order (fst r)) \<and> no_page (request_of (snd r))"

lemma perform_served:
  assumes "agrees (clock v) (estore e) m" "elog e = None" "fair_ranger (key_order v)" "no_page q" "\<And>c f. q = Ask c f \<Longrightarrow> well_typed c"
    and "table_reply (clock v) (acceptingMutations e, m) q = ((acc', m'), r)"
  shows "\<exists>e'. perform v e q = (e', Replied r) \<and> agrees (clock v) (estore e') m' \<and> elog e' = None \<and> acceptingMutations e' = acc'"
proof (cases q)
  case (Ask c f)
  obtain e' out where call: "engine_call (key_order v) (later_log v) (clock v) e c = (e', out)" by fastforce
  obtain a where a: "spec_call (clock v) (acceptingMutations e, m) c = ((acc', m'), a)" "r = f a"
    using assms(6) Ask by (auto split: prod.splits)
  from call_served [OF assms(3,1) assms(5) [OF Ask] call a(1)] assms(2)
  have "out = Some a" "agrees (clock v) (estore e') m'" "elog e' = None" "acceptingMutations e' = acc'"
    by (auto simp: served_def)
  then show ?thesis using call Ask a(2) by (simp add: perform_def)
qed (use assms in \<open>auto simp: perform_def\<close>)

lemma dispatch_run_served:
  assumes "agrees now (estore e) m" "elog e = None" "sorted (now # map (clock \<circ> fst) rs)" "list_all served_in rs"
  shows "dispatch_run e rs = map Replied (table_replies (acceptingMutations e, m) rs)"
  using assms
proof (induction rs arbitrary: now e m)
  case (Cons x rs)
  obtain v args where x: "x = (v, args)" by fastforce
  obtain acc' m' r where t: "table_reply (clock v) (acceptingMutations e, m) (request_of args) = ((acc', m'), r)"
    by (metis prod.exhaust)
  have "agrees (clock v) (estore e) m" using Cons.prems by (simp add: x agrees_later)
  have "\<exists>e'. perform v e (request_of args) = (e', Replied r) \<and> agrees (clock v) (estore e') m' \<and> elog e' = None
      \<and> acceptingMutations e' = acc'"
    using Cons.prems(4)
    by (intro perform_served [OF \<open>agrees (clock v) (estore e) m\<close> Cons.prems(2) _ _ _ t])
      (auto simp: x served_in_def intro: request_typed)
  then obtain e' where e': "Dispatch Registry_New v e args = (e', Replied r)" "agrees (clock v) (estore e') m'"
    "elog e' = None" "acceptingMutations e' = acc'"
    by (auto simp: Dispatch_perform)
  then have "dispatch_run e' rs = map Replied (table_replies (acceptingMutations e', m') rs)"
    using Cons.prems by (intro Cons.IH [of "clock v"]) (simp_all add: x)
  then show ?case using e' t by (simp add: x)
qed simp

lemma dispatch_run_fresh:
  assumes "sorted (map (clock \<circ> fst) rs)" "list_all served_in rs"
  shows "dispatch_run engine_New rs = map Replied (table_replies (True, \<lambda>_. None) rs)"
proof (cases rs)
  case (Cons r rs')
  with assms dispatch_run_served [of "clock (fst r)" engine_New "\<lambda>_. None" rs] show ?thesis
    by (simp add: engine_New_def agrees_New)
qed simp

text \<open>
  C5: the server answers as a table, request by request. For every sequence of requests at
  non-decreasing times (pages of a scan apart), each reply of the command layer over the engine
  over the store is the reply the table of the commands gives over one plain table of entries:
  no request waits or panics, a malformed one changes nothing, and what one request stored
  the next ones read.
\<close>

theorem requests_answered:
  assumes "sorted (map (clock \<circ> fst) rs)" "list_all served_in rs"
  shows "dispatch_run engine_New rs = map Replied (table_replies (True, \<lambda>_. None) rs)"
  using assms by (rule dispatch_run_fresh)

definition demo_env :: "time \<Rightarrow> env" where
  "demo_env t = \<lparr>key_order = sorted_list_of_fset, token_order = sorted_list_of_fset, later_log = id, clock = t, token_source = []\<rparr>"

theorem requests_answered_witness:
  "dispatch_run engine_New
     [(demo_env 0, [''set'', ''k'', ''v'']), (demo_env 1, [''GET'', ''k'']), (demo_env 2, [''get'']), (demo_env 3, [''DEL'', ''k'', ''k''])]
   = map Replied [Simple ''OK'', Bulk ''v'', Err (''ERR wrong number of arguments for '' @ [CHR 0x27] @ ''get'' @ [CHR 0x27] @ '' command''),
       IntReply 1]"
proof -
  have q: "request_of [''set'', ''k'', ''v''] = ask (ESet ''k'' ''v'' NoExpiry)"
    "request_of [''GET'', ''k''] = ask (EGet ''k'')" "request_of [''DEL'', ''k'', ''k''] = ask (EDelete [''k'', ''k''])"
    "request_of [''get''] = wrong_arity ''GET''"
    by (simp_all add: request_of_def parseSetOptions_def parse_opts.simps upper_byte_def char_of_def bit_0)
  have "ToLower ''GET'' = ''get''" by code_simp
  then show ?thesis
    by (subst requests_answered)
      (simp_all add: demo_env_def served_in_def fair_sorted_list_of_fset q wrong_arity_def seen_def spec_expiry_def NoExpiry_def
        or_error_def Collect_conv_if)
qed

section \<open>Error replies\<close>

lemma length_echoName: "length (echoName b) \<le> 131"
  by (simp add: echoName_def maxEchoedName_def)

text \<open>
  What holds of every reply the command layer can give: a law that holds of statuses, integers,
  bulk strings and arrays of such, and of errors of at most 153 bytes, holds of each of them.
\<close>

locale reply_law =
  fixes ok :: "Reply \<Rightarrow> bool"
  assumes ok_simple: "ok (Simple s)"
    and ok_int: "ok (IntReply i)"
    and ok_bulk: "ok (Bulk s)"
    and ok_null: "ok NullBulk"
    and ok_array: "list_all ok rs \<Longrightarrow> ok (Array rs)"
    and ok_err: "length msg \<le> 153 \<Longrightarrow> ok (Err msg)"
begin

lemmas ok_intros = ok_simple ok_int ok_bulk ok_null ok_array

lemma ok_errors: "ok (mutationError err)" "ok (incr_error e)" "ok (scanError x)"
  "ok (invalidExpire ''set'')" "ok (invalidExpire ''expire'')" "ok (Err errSyntax)" "ok (Err errNotAnInteger)"
  "ok (Err errInvalidCursor)"
  by (auto simp: mutationError_def incr_error_def scanError_def invalidExpire_def errSyntax_def errNotAnInteger_def
      errIncrOverflow_def errInvalidCursor_def errScanSessionLimit_def errScanMatchChanged_def
      split: cmd_err.split engine_err.split scan_err.split intro!: ok_err)

lemma ok_opts: "parse_opts t u opts = Inl bad \<Longrightarrow> ok bad"
  by (induction t u opts rule: parse_opts.induct)
    (auto simp: parse_opts.simps Let_def ok_errors split: if_splits list.splits option.splits)

lemma ok_scan_opts: "scan_opts req opts = Inl bad \<Longrightarrow> ok bad"
  by (induction req opts rule: scan_opts.induct)
    (auto simp: Let_def ok_errors split: if_splits list.splits option.splits)

lemma ok_parseScan: "parseScan args = Some (Inl bad) \<Longrightarrow> ok bad"
  by (auto simp: parseScan_def Let_def ok_errors dest: ok_scan_opts split: if_splits option.splits)

lemma ok_reply_of: "(\<And>e. ok (bad e)) \<Longrightarrow> ok (reply_of bad a)"
  by (cases a) (auto simp: or_error_def list_all_iff ok_intros intro!: ok_array split: option.splits)

definition tame :: "request \<Rightarrow> bool" where
  "tame q \<longleftrightarrow>
     (case q of AtOnce r \<Rightarrow> ok r | Ask c f \<Rightarrow> f = reply_of mutation_reply \<or> f = reply_of incr_error | Page _ \<Rightarrow> True)"

lemma tame_simps [simp]:
  "tame (ask c)" "tame (Ask c (reply_of incr_error))" "tame (Page req)" "tame (AtOnce r) \<longleftrightarrow> ok r"
  by (simp_all add: tame_def)

lemma tame_arity: "length name \<le> 100 \<Longrightarrow> tame (wrong_arity name)"
  by (simp add: wrong_arity_def ToLower_def ok_err)

lemma tame_set: "tame (case parseSetOptions opts of Inl bad \<Rightarrow> AtOnce bad | Inr t \<Rightarrow> ask (ESet k v t))"
  by (auto simp: parseSetOptions_def dest: ok_opts split: sum.split)

lemma tame_scan: "rest \<noteq> [] \<Longrightarrow> tame (case the (parseScan (a # rest)) of Inl bad \<Rightarrow> AtOnce bad | Inr req \<Rightarrow> Page req)"
proof -
  assume "rest \<noteq> []"
  then obtain x where "parseScan (a # rest) = Some x" by (cases rest) (auto simp: parseScan_def Let_def)
  then show ?thesis using ok_parseScan [of "a # rest"] by (auto split: sum.split)
qed

lemma tame_expire:
  "tame (case ParseInt a of None \<Rightarrow> AtOnce (Err errNotAnInteger) | Some n \<Rightarrow>
     if n \<le> 0 then ask (EDelete [k]) else if n > maxInt64 div nsPerSec then AtOnce (invalidExpire ''expire'')
     else ask (EExpire k (n * nsPerSec)))"
  by (simp add: ok_errors split: option.split)

lemma tame_fixed: "tame (AtOnce (Err ''ERR empty command''))" "tame (AtOnce (Simple s))" "tame (AtOnce (Bulk s))"
  "tame (AtOnce (Err (''ERR unknown command '' @ [CHR 0x27] @ echoName a @ [CHR 0x27])))"
  using length_echoName [of a] by (simp_all add: ok_intros ok_err)

lemma tame_request: "tame (request_of args)"
proof (cases args)
  case Nil
  then show ?thesis by (simp add: request_of_def tame_fixed del: tame_simps(4))
next
  case (Cons a rest)
  obtain name where name: "ToUpper a = name" by blast
  obtain unknown where unknown: "''ERR unknown command '' @ [CHR 0x27] @ echoName a @ [CHR 0x27] = unknown" by blast
  have "tame (AtOnce (Err unknown))" using tame_fixed(4) [of a] unfolding unknown .
  then show ?thesis
    unfolding request_of_def Let_def Cons list.case name unknown
    by (simp add: tame_arity tame_set tame_scan tame_expire tame_fixed(2,3) del: tame_simps(4) split: list.split)
qed

lemma ok_Dispatch: "Dispatch Registry_New v e args = (e', Replied r) \<Longrightarrow> ok r"
  using tame_request [of args] ok_reply_of [of _ "_ :: eanswer"]
  by (auto simp: Dispatch_perform perform_def tame_def ok_errors list_all_iff
      intro!: ok_intros intro: ok_reply_of split: request.splits prod.splits option.splits sum.splits)

end

definition brief :: "Reply \<Rightarrow> bool" where
  "brief r \<longleftrightarrow> (rkind r = ReplyError \<longrightarrow> length (rstr r) \<le> 153)"

interpretation short: reply_law brief
  by unfold_locales (auto simp: brief_def reply_defs reply_kinds)

text \<open>
  An error reply is short. However long the arguments of a request are, the text of an error
  reply has at most 153 bytes, so a client cannot turn a request into a large error.
\<close>

theorem error_replies_short:
  assumes "Dispatch Registry_New v e args = (e', Replied r)" "rkind r = ReplyError"
  shows "length (rstr r) \<le> 153"
  using short.ok_Dispatch [OF assms(1)] assms(2) by (simp add: brief_def)

theorem error_replies_short_witness:
  "\<exists>e' r. Dispatch Registry_New (demo_env 0) engine_New [''NOPE''] = (e', Replied r) \<and> rkind r = ReplyError
     \<and> length (rstr r) \<le> 153"
proof -
  have d: "Dispatch Registry_New (demo_env 0) engine_New [''NOPE''] =
      (engine_New, Replied (Err (''ERR unknown command '' @ [CHR 0x27] @ ''NOPE'' @ [CHR 0x27])))"
    by (simp add: Dispatch_def upper_byte_def Registry_New_def fmlookup_of_list echoName_def maxEchoedName_def Let_def)
  have k: "rkind (Err x) = ReplyError" for x by (simp add: Err_def)
  from error_replies_short [OF d k] d k show ?thesis by blast
qed

end
