(* ===== verification/Server_Reply.thy ===== *)
theory Server_Reply
  imports Command Resp_Reader
begin

text \<open>
  From a reply of the command layer to bytes on the wire: \<^verbatim>\<open>writeReply\<close> of \<^verbatim>\<open>internal/server/conn.go\<close>,
  the bytes it emits, and a decoder of replies as a client has one, for the round trip.
\<close>

section \<open>Encoding a reply\<close>

text \<open>The last branch is the error of an unknown kind.\<close>

fun writeReply :: "Reply \<Rightarrow> writer \<Rightarrow> writer \<times> bool"
  and write_items :: "Reply list \<Rightarrow> writer \<Rightarrow> writer \<times> bool" where
  "writeReply (Reply kind s n items) w =
     (if kind = ReplySimple then WriteSimpleString s w
      else if kind = ReplyError then WriteError s w
      else if kind = ReplyInt then WriteInt n w
      else if kind = ReplyBulk then WriteBulk s w
      else if kind = ReplyNullBulk then WriteNullBulk w
      else if kind = ReplyArray then
        (case WriteArrayHeader (int (length items)) w of
           (w', ok) \<Rightarrow> if \<not> ok then (w', False) else write_items items w')
      else (w, False))"
| "write_items [] w = (w, True)"
| "write_items (r # rs) w = (case writeReply r w of (w', ok) \<Rightarrow> if \<not> ok then (w', False) else write_items rs w')"

fun enc_reply :: "Reply \<Rightarrow> bytes" where
  "enc_reply (Reply kind s n items) =
     (if kind = ReplySimple then enc_line CHR ''+'' s
      else if kind = ReplyError then enc_line CHR ''-'' s
      else if kind = ReplyInt then '':'' @ enc_number n
      else if kind = ReplyBulk then enc_bulk s
      else if kind = ReplyNullBulk then ''$-1'' @ CRLF
      else enc_array (int (length items)) @ concat (map enc_reply items))"

text \<open>The replies with a kind the encoder knows.\<close>

fun known_kinds :: "Reply \<Rightarrow> bool" where
  "known_kinds (Reply kind s n items) \<longleftrightarrow> kind \<in> {0..5} \<and> list_all known_kinds items"

definition guarded :: "(writer \<Rightarrow> writer \<times> bool) \<Rightarrow> writer \<Rightarrow> writer \<times> bool" where
  "guarded g w = (if wfail w then (w, False) else g w)"

lemma and_then_guarded: "emits f a \<Longrightarrow> and_then f (guarded g) = and_then f g"
  by (rule ext) (auto simp: and_then_def guarded_def split: prod.splits dest: emitsD(3))

lemma guarded_emits [simp]: "emits f a \<Longrightarrow> guarded f = f"
  unfolding guarded_def fun_eq_iff by (auto simp: emits_def) (metis (full_types) prod.collapse)+

lemma and_then_alt: "(case f w of (w', ok) \<Rightarrow> if \<not> ok then (w', False) else g w') = and_then f g w"
  by (simp add: and_then_def split: prod.splits)

lemma write_items_Cons: "write_items (r # rs) = and_then (writeReply r) (write_items rs)"
  by (simp add: fun_eq_iff and_then_def split: prod.splits)

lemma emits_items:
  "\<forall>r \<in> set rs. emits (writeReply r) (enc_reply r) \<Longrightarrow> emits (guarded (write_items rs)) (concat (map enc_reply rs))"
proof (induction rs)
  case Nil
  have "guarded (write_items []) = (\<lambda>w. (w, \<not> wfail w))" by (auto simp: fun_eq_iff guarded_def)
  then show ?case using emits_nothing by (simp del: write_items.simps)
next
  case (Cons r rs)
  then have r: "emits (writeReply r) (enc_reply r)" by simp
  have e: "emits (and_then (writeReply r) (guarded (write_items rs))) (enc_reply r @ concat (map enc_reply rs))"
    using Cons by (intro emits_seq) simp_all
  have "guarded (write_items (r # rs)) = and_then (writeReply r) (guarded (write_items rs))"
    using guarded_emits [OF e] by (simp add: write_items_Cons and_then_guarded [OF r])
  then show ?case using e by (simp del: write_items.simps)
qed

lemma emits_writeReply: "known_kinds r \<Longrightarrow> emits (writeReply r) (enc_reply r)"
proof (induction r)
  case (Reply kind s n items)
  have "emits (guarded (write_items items)) (concat (map enc_reply items))"
    using Reply by (intro emits_items) (auto simp: list_all_iff)
  then have arr: "emits (and_then (WriteArrayHeader (int (length items))) (write_items items))
      (enc_array (int (length items)) @ concat (map enc_reply items))"
    using emits_seq [OF emits_array] by (metis and_then_guarded [OF emits_array])
  have w: "writeReply (Reply ReplyArray s n items) = and_then (WriteArrayHeader (int (length items))) (write_items items)"
    by (simp add: fun_eq_iff and_then_def reply_kinds split: prod.splits)
  have "kind \<in> {0, 1, 2, 3, 4, 5}" using Reply.prems by auto
  then consider "kind = ReplySimple" | "kind = ReplyError" | "kind = ReplyInt" | "kind = ReplyBulk" | "kind = ReplyNullBulk"
    | "kind = ReplyArray" by (auto simp: reply_kinds)
  then show ?case
  proof cases
    case 1
    moreover have "writeReply (Reply ReplySimple s n items) = prefixed CHR ''+'' s"
      by (simp add: fun_eq_iff WriteSimpleString_def)
    ultimately show ?thesis using emits_prefixed by (simp del: writeReply.simps)
  next
    case 2
    moreover have "writeReply (Reply ReplyError s n items) = prefixed CHR ''-'' s"
      by (simp add: fun_eq_iff WriteError_def reply_kinds)
    ultimately show ?thesis using emits_prefixed by (simp add: reply_kinds del: writeReply.simps)
  next
    case 3
    moreover have "writeReply (Reply ReplyInt s n items) = WriteInt n" by (simp add: fun_eq_iff reply_kinds)
    ultimately show ?thesis using emits_int by (simp add: reply_kinds del: writeReply.simps)
  next
    case 4
    moreover have "writeReply (Reply ReplyBulk s n items) = WriteBulk s" by (simp add: fun_eq_iff reply_kinds)
    ultimately show ?thesis using emits_bulk by (simp add: reply_kinds del: writeReply.simps)
  next
    case 5
    moreover have "writeReply (Reply ReplyNullBulk s n items) = WriteNullBulk" by (simp add: fun_eq_iff reply_kinds)
    ultimately show ?thesis using emits_null by (simp add: reply_kinds del: writeReply.simps)
  next
    case 6
    then show ?thesis using arr w by (simp add: reply_kinds del: writeReply.simps)
  qed
qed

section \<open>What a client reads back\<close>

text \<open>A line up to its CRLF, and what follows.\<close>

definition cut_line :: "bytes \<Rightarrow> bytes \<times> bytes" where
  "cut_line bs = (let line = takeWhile (\<lambda>c. c \<noteq> CR) bs in (line, drop (length line + 2) bs))"

text \<open>A decoder of replies, as a client has one; the fuel bounds the nesting of arrays.\<close>

fun read_reply :: "nat \<Rightarrow> bytes \<Rightarrow> (Reply \<times> bytes) option"
  and read_items :: "nat \<Rightarrow> nat \<Rightarrow> bytes \<Rightarrow> (Reply list \<times> bytes) option" where
  "read_reply 0 bs = None"
| "read_reply (Suc n) [] = None"
| "read_reply (Suc n) (tag # bs) =
     (let (line, rest) = cut_line bs in
      if tag = CHR ''+'' then Some (Simple line, rest)
      else if tag = CHR ''-'' then Some (Err line, rest)
      else case ParseInt line of
             None \<Rightarrow> None
           | Some i \<Rightarrow>
               if tag = CHR '':'' then Some (IntReply i, rest)
               else if tag = CHR ''$'' then
                 (if i < 0 then Some (NullBulk, rest) else Some (Bulk (take (nat i) rest), drop (nat i + 2) rest))
               else if tag = CHR ''*'' then map_option (\<lambda>(items, rest'). (Array items, rest')) (read_items n (nat i) rest)
               else None)"
| "read_items n 0 bs = Some ([], bs)"
| "read_items n (Suc k) bs =
     (case read_reply n bs of
        None \<Rightarrow> None
      | Some (r, rest) \<Rightarrow> map_option (\<lambda>(rs, rest'). (r # rs, rest')) (read_items n k rest))"

text \<open>
  The replies the command layer builds: one of the constructors, an int64, and lengths that fit an
  int64; \<^term>\<open>n\<close> bounds the nesting. A line break in a status or an error is sent as a space.
\<close>

inductive wire :: "nat \<Rightarrow> Reply \<Rightarrow> bool" where
  simple: "wire (Suc n) (Simple s)"
| err: "wire (Suc n) (Err s)"
| int: "is_int64 i \<Longrightarrow> wire (Suc n) (IntReply i)"
| bulk: "is_int64 (int (length s)) \<Longrightarrow> wire (Suc n) (Bulk s)"
| null: "wire (Suc n) NullBulk"
| array: "is_int64 (int (length rs)) \<Longrightarrow> list_all (wire n) rs \<Longrightarrow> wire (Suc n) (Array rs)"

fun as_sent :: "Reply \<Rightarrow> Reply" where
  "as_sent (Reply kind s n items) =
     Reply kind (if kind = ReplySimple \<or> kind = ReplyError then line_safe s else s) n (map as_sent items)"

lemma as_sent_simps [simp]:
  "as_sent (Simple s) = Simple (line_safe s)" "as_sent (Err s) = Err (line_safe s)" "as_sent (IntReply i) = IntReply i"
  "as_sent (Bulk s) = Bulk s" "as_sent NullBulk = NullBulk" "as_sent (Array rs) = Array (map as_sent rs)"
  by (simp_all add: reply_defs reply_kinds)

lemma cut_line_eq:
  assumes "CR \<notin> set line"
  shows "cut_line (line @ CRLF @ rest) = (line, rest)"
proof -
  have "takeWhile (\<lambda>c. c \<noteq> CR) (line @ CRLF @ rest) = line @ takeWhile (\<lambda>c. c \<noteq> CR) (CRLF @ rest)"
    using assms by (intro takeWhile_append2) auto
  then show ?thesis by (simp add: cut_line_def)
qed

lemma no_CR_FormatInt: "CR \<notin> set (FormatInt i)"
proof -
  have "\<not> is_digit CR" by (simp add: is_digit_def)
  then have "CR \<notin> set (FormatUint n)" for n
    using digits_FormatUint [of n] by (auto simp: list_all_iff)
  then show ?thesis by (simp add: FormatInt_def)
qed

lemma cut_number: "cut_line (enc_number i @ rest) = (FormatInt i, rest)"
  using cut_line_eq [OF no_CR_FormatInt, of i rest] by (simp add: enc_number_def)

lemma cut_enc_line: "\<exists>body. enc_line tag s @ rest = tag # body \<and> cut_line body = (line_safe s, rest)"
  using cut_line_eq [OF line_safe_no_crlf(1), of s rest] by (simp add: enc_line_def)

lemma read_line_reply:
  "read_reply (Suc n) (enc_reply (Simple s) @ rest) = Some (Simple (line_safe s), rest)"
  "read_reply (Suc n) (enc_reply (Err s) @ rest) = Some (Err (line_safe s), rest)"
  using cut_enc_line [of "CHR ''+''" s rest] cut_enc_line [of "CHR ''-''" s rest]
  by (auto simp: reply_defs reply_kinds)

lemma read_number_reply:
  "is_int64 i \<Longrightarrow> read_reply (Suc n) (enc_reply (IntReply i) @ rest) = Some (IntReply i, rest)"
  "is_int64 (int (length s)) \<Longrightarrow> read_reply (Suc n) (enc_reply (Bulk s) @ rest) = Some (Bulk s, rest)"
  by (simp_all add: reply_defs reply_kinds enc_bulk_def cut_number ParseInt_FormatInt)

lemma read_negative: "cut_line bs = (line, rest) \<Longrightarrow> ParseInt line = Some i \<Longrightarrow> i < 0 \<Longrightarrow>
   read_reply (Suc n) (CHR ''$'' # bs) = Some (NullBulk, rest)"
  by simp

lemma read_null: "read_reply (Suc n) (enc_reply NullBulk @ rest) = Some (NullBulk, rest)"
proof -
  have cut: "cut_line (''-1'' @ CRLF @ rest) = (''-1'', rest)" by (rule cut_line_eq) simp
  have "FormatInt (- 1) = ''-1''" by code_simp
  then have num: "ParseInt ''-1'' = Some (- 1)" using ParseInt_FormatInt [of "- 1"] by (simp add: int64_defs)
  have enc: "enc_reply NullBulk @ rest = CHR ''$'' # ''-1'' @ CRLF @ rest"
    by (simp add: NullBulk_def reply_kinds)
  show ?thesis unfolding enc by (rule read_negative [OF cut num]) simp
qed

lemma read_array:
  "is_int64 (int (length rs)) \<Longrightarrow> read_items n (length rs) (concat (map enc_reply rs) @ rest) = Some (rs', rest) \<Longrightarrow>
   read_reply (Suc n) (enc_reply (Array rs) @ rest) = Some (Array rs', rest)"
  by (simp add: Array_def reply_kinds enc_array_def cut_number ParseInt_FormatInt)

lemma read_wire: "wire n r \<Longrightarrow> read_reply n (enc_reply r @ rest) = Some (as_sent r, rest)"
proof (induction arbitrary: rest rule: wire.induct)
  case (array rs n)
  have "read_items n (length rs) (concat (map enc_reply rs) @ rest) = Some (map as_sent rs, rest)"
    using array(2) by (induction rs arbitrary: rest) simp_all
  then show ?case using array(1) unfolding as_sent_simps by (rule read_array [rotated])
qed (simp_all only: read_line_reply read_number_reply read_null as_sent_simps)

lemma wire_known: "wire n r \<Longrightarrow> known_kinds r"
  by (induction rule: wire.induct) (auto simp: reply_defs reply_kinds list_all_iff)

section \<open>Every reply of the command layer can be encoded\<close>

lemma known_simps [simp]:
  "known_kinds (Simple s)" "known_kinds (Err s)" "known_kinds (IntReply i)" "known_kinds (Bulk s)" "known_kinds NullBulk"
  "known_kinds (Array rs) \<longleftrightarrow> list_all known_kinds rs"
  by (auto simp: reply_defs reply_kinds)

interpretation known: reply_law known_kinds
  by unfold_locales simp_all

text \<open>
  C24: replies are well formed. Whatever the request and the state of the engine, a reply of the command
  layer has one of the six kinds at every level of nesting, so encoding it never meets an unknown kind and,
  on a socket that takes every byte, always succeeds.
\<close>

theorem replies_encodable:
  assumes "Dispatch Registry_New v e args = (e', Replied r)"
  shows "known_kinds r \<and> snd (writeReply r (NewWriter None))"
proof -
  have k: "known_kinds r" using assms by (rule known.ok_Dispatch)
  then show ?thesis
    using emitsD(7) [OF emits_writeReply [OF k] surjective_pairing, of "NewWriter None"] by (simp add: NewWriter_def)
qed

theorem replies_encodable_witness:
  "known_kinds (Simple ''PONG'') \<and> snd (writeReply (Simple ''PONG'') (NewWriter None))"
proof -
  have "Dispatch Registry_New (demo_env 0) engine_New [''PING''] = (engine_New, Replied (Simple ''PONG''))"
    by (simp add: Dispatch_perform request_of_def perform_def upper_byte_def)
  then show ?thesis by (rule replies_encodable)
qed

text \<open>
  C22: replies survive the wire. A reply built by the command layer's constructors is encoded, on a
  sink that takes every byte, to bytes that a client reads back as that reply and nothing more: the
  kind, the number, every byte of a bulk string and every element of a nested array, with line breaks
  in a status or an error turned into spaces.
\<close>

theorem reply_round_trip:
  assumes "wire n r" "writeReply r (NewWriter acc) = (w, True)" "writer_Flush w = (w', True)"
  shows "read_reply n (wout w' @ rest) = Some (as_sent r, rest)"
  using emitsD(2) [OF emits_writeReply [OF wire_known [OF assms(1)]] assms(2)] flush_all [OF assms(3)] read_wire [OF assms(1), of rest]
  by (simp add: written_def NewWriter_def)

theorem reply_round_trip_witness:
  "read_reply 3 (''*2'' @ CRLF @ ''$1'' @ CRLF @ ''7'' @ CRLF @ ''*1'' @ CRLF @ ''$1'' @ CRLF @ ''k'' @ CRLF)
     = Some (Array [Bulk ''7'', Array [Bulk ''k'']], [])"
proof -
  let ?r = "Array [Bulk ''7'', Array [Bulk ''k'']]"
  let ?bs = "''*2'' @ CRLF @ ''$1'' @ CRLF @ ''7'' @ CRLF @ ''*1'' @ CRLF @ ''$1'' @ CRLF @ ''k'' @ CRLF"
  let ?w = "\<lparr>wbuf = ?bs, wout = [], wfail = False, accepts = None\<rparr>"
  have "wire 3 ?r"
    by (simp add: numeral_3_eq_3 wire.intros int64_defs)
  moreover have "writeReply ?r (NewWriter None) = (?w, True)" by code_simp
  moreover have "writer_Flush ?w = (?w\<lparr>wbuf := [], wout := ?bs\<rparr>, True)" by code_simp
  ultimately show ?thesis
    using reply_round_trip [of 3 ?r None ?w "?w\<lparr>wbuf := [], wout := ?bs\<rparr>" "[]"] by (simp del: read_reply.simps)
qed

end
