(* ===== verification/Server_Conn.thy ===== *)
theory Server_Conn
  imports Server_Reply
begin

text \<open>
  One connection: \<^verbatim>\<open>internal/server/conn.go\<close> and \<^verbatim>\<open>flush_on_block.go\<close>. The handler decodes a request,
  dispatches it and encodes the reply into a buffered writer, which is flushed only when the decoder
  is about to wait for the client. The handler is a step relation, because the client sends bytes
  when it likes, the shutdown begins when it likes and the socket fails when it likes.
\<close>

section \<open>The connection handler\<close>

text \<open>
  Where the handler is: at the top of its loop, about to set the read deadline, in \<^verbatim>\<open>ReadCommand\<close>, inside the socket's \<^verbatim>\<open>Read\<close>, at the
  last flush, waiting inside a command for a log that does not answer, or gone.
\<close>

datatype conn_pc = AtTop | Arming | Decoding | AwaitRead | AtFlush | Stuck | Closed

record conn_cfg =
  flushEveryReply :: bool
  climits :: limits

text \<open>
  The bytes the socket has returned and the decoder has not consumed are the input of \<open>crd\<close>; its
  ending is \<open>pending\<close> for as long as the socket has not returned an error. \<open>nudged\<close> says that the read
  deadline lies in the past, so that \<^verbatim>\<open>Read\<close> returns at once. \<open>nudge_sent\<close>, \<open>got\<close>, \<open>trace\<close> and \<open>farewell\<close> are
  history: that the shutdown moved the deadline, the bytes received, each request with the engine it
  ran on and its reply, and the protocol error that was reported.
\<close>

record exchange =
  xenv :: env
  xpre :: engine
  xargs :: "bytes list"
  xpost :: engine
  xreply :: Reply

record conn =
  cpc :: conn_pc
  crd :: reader
  cw :: writer
  ffailed :: bool
  draining :: bool
  nudged :: bool
  nudge_sent :: bool
  got :: bytes
  trace :: "exchange list"
  farewell :: bytes

definition pending :: stream_end where
  "pending = Broken []"

definition errFlushFailed :: stream_end where
  "errFlushFailed = Broken ''server: writing the pending reply failed''"

definition handleConn :: "conn_cfg \<Rightarrow> nat option \<Rightarrow> conn" where
  "handleConn cfg acc =
     \<lparr>cpc = AtTop, crd = NewReader \<lparr>input = [], ending = pending\<rparr> (climits cfg), cw = NewWriter acc, ffailed = False,
      draining = False, nudged = False, nudge_sent = False, got = [], trace = [], farewell = []\<rparr>"

definition flusher_flush :: "conn \<Rightarrow> conn \<times> bool" where
  "flusher_flush c =
     (if ffailed c then (c, False)
      else if writer_Buffered (cw c) = 0 then (c, True)
      else case writer_Flush (cw c) of
             (w, ok) \<Rightarrow> if \<not> ok then (c\<lparr>cw := w, ffailed := True\<rparr>, False) else (c\<lparr>cw := w\<rparr>, True))"

definition flusher_fail :: "conn \<Rightarrow> conn" where
  "flusher_fail c = c\<lparr>ffailed := True\<rparr>"

definition set_ending :: "stream_end \<Rightarrow> conn \<Rightarrow> conn" where
  "set_ending en c = c\<lparr>crd := (crd c)\<lparr>src := (src (crd c))\<lparr>ending := en\<rparr>\<rparr>\<rparr>"

text \<open>
  The decoder calls the \<^verbatim>\<open>Read\<close> of its source: the pending replies are flushed first, and when that
  fails the decoder gets the error instead of bytes.
\<close>

definition flushBeforeRead_Read :: "conn \<Rightarrow> conn" where
  "flushBeforeRead_Read c =
     (case flusher_flush c of
        (c', ok) \<Rightarrow> if \<not> ok then set_ending errFlushFailed c' else c'\<lparr>cpc := AwaitRead\<rparr>)"

definition reportReadError :: "read_err \<Rightarrow> conn \<Rightarrow> conn" where
  "reportReadError err c =
     (case err of
        IoEOF \<Rightarrow> c
      | ProtocolError msg _ \<Rightarrow>
          (let line = ''ERR Protocol error: '' @ msg
           in fst (flusher_flush (c\<lparr>cw := fst (WriteError line (cw c)), farewell := enc_line CHR ''-'' line\<rparr>)))
      | _ \<Rightarrow> c)"

text \<open>A decoded request: run it, encode its reply, and flush when the configuration asks for it.\<close>

definition serve_request :: "conn_cfg \<Rightarrow> env \<Rightarrow> engine \<Rightarrow> bytes list \<Rightarrow> conn \<Rightarrow> conn" where
  "serve_request cfg v e args c =
     (case Dispatch Registry_New v e args of
        (e', Waiting) \<Rightarrow> c\<lparr>cpc := Stuck\<rparr>
      | (e', Panicked) \<Rightarrow> c\<lparr>cpc := Closed\<rparr>
      | (e', Replied reply) \<Rightarrow>
          (let c1 = c\<lparr>trace := trace c @ [\<lparr>xenv = v, xpre = e, xargs = args, xpost = e', xreply = reply\<rparr>]\<rparr>
           in case writeReply reply (cw c1) of
                (w, ok) \<Rightarrow>
                  if \<not> ok then flusher_fail (c1\<lparr>cw := w, cpc := AtFlush\<rparr>)
                  else if flushEveryReply cfg then
                    (case flusher_flush (c1\<lparr>cw := w\<rparr>) of
                       (c2, ok2) \<Rightarrow> if \<not> ok2 then c2\<lparr>cpc := AtFlush\<rparr> else c2\<lparr>cpc := AtTop\<rparr>)
                  else c1\<lparr>cw := w, cpc := AtTop\<rparr>))"

text \<open>One step of the handler itself; the engine is the one the request finds.\<close>

definition serve_step :: "conn_cfg \<Rightarrow> env \<Rightarrow> engine \<Rightarrow> conn \<Rightarrow> conn" where
  "serve_step cfg v e c =
     (case cpc c of
        AtTop \<Rightarrow> if draining c then c\<lparr>cpc := AtFlush\<rparr> else c\<lparr>cpc := Arming\<rparr>
      | Arming \<Rightarrow> c\<lparr>nudged := False, cpc := Decoding\<rparr>
      | Decoding \<Rightarrow>
          (case ReadCommand (crd c) of
             Inr (args, r) \<Rightarrow> serve_request cfg v e args (c\<lparr>crd := r\<rparr>)
           | Inl err \<Rightarrow>
               if ending (src (crd c)) = pending \<and> err = end_err pending then
                 (if flushEveryReply cfg then c\<lparr>cpc := AwaitRead\<rparr> else flushBeforeRead_Read c)
               else (reportReadError err c)\<lparr>cpc := AtFlush\<rparr>)
      | AtFlush \<Rightarrow> (fst (flusher_flush c))\<lparr>cpc := Closed\<rparr>
      | _ \<Rightarrow> c)"

text \<open>
  The connection in its surroundings: the handler moves, the socket returns bytes or an error, the
  shutdown begins and then moves the read deadline to the present. The engine of each request is arbitrary, as other connections use it too.
\<close>

inductive conn_step :: "conn_cfg \<Rightarrow> conn \<Rightarrow> conn \<Rightarrow> bool" for cfg where
  own: "cpc c \<in> {AtTop, Arming, Decoding, AtFlush} \<Longrightarrow> conn_step cfg c (serve_step cfg v e c)"
| arrive: "cpc c = AwaitRead \<Longrightarrow> chunk \<noteq> [] \<Longrightarrow>
    conn_step cfg c (c\<lparr>cpc := Decoding, got := got c @ chunk,
      crd := (crd c)\<lparr>src := (src (crd c))\<lparr>input := input (src (crd c)) @ chunk\<rparr>\<rparr>\<rparr>)"
| read_fails: "cpc c = AwaitRead \<Longrightarrow> en \<noteq> pending \<Longrightarrow> conn_step cfg c (set_ending en (c\<lparr>cpc := Decoding\<rparr>))"
| drain: "conn_step cfg c (c\<lparr>draining := True\<rparr>)"
| nudge: "draining c \<Longrightarrow> \<not> nudge_sent c \<Longrightarrow> conn_step cfg c (c\<lparr>nudged := True, nudge_sent := True\<rparr>)"

inductive conn_reachable :: "conn_cfg \<Rightarrow> nat option \<Rightarrow> conn \<Rightarrow> bool" for cfg acc where
  start: "conn_reachable cfg acc (handleConn cfg acc)"
| step: "conn_reachable cfg acc c \<Longrightarrow> conn_step cfg c c' \<Longrightarrow> conn_reachable cfg acc c'"

section \<open>The frames in a stream of bytes\<close>

lemma readLine_shorter:
  "readLine s = Inr (line, s') \<Longrightarrow> length (input s') < length (input s) \<and> ending s' = ending s"
  by (auto simp: readLine_def Let_def split: if_splits dest!: in_set_takeD)
    (metis diff_less length_pos_if_in_set zero_less_Suc)

lemma ReadFull_shorter: "ReadFull n s = Inr (bs, s') \<Longrightarrow> length (input s') \<le> length (input s) \<and> ending s' = ending s"
  by (auto simp: ReadFull_def split: if_splits)

lemma parse_bulk_shorter:
  "parse_bulk lim used s = Inr (a, s') \<Longrightarrow> length (input s') \<le> length (input s) \<and> ending s' = ending s"
  by (force simp: parse_bulk_def split: sum.splits prod.splits if_splits option.splits
      dest!: readLine_shorter ReadFull_shorter)

lemma parse_bulks_shorter:
  "parse_bulks lim n used s = Inr (args, s') \<Longrightarrow> length (input s') \<le> length (input s) \<and> ending s' = ending s"
proof (induction n arbitrary: used s args)
  case (Suc n)
  then show ?case by (fastforce split: sum.splits dest!: parse_bulk_shorter)
qed simp

lemma parse_command_shorter:
  "parse_command lim s = Inr (args, s') \<Longrightarrow> length (input s') < length (input s) \<and> ending s' = ending s"
  by (force simp: parse_command_def split: sum.splits prod.splits if_splits option.splits
      dest!: readLine_shorter parse_bulks_shorter)

text \<open>What the decoder took does not depend on the bytes that follow.\<close>

abbreviation open_stream :: "bytes \<Rightarrow> stream" where
  "open_stream bs \<equiv> \<lparr>input = bs, ending = pending\<rparr>"

lemma length_takeWhile_lt: "x \<in> set xs \<Longrightarrow> length (takeWhile (\<lambda>c. c \<noteq> x) xs) < length xs"
  by (induction xs) auto

lemma readLine_more:
  assumes "readLine (open_stream bs) = Inr (line, s')"
  shows "readLine (open_stream (bs @ ext)) = Inr (line, open_stream (input s' @ ext))"
proof -
  have lf: "LF \<in> set (take 4096 bs)" using assms by (auto simp: readLine_def Let_def split: if_splits)
  then have "takeWhile (\<lambda>c. c \<noteq> LF) (take 4096 (bs @ ext)) = takeWhile (\<lambda>c. c \<noteq> LF) (take 4096 bs)"
    by (simp add: takeWhile_append1)
  moreover have "Suc (length (takeWhile (\<lambda>c. c \<noteq> LF) (take 4096 bs))) \<le> length bs"
    using lf length_takeWhile_lt [of LF "take 4096 bs"] by simp
  ultimately show ?thesis using assms lf by (auto simp: readLine_def Let_def split: if_splits)
qed

lemma ReadFull_more:
  "ReadFull n (open_stream bs) = Inr (a, s') \<Longrightarrow> ReadFull n (open_stream (bs @ ext)) = Inr (a, open_stream (input s' @ ext))"
  by (auto simp: ReadFull_def split: if_splits)

lemma parse_bulk_more:
  assumes "parse_bulk lim used (open_stream bs) = Inr (a, s')"
  shows "parse_bulk lim used (open_stream (bs @ ext)) = Inr (a, open_stream (input s' @ ext))"
proof -
  obtain line s1 where l: "readLine (open_stream bs) = Inr (line, s1)"
    using assms by (auto simp: parse_bulk_def split: sum.splits)
  have s1: "s1 = open_stream (input s1)" using readLine_shorter [OF l] by (cases s1) simp
  obtain n where n: "parseInt (tl line) = Some n" using assms l by (auto simp: parse_bulk_def split: if_splits option.splits)
  obtain b s2 where b: "ReadFull (nat n + 2) s1 = Inr (b, s2)"
    using assms l n by (auto simp: parse_bulk_def split: if_splits sum.splits)
  show ?thesis
    using assms l n b readLine_more [OF l] ReadFull_more [of "nat n + 2" "input s1" b s2 ext] s1
    by (auto simp: parse_bulk_def split: if_splits)
qed

lemma parse_bulks_more:
  "parse_bulks lim n used (open_stream bs) = Inr (args, s') \<Longrightarrow>
   parse_bulks lim n used (open_stream (bs @ ext)) = Inr (args, open_stream (input s' @ ext))"
proof (induction n arbitrary: used bs args)
  case (Suc n)
  then obtain a s1 as where a: "parse_bulk lim used (open_stream bs) = Inr (a, s1)"
    and as: "parse_bulks lim n (used + length a) s1 = Inr (as, s')" "args = a # as"
    by (auto split: sum.splits)
  have "s1 = open_stream (input s1)" using parse_bulk_shorter [OF a] by (cases s1) simp
  then show ?case using parse_bulk_more [OF a] Suc.IH [of "used + length a" "input s1" as] as by simp
qed auto

lemma parse_command_more:
  assumes "parse_command lim (open_stream bs) = Inr (args, s')"
  shows "parse_command lim (open_stream (bs @ ext)) = Inr (args, open_stream (input s' @ ext))"
proof -
  obtain line s1 where l: "readLine (open_stream bs) = Inr (line, s1)"
    using assms by (auto simp: parse_command_def split: sum.splits)
  have s1: "s1 = open_stream (input s1)" using readLine_shorter [OF l] by (cases s1) simp
  obtain n where n: "parseInt (tl line) = Some n" using assms l by (auto simp: parse_command_def split: if_splits option.splits)
  have b: "parse_bulks lim (nat n) 0 s1 = Inr (args, s')"
    using assms l n by (auto simp: parse_command_def split: if_splits)
  show ?thesis
    using assms l n readLine_more [OF l] parse_bulks_more [of lim "nat n" 0 "input s1" args s' ext] b s1
    by (auto simp: parse_command_def split: if_splits)
qed

text \<open>All whole requests at the front of a stream of bytes.\<close>

function frames :: "limits \<Rightarrow> bytes \<Rightarrow> bytes list list" where
  "frames lim bs =
     (case parse_command lim (open_stream bs) of Inl e \<Rightarrow> [] | Inr (args, s) \<Rightarrow> args # frames lim (input s))"
  by pat_completeness auto
termination
  by (relation "measure (length \<circ> snd)") (auto dest: parse_command_shorter)

declare frames.simps [simp del]

fun decodes :: "limits \<Rightarrow> bytes \<Rightarrow> bytes list list \<Rightarrow> bytes \<Rightarrow> bool" where
  "decodes lim bs [] rest \<longleftrightarrow> bs = rest"
| "decodes lim bs (args # reqs) rest \<longleftrightarrow>
     (\<exists>bs'. parse_command lim (open_stream bs) = Inr (args, open_stream bs') \<and> decodes lim bs' reqs rest)"

lemma decodes_frames: "decodes lim bs reqs rest \<Longrightarrow> frames lim bs = reqs @ frames lim rest"
  by (induction reqs arbitrary: bs) (auto simp: frames.simps [of lim "_ :: bytes"])

lemma decodes_more: "decodes lim bs reqs rest \<Longrightarrow> decodes lim (bs @ ext) reqs (rest @ ext)"
  by (induction reqs arbitrary: bs) (auto dest: parse_command_more)

lemma decodes_snoc:
  "decodes lim bs reqs rest \<Longrightarrow> parse_command lim (open_stream rest) = Inr (args, open_stream rest') \<Longrightarrow>
   decodes lim bs (reqs @ [args]) rest'"
  by (induction reqs arbitrary: bs) auto

lemma frames_requests:
  "list_all (fits lim) reqs \<Longrightarrow> frames lim (concat (map enc_request reqs)) = reqs"
proof (induction reqs)
  case Nil
  have "parse_command lim (open_stream []) = Inl (end_err pending)"
    by (simp add: parse_command_def readLine_def pending_def)
  then show ?case by (simp add: frames.simps)
next
  case (Cons args reqs)
  then show ?case
    using parse_command_enc [of lim args "concat (map enc_request reqs)" pending] by (subst frames.simps) simp
qed

end
