(* ===== verification/Server_Session.thy ===== *)
theory Server_Session
  imports Server_Conn
begin

text \<open>
  What a client can rely on while it is connected: the invariant of the connection handler, that every
  whole request received is answered, in order, before the handler waits for more, that no reply is lost
  when the connection ends, how long the handler runs by itself, and the server as one client sees it,
  from the bytes it sends to the bytes it gets.
\<close>

section \<open>The invariant of a connection\<close>

text \<open>A writer over a stream of bytes: the sink holds a prefix, and without a failure nothing is missing.\<close>

definition carries :: "writer \<Rightarrow> bytes \<Rightarrow> bool" where
  "carries w bs \<longleftrightarrow> prefix (wout w) bs \<and> (\<not> wfail w \<longrightarrow> written w = bs)"

lemma carries_emits: "carries w bs \<Longrightarrow> emits f a \<Longrightarrow> f w = (w', ok) \<Longrightarrow> carries w' (bs @ a)"
  using emitsD [of f a w w' ok] unfolding carries_def by (cases "wfail w") auto

definition replies_bytes :: "conn \<Rightarrow> bytes" where
  "replies_bytes c = concat (map (enc_reply \<circ> xreply) (trace c))"

lemma flusher_flush_cases:
  assumes "flusher_flush c = (c', ok)"
  shows "\<exists>w f. c' = c\<lparr>cw := w, ffailed := f\<rparr> \<and> accepts w = accepts (cw c) \<and> f = (\<not> ok)
    \<and> (ok \<longrightarrow> wbuf w = [] \<and> wfail w = wfail (cw c)) \<and> (\<forall>bs. carries (cw c) bs \<longrightarrow> carries w bs)
    \<and> (accepts (cw c) = None \<and> \<not> wfail (cw c) \<and> \<not> ffailed c \<longrightarrow> ok \<and> \<not> wfail w)"
proof (cases "ffailed c \<or> writer_Buffered (cw c) = 0")
  case True
  then have "c' = c\<lparr>cw := cw c, ffailed := ffailed c\<rparr>" "ok = (\<not> ffailed c)" "ok \<Longrightarrow> wbuf (cw c) = []"
    using assms by (auto simp: flusher_flush_def writer_Buffered_def split: if_splits)
  then show ?thesis by blast
next
  case False
  obtain w k where w: "writer_Flush (cw c) = (w, k)" by fastforce
  then have c': "c' = c\<lparr>cw := w, ffailed := \<not> ok\<rparr>" "k = ok" using assms False by (auto simp: flusher_flush_def split: if_splits)
  have "accepts w = accepts (cw c)" "ok \<longrightarrow> wbuf w = [] \<and> wfail w = wfail (cw c)"
    "accepts (cw c) = None \<and> \<not> wfail (cw c) \<longrightarrow> ok \<and> \<not> wfail w"
    using w c'(2) by (auto simp: writer_Flush_def deliver_def split: if_splits option.splits)
  moreover have "carries (cw c) bs \<longrightarrow> carries w bs" for bs
    using w unfolding carries_def
    by (auto simp: writer_Flush_def deliver_def written_def take_is_prefix split: if_splits option.splits)
  ultimately show ?thesis using c'(1) by blast
qed

lemma Dispatch_runs: "Dispatch Registry_New v e args \<noteq> (e', Panicked)"
  by (auto simp: Dispatch_perform perform_def split: request.splits prod.splits option.splits sum.splits)

text \<open>While the socket is open: no failure so far, and every whole request received has been taken.\<close>

definition healthy :: "conn_cfg \<Rightarrow> conn \<Rightarrow> bool" where
  "healthy cfg c \<longleftrightarrow> \<not> wfail (cw c) \<and> \<not> ffailed c \<and> farewell c = []
     \<and> decodes (climits cfg) (got c) (map xargs (trace c)) (input (src (crd c)))
     \<and> (flushEveryReply cfg \<longrightarrow> wbuf (cw c) = [])"

definition conn_inv :: "conn_cfg \<Rightarrow> nat option \<Rightarrow> conn \<Rightarrow> bool" where
  "conn_inv cfg acc c \<longleftrightarrow>
     carries (cw c) (replies_bytes c @ farewell c)
     \<and> accepts (cw c) = acc \<and> (acc = None \<longrightarrow> \<not> wfail (cw c) \<and> \<not> ffailed c)
     \<and> rlimits (crd c) = climits cfg
     \<and> (cpc c \<in> {AtTop, Arming, Decoding, AwaitRead} \<longrightarrow> farewell c = [] \<and> (ending (src (crd c)) = pending \<longrightarrow> healthy cfg c))
     \<and> (cpc c = AwaitRead \<longrightarrow> ending (src (crd c)) = pending \<and> wbuf (cw c) = [] \<and> frames (climits cfg) (input (src (crd c))) = [])
     \<and> (acc = None \<and> cpc c = Closed \<longrightarrow> wbuf (cw c) = [])"

lemma stream_open: "ending s = pending \<Longrightarrow> s = open_stream (input s)"
  by (cases s) simp

lemma inv_start: "conn_inv cfg acc (handleConn cfg acc)"
  by (simp add: conn_inv_def handleConn_def carries_def NewWriter_def NewReader_def written_def replies_bytes_def healthy_def)

lemma inv_flush:
  assumes "conn_inv cfg acc c" "cpc c = AtFlush"
  shows "conn_inv cfg acc ((fst (flusher_flush c))\<lparr>cpc := Closed\<rparr>)"
proof -
  obtain c' ok where f: "flusher_flush c = (c', ok)" by fastforce
  from flusher_flush_cases [OF this] assms f show ?thesis
    by (auto simp: conn_inv_def replies_bytes_def)
qed

lemma inv_read:
  assumes "conn_inv cfg acc c" "cpc c = Decoding" "ending (src (crd c)) = pending" "ReadCommand (crd c) = Inl err"
  shows "conn_inv cfg acc (if flushEveryReply cfg then c\<lparr>cpc := AwaitRead\<rparr> else flushBeforeRead_Read c)"
proof -
  have "parse_command (climits cfg) (src (crd c)) = Inl err"
    using ReadCommand_parse [of "crd c"] assms by (simp add: conn_inv_def)
  then have fr: "frames (climits cfg) (input (src (crd c))) = []"
    using stream_open [OF assms(3)] by (subst frames.simps) simp
  obtain c' ok where f: "flusher_flush c = (c', ok)" by fastforce
  from flusher_flush_cases [OF this] obtain w fl where
    w: "c' = c\<lparr>cw := w, ffailed := fl\<rparr>" "accepts w = accepts (cw c)" "fl = (\<not> ok)" "ok \<longrightarrow> wbuf w = [] \<and> wfail w = wfail (cw c)"
    "\<forall>bs. carries (cw c) bs \<longrightarrow> carries w bs" "accepts (cw c) = None \<and> \<not> wfail (cw c) \<and> \<not> ffailed c \<longrightarrow> ok \<and> \<not> wfail w"
    by blast
  have "errFlushFailed \<noteq> pending" by (simp add: errFlushFailed_def pending_def)
  then show ?thesis
    using assms fr f w
    by (cases ok) (auto simp: conn_inv_def healthy_def replies_bytes_def flushBeforeRead_Read_def set_ending_def)
qed

lemma inv_report:
  assumes "conn_inv cfg acc c" "cpc c = Decoding"
  shows "conn_inv cfg acc ((reportReadError err c)\<lparr>cpc := AtFlush\<rparr>)"
proof (cases err)
  case (ProtocolError msg inc)
  define line where "line = ''ERR Protocol error: '' @ msg"
  obtain w ok where w: "WriteError line (cw c) = (w, ok)" by fastforce
  define c1 where "c1 = c\<lparr>cw := w, farewell := enc_line CHR ''-'' line\<rparr>"
  obtain c' k where f: "flusher_flush c1 = (c', k)" by fastforce
  have e: "emits (WriteError line) (enc_line CHR ''-'' line)" using emits_prefixed by (simp add: WriteError_def [abs_def])
  have "farewell c = []" "carries (cw c) (replies_bytes c @ farewell c)" using assms by (auto simp: conn_inv_def)
  then have "carries w (replies_bytes c @ enc_line CHR ''-'' line)"
    using carries_emits [OF _ e w, of "replies_bytes c"] by simp
  moreover have "accepts w = acc" "acc = None \<longrightarrow> \<not> wfail w"
    using emitsD [OF e w] assms by (auto simp: conn_inv_def)
  moreover have "reportReadError err c = c'"
    using f w by (simp add: reportReadError_def ProtocolError Let_def c1_def line_def)
  moreover from flusher_flush_cases [OF f] obtain w2 g where "c' = c1\<lparr>cw := w2, ffailed := g\<rparr>" "accepts w2 = accepts w"
    "g = (\<not> k)" "\<forall>bs. carries w bs \<longrightarrow> carries w2 bs" "accepts w = None \<and> \<not> wfail w \<and> \<not> ffailed c \<longrightarrow> k \<and> \<not> wfail w2"
    by (auto simp: c1_def)
  moreover have "rlimits (crd c) = climits cfg" "acc = None \<longrightarrow> \<not> ffailed c" using assms by (simp_all add: conn_inv_def)
  moreover have "replies_bytes (c'\<lparr>cpc := AtFlush\<rparr>) = replies_bytes c" "farewell c' = enc_line CHR ''-'' line" "crd c' = crd c"
    using calculation(5) by (simp_all add: replies_bytes_def c1_def)
  ultimately show ?thesis by (simp add: conn_inv_def)
qed (use assms in \<open>auto simp: reportReadError_def conn_inv_def replies_bytes_def\<close>)

lemma ReadCommand_frame:
  "ReadCommand r = Inr (args, r') \<Longrightarrow> parse_command (rlimits r) (src r) = Inr (args, src r') \<and> rlimits r' = rlimits r"
  using ReadCommand_parse [of r] ReadCommand_Inr [of r args "src r'"] by simp

lemma inv_request:
  assumes "conn_inv cfg acc c" "cpc c = Decoding" "ReadCommand (crd c) = Inr (args, r)"
  shows "conn_inv cfg acc (serve_request cfg v e args (c\<lparr>crd := r\<rparr>))"
proof -
  have r: "parse_command (climits cfg) (src (crd c)) = Inr (args, src r)" "rlimits r = climits cfg"
    using ReadCommand_frame [OF assms(3)] assms(1) by (simp_all add: conn_inv_def)
  obtain e' out where d: "Dispatch Registry_New v e args = (e', out)" by fastforce
  show ?thesis
  proof (cases out)
    case (Replied reply)
    define x where "x = \<lparr>xenv = v, xpre = e, xargs = args, xpost = e', xreply = reply\<rparr>"
    define c1 where "c1 = c\<lparr>crd := r, trace := trace c @ [x]\<rparr>"
    obtain w ok where w: "writeReply reply (cw c) = (w, ok)" by fastforce
    have em: "emits (writeReply reply) (enc_reply reply)"
      using known.ok_Dispatch d Replied by (intro emits_writeReply) simp
    have base: "farewell c = []" "carries (cw c) (replies_bytes c)" using assms by (auto simp: conn_inv_def)
    then have c: "carries w (replies_bytes c @ enc_reply reply)" using carries_emits [OF _ em w] by blast
    have acc: "accepts w = acc" "acc = None \<longrightarrow> ok \<and> \<not> wfail w" "ok \<longrightarrow> \<not> wfail w"
      using emitsD [OF em w] assms by (auto simp: conn_inv_def)
    have h: "decodes (climits cfg) (got c) (map xargs (trace c1)) (input (src r))" "\<not> ffailed c" if "ending (src r) = pending"
    proof -
      have e: "ending (src (crd c)) = pending" using parse_command_shorter [OF r(1)] that by simp
      then have "healthy cfg c" using assms by (simp add: conn_inv_def)
      then show "decodes (climits cfg) (got c) (map xargs (trace c1)) (input (src r))" "\<not> ffailed c"
        using r(1) stream_open [OF e] stream_open [OF that] decodes_snoc [of "climits cfg" "got c"]
        by (auto simp: healthy_def c1_def x_def)
    qed
    obtain c2 ok2 where f: "flusher_flush (c1\<lparr>cw := w\<rparr>) = (c2, ok2)" by fastforce
    have step: "serve_request cfg v e args (c\<lparr>crd := r\<rparr>) =
        (if \<not> ok then flusher_fail (c1\<lparr>cw := w, cpc := AtFlush\<rparr>)
         else if flushEveryReply cfg then (if \<not> ok2 then c2\<lparr>cpc := AtFlush\<rparr> else c2\<lparr>cpc := AtTop\<rparr>)
         else c1\<lparr>cw := w, cpc := AtTop\<rparr>)"
      using d Replied w f by (simp add: serve_request_def x_def c1_def)
    have b: "replies_bytes c1 = replies_bytes c @ enc_reply reply" "farewell c1 = []" "got c1 = got c" "crd c1 = r" "ffailed c1 = ffailed c"
      using base by (simp_all add: replies_bytes_def c1_def x_def)
    have fl: "acc = None \<longrightarrow> \<not> ffailed c" using assms by (simp add: conn_inv_def)
    have same: "replies_bytes (c1\<lparr>cw := w, ffailed := g, cpc := pc\<rparr>) = replies_bytes c1"
      "replies_bytes (c1\<lparr>cw := w, cpc := pc\<rparr>) = replies_bytes c1" for w g pc
      by (simp_all add: replies_bytes_def)
    consider "\<not> ok" | "ok" "\<not> flushEveryReply cfg" | "ok" "flushEveryReply cfg" by blast
    then show ?thesis
    proof cases
      case 1
      then show ?thesis unfolding step using c acc b r(2) fl same(1) [where w = w and g = True and pc = AtFlush]
        by (auto simp: conn_inv_def flusher_fail_def replies_bytes_def)
    next
      case 2
      then show ?thesis unfolding step using c acc b r(2) h fl same(2) [where w = w and pc = AtTop]
        by (auto simp: conn_inv_def healthy_def)
    next
      case 3
      from flusher_flush_cases [OF f] obtain w2 g where w2: "c2 = c1\<lparr>cw := w2, ffailed := g\<rparr>"
        "accepts w2 = accepts w" "g = (\<not> ok2)" "ok2 \<longrightarrow> wbuf w2 = [] \<and> wfail w2 = wfail w"
        "\<forall>bs. carries w bs \<longrightarrow> carries w2 bs" "accepts w = None \<and> \<not> wfail w \<and> \<not> ffailed c \<longrightarrow> ok2 \<and> \<not> wfail w2"
        using b(5) by auto
      from 3 show ?thesis unfolding step using w2 c acc b r(2) h fl same(1) [where w = w2 and g = g]
        by (auto simp: conn_inv_def healthy_def)
    qed
  qed (use assms d r(2) Dispatch_runs [of v e args] in
      \<open>auto simp: serve_request_def conn_inv_def replies_bytes_def\<close>)
qed

lemma inv_own:
  assumes "conn_inv cfg acc c"
  shows "conn_inv cfg acc (serve_step cfg v e c)"
proof (cases "cpc c")
  case Decoding
  show ?thesis
  proof (cases "ReadCommand (crd c)")
    case (Inl err)
    then show ?thesis
      using inv_read [OF assms Decoding _ Inl] inv_report [OF assms Decoding, of err] Decoding
      by (simp add: serve_step_def)
  next
    case (Inr p)
    then show ?thesis
      using inv_request [OF assms Decoding, of "fst p" "snd p" v e] Decoding
      by (cases p) (simp add: serve_step_def)
  qed
qed (use assms inv_flush [OF assms] in \<open>auto simp: serve_step_def conn_inv_def healthy_def replies_bytes_def\<close>)

lemma inv_arrive:
  assumes "conn_inv cfg acc c" "cpc c = AwaitRead"
  shows "conn_inv cfg acc (c\<lparr>cpc := Decoding, got := got c @ chunk,
      crd := (crd c)\<lparr>src := (src (crd c))\<lparr>input := input (src (crd c)) @ chunk\<rparr>\<rparr>\<rparr>)"
  using assms decodes_more by (auto simp: conn_inv_def healthy_def replies_bytes_def)

lemma inv_frame [simp]:
  "conn_inv cfg acc (c\<lparr>draining := d\<rparr>) = conn_inv cfg acc c"
  "conn_inv cfg acc (c\<lparr>nudged := n, nudge_sent := k\<rparr>) = conn_inv cfg acc c"
  by (simp_all add: conn_inv_def healthy_def replies_bytes_def)

lemma inv_fails:
  "conn_inv cfg acc c \<Longrightarrow> cpc c = AwaitRead \<Longrightarrow> en \<noteq> pending \<Longrightarrow> conn_inv cfg acc (set_ending en (c\<lparr>cpc := Decoding\<rparr>))"
  by (auto simp: conn_inv_def replies_bytes_def set_ending_def)

lemma inv_step: "conn_inv cfg acc c \<Longrightarrow> conn_step cfg c c' \<Longrightarrow> conn_inv cfg acc c'"
  by (erule conn_step.cases) (simp_all add: inv_own inv_arrive inv_fails)

lemma inv_reachable: "conn_reachable cfg acc c \<Longrightarrow> conn_inv cfg acc c"
  by (induction rule: conn_reachable.induct) (auto intro: inv_start inv_step)

section \<open>What the handler has run\<close>

lemma flush_keeps: "crd (fst (flusher_flush c)) = crd c" "trace (fst (flusher_flush c)) = trace c" "cpc (fst (flusher_flush c)) = cpc c"
  "draining (fst (flusher_flush c)) = draining c"
  by (simp_all add: flusher_flush_def split: prod.split)

definition ran :: "exchange \<Rightarrow> bool" where
  "ran x \<longleftrightarrow> Dispatch Registry_New (xenv x) (xpre x) (xargs x) = (xpost x, Replied (xreply x))"

text \<open>What a request does to the fields it does not mean to change, whatever its outcome.\<close>

lemma request_cases:
  obtains (other) pc where "pc = Stuck \<or> pc = Closed" "serve_request cfg v e args c = c\<lparr>cpc := pc\<rparr>"
  | (replied) x w f pc where "ran x" "xargs x = args" "pc = AtTop \<or> pc = AtFlush"
      "serve_request cfg v e args c = c\<lparr>trace := trace c @ [x], cw := w, ffailed := f, cpc := pc\<rparr>"
proof -
  obtain e' out where d: "Dispatch Registry_New v e args = (e', out)" by fastforce
  show thesis
  proof (cases out)
    case (Replied r)
    define x where "x = \<lparr>xenv = v, xpre = e, xargs = args, xpost = e', xreply = r\<rparr>"
    have x: "ran x" "xargs x = args" using d Replied by (simp_all add: ran_def x_def)
    define c1 where "c1 = c\<lparr>trace := trace c @ [x]\<rparr>"
    obtain w ok where w: "writeReply r (cw c) = (w, ok)" by fastforce
    obtain c2 ok2 where f: "flusher_flush (c1\<lparr>cw := w\<rparr>) = (c2, ok2)" by fastforce
    obtain w2 g where c2: "c2 = c1\<lparr>cw := w2, ffailed := g\<rparr>" using flusher_flush_cases [OF f] by auto
    have eq: "serve_request cfg v e args c =
        (if \<not> ok then c1\<lparr>cw := w, ffailed := True, cpc := AtFlush\<rparr>
         else if flushEveryReply cfg then c1\<lparr>cw := w2, ffailed := g, cpc := if ok2 then AtTop else AtFlush\<rparr>
         else c1\<lparr>cw := w, ffailed := ffailed c, cpc := AtTop\<rparr>)"
      using d Replied w f c2 by (simp add: serve_request_def x_def c1_def flusher_fail_def)
    show thesis
    proof (cases "ok \<and> flushEveryReply cfg")
      case True
      then show thesis
        using replied [OF x, where w = w2 and f = g and pc = "if ok2 then AtTop else AtFlush"] eq unfolding c1_def by simp
    next
      case False
      then show thesis
        using replied [OF x, where w = w and f = "if ok then ffailed c else True" and pc = "if ok then AtTop else AtFlush"] eq unfolding c1_def
        by (cases ok) simp_all
    qed
  qed (use d other in \<open>auto simp: serve_request_def\<close>)
qed

lemma report_keeps: "trace (reportReadError err c) = trace c" "crd (reportReadError err c) = crd c"
  by (simp_all add: reportReadError_def Let_def flush_keeps split: read_err.split)

lemma read_keeps: "trace (flushBeforeRead_Read c) = trace c"
  using flush_keeps(2) [of c] by (auto simp: flushBeforeRead_Read_def set_ending_def split: prod.split)

lemma own_ran: "list_all ran (trace c) \<Longrightarrow> list_all ran (trace (serve_step cfg v e c))"
proof (cases "cpc c = Decoding")
  case True
  moreover assume "list_all ran (trace c)"
  moreover have "list_all ran (trace (serve_request cfg v e args (c\<lparr>crd := r\<rparr>)))" for args r
    using calculation(2) by (cases rule: request_cases [of cfg v e args "c\<lparr>crd := r\<rparr>"]) auto
  ultimately show ?thesis
    by (auto simp: serve_step_def read_keeps report_keeps split: sum.split)
qed (simp add: serve_step_def flush_keeps split: conn_pc.split)

lemma reachable_ran: "conn_reachable cfg acc c \<Longrightarrow> list_all ran (trace c)"
proof (induction rule: conn_reachable.induct)
  case (step c c')
  from step(2,3) show ?case by cases (simp_all add: own_ran set_ending_def)
qed (simp add: handleConn_def)

text \<open>A client that has the engine for itself: each request finds the engine the last one left.\<close>

fun alone :: "engine \<Rightarrow> exchange list \<Rightarrow> bool" where
  "alone e [] \<longleftrightarrow> True"
| "alone e (x # xs) \<longleftrightarrow> xpre x = e \<and> alone (xpost x) xs"

lemma alone_run:
  "alone e xs \<Longrightarrow> list_all ran xs \<Longrightarrow> dispatch_run e (map (\<lambda>x. (xenv x, xargs x)) xs) = map (Replied \<circ> xreply) xs"
  by (induction xs arbitrary: e) (auto simp: ran_def)

section \<open>How long the handler runs by itself\<close>

definition work :: "conn \<Rightarrow> nat" where
  "work c =
     (let n = 5 * length (input (src (crd c))) in
      case cpc c of
        AtTop \<Rightarrow> n + 5 | Arming \<Rightarrow> n + 4
      | Decoding \<Rightarrow> n + (if ending (src (crd c)) = pending then 3 else 2)
      | AtFlush \<Rightarrow> 1 | _ \<Rightarrow> 0)"

lemma work_own:
  assumes "cpc c \<in> {AtTop, Arming, Decoding, AtFlush}"
  shows "work (serve_step cfg v e c) < work c"
proof (cases "cpc c = Decoding")
  case True
  show ?thesis
  proof (cases "ReadCommand (crd c)")
    case (Inl err)
    have "errFlushFailed \<noteq> pending" by (simp add: errFlushFailed_def pending_def)
    then have "ending (src (crd c)) = pending \<Longrightarrow> work (flushBeforeRead_Read c) < work c"
      using flush_keeps [of c] True
      by (auto simp: work_def flushBeforeRead_Read_def set_ending_def Let_def split: prod.split)
    moreover have "work (c\<lparr>cpc := AwaitRead\<rparr>) < work c" "work (c'\<lparr>cpc := AtFlush\<rparr>) < work c" for c'
      using True by (simp_all add: work_def)
    ultimately show ?thesis using True Inl by (simp add: serve_step_def)
  next
    case (Inr p)
    obtain args r where p: "p = (args, r)" by fastforce
    have "length (input (src r)) < length (input (src (crd c)))"
      using ReadCommand_frame [of "crd c" args r] Inr p by (auto dest: parse_command_shorter)
    then have "work (serve_request cfg v e args (c\<lparr>crd := r\<rparr>)) < work c"
      using True by (cases rule: request_cases [of cfg v e args "c\<lparr>crd := r\<rparr>"]) (auto simp: work_def Let_def)
    then show ?thesis using True Inr p by (simp add: serve_step_def)
  qed
qed (use assms in \<open>auto simp: serve_step_def work_def flush_keeps\<close>)

lemma settled_stays: "cpc c \<notin> {AtTop, Arming, Decoding, AtFlush} \<Longrightarrow> serve_step cfg v e c = c"
  by (cases "cpc c") (auto simp: serve_step_def)

fun run_alone :: "conn_cfg \<Rightarrow> (env \<times> engine) list \<Rightarrow> conn \<Rightarrow> conn" where
  "run_alone cfg [] c = c"
| "run_alone cfg ((v, e) # ves) c = run_alone cfg ves (serve_step cfg v e c)"

lemma run_settles: "work c \<le> length ves \<Longrightarrow> cpc (run_alone cfg ves c) \<in> {AwaitRead, Stuck, Closed}"
proof (induction cfg ves c rule: run_alone.induct)
  case (1 cfg c)
  then show ?case by (cases "cpc c") (auto simp: work_def Let_def split: if_splits)
next
  case (2 cfg v e ves c)
  have "work (serve_step cfg v e c) \<le> length ves"
    using 2(2) work_own [of c cfg v e] settled_stays [of c cfg v e]
    by (cases "cpc c") (auto simp: work_def Let_def)
  from 2(1) [OF this] show ?case by simp
qed

lemma run_reachable: "conn_reachable cfg acc c \<Longrightarrow> conn_reachable cfg acc (run_alone cfg ves c)"
proof (induction cfg ves c rule: run_alone.induct)
  case (2 cfg v e ves c)
  then have "conn_reachable cfg acc (serve_step cfg v e c)"
    using settled_stays [of c cfg v e] conn_reachable.step conn_step.own by metis
  then show ?case using 2 by simp
qed simp

section \<open>A pipeline of requests\<close>

lemma request_replied:
  assumes "conn_inv cfg None c" "cpc c = Decoding" "Dispatch Registry_New v e args = (e', Replied r)"
  defines "x \<equiv> \<lparr>xenv = v, xpre = e, xargs = args, xpost = e', xreply = r\<rparr>"
  shows "\<exists>w f. serve_request cfg v e args (c\<lparr>crd := rd\<rparr>) = c\<lparr>crd := rd, trace := trace c @ [x], cw := w, ffailed := f, cpc := AtTop\<rparr>"
proof -
  have c: "accepts (cw c) = None" "\<not> wfail (cw c)" "\<not> ffailed c" using assms(1) by (auto simp: conn_inv_def)
  obtain w ok where w: "writeReply r (cw c) = (w, ok)" by fastforce
  have "emits (writeReply r) (enc_reply r)" using known.ok_Dispatch [OF assms(3)] by (rule emits_writeReply)
  note e = emitsD [OF this w]
  then have ok: "ok" "accepts w = None" "\<not> wfail w" using c by auto
  define c1 where "c1 = c\<lparr>crd := rd, trace := trace c @ [x]\<rparr>"
  obtain c2 ok2 where f: "flusher_flush (c1\<lparr>cw := w\<rparr>) = (c2, ok2)" by fastforce
  obtain w2 g where c2: "c2 = c1\<lparr>cw := w2, ffailed := g\<rparr>" "ok2"
    using flusher_flush_cases [OF f] ok c(3) by (auto simp: c1_def)
  have "serve_request cfg v e args (c\<lparr>crd := rd\<rparr>) =
      (if flushEveryReply cfg then c1\<lparr>cw := w2, ffailed := g, cpc := AtTop\<rparr> else c1\<lparr>cw := w, ffailed := ffailed c, cpc := AtTop\<rparr>)"
    using assms(3) w f c2 ok(1) by (simp add: serve_request_def x_def c1_def)
  then show ?thesis
    by (cases "flushEveryReply cfg") (simp_all only: c1_def if_True if_False, blast+)
qed

lemma drained_waits:
  assumes "conn_inv cfg None c" "cpc c = Decoding" "src (crd c) = open_stream []"
  shows "cpc (serve_step cfg v e c) = AwaitRead" "trace (serve_step cfg v e c) = trace c"
    "draining (serve_step cfg v e c) = draining c" "got (serve_step cfg v e c) = got c" "crd (serve_step cfg v e c) = crd c"
proof -
  have "ReadCommand (crd c) = Inl (end_err pending)"
    using assms(3) by (intro ReadCommand_Inl) (simp add: parse_command_def readLine_def pending_def)
  moreover obtain c' ok where f: "flusher_flush c = (c', ok)" by fastforce
  moreover obtain w g where "c' = c\<lparr>cw := w, ffailed := g\<rparr>" "ok"
    using flusher_flush_cases [OF f] assms(1) by (auto simp: conn_inv_def)
  ultimately show "cpc (serve_step cfg v e c) = AwaitRead" "trace (serve_step cfg v e c) = trace c"
    "draining (serve_step cfg v e c) = draining c" "got (serve_step cfg v e c) = got c" "crd (serve_step cfg v e c) = crd c"
    using assms(2,3) by (simp_all add: serve_step_def flushBeforeRead_Read_def)
qed

lemma pipeline_run:
  assumes "conn_inv cfg None c" "cpc c = Decoding" "\<not> draining c"
    and "src (crd c) = open_stream (concat (map (enc_request \<circ> snd) rs))" "list_all (fits (climits cfg) \<circ> snd) rs"
    and "dispatch_run e rs = map Replied replies"
  shows "\<exists>ves xs. cpc (run_alone cfg ves c) = AwaitRead \<and> \<not> draining (run_alone cfg ves c) \<and> got (run_alone cfg ves c) = got c
    \<and> src (crd (run_alone cfg ves c)) = open_stream [] \<and> trace (run_alone cfg ves c) = trace c @ xs \<and> map xreply xs = replies
    \<and> map (\<lambda>x. (xenv x, xargs x)) xs = rs \<and> alone e xs"
  using assms
proof (induction rs arbitrary: c e replies)
  case Nil
  note step = drained_waits [of cfg c undefined undefined]
  have "run_alone cfg [(undefined, undefined)] c = serve_step cfg undefined undefined c" by simp
  then show ?case using step Nil by (intro exI [of _ "[(undefined, undefined)]"] exI [of _ "[]"]) simp
next
  case (Cons q rs)
  obtain v args where q: "q = (v, args)" by fastforce
  obtain e' r rest where d: "Dispatch Registry_New v e args = (e', Replied r)" "replies = r # rest" "dispatch_run e' rs = map Replied rest"
    using Cons.prems(6) by (cases replies) (auto simp: q split: prod.splits)
  define x where "x = \<lparr>xenv = v, xpre = e, xargs = args, xpost = e', xreply = r\<rparr>"
  have "rlimits (crd c) = climits cfg" using Cons.prems(1) by (simp add: conn_inv_def)
  then obtain rd where rd: "ReadCommand (crd c) = Inr (args, rd)" "src rd = open_stream (concat (map (enc_request \<circ> snd) rs))"
    using ReadCommand_Inr [of "crd c" args] parse_command_enc [of "climits cfg" args] Cons.prems(4,5) by (auto simp: q o_def)
  obtain w f where s1: "serve_step cfg v e c = c\<lparr>crd := rd, trace := trace c @ [x], cw := w, ffailed := f, cpc := AtTop\<rparr>"
    using request_replied [OF Cons.prems(1,2) d(1), of rd] rd(1) Cons.prems(2) by (auto simp: serve_step_def x_def)
  define c3 where "c3 = run_alone cfg [(v, e), (v, e), (v, e)] c"
  have c3: "c3 = c\<lparr>crd := rd, trace := trace c @ [x], cw := w, ffailed := f, nudged := False, cpc := Decoding\<rparr>"
    using Cons.prems(3) by (simp add: c3_def s1) (simp add: serve_step_def)
  have i: "conn_inv cfg None c3" using Cons.prems(1) by (simp add: c3_def inv_own)
  have cs: "cpc c3 = Decoding" "\<not> draining c3" "src (crd c3) = open_stream (concat (map (enc_request \<circ> snd) rs))"
    "list_all (fits (climits cfg) \<circ> snd) rs"
    using Cons.prems rd(2) by (simp_all add: c3 del: o_apply)
  from Cons.IH [OF i cs d(3)] obtain ves xs where
    IH: "cpc (run_alone cfg ves c3) = AwaitRead" "\<not> draining (run_alone cfg ves c3)" "got (run_alone cfg ves c3) = got c3"
      "src (crd (run_alone cfg ves c3)) = open_stream []" "trace (run_alone cfg ves c3) = trace c3 @ xs" "map xreply xs = rest" "map (\<lambda>x. (xenv x, xargs x)) xs = rs" "alone e' xs"
    by blast
  have "run_alone cfg ((v, e) # (v, e) # (v, e) # ves) c = run_alone cfg ves c3" by (simp add: c3_def)
  then show ?case
    using IH by (intro exI [of _ "(v, e) # (v, e) # (v, e) # ves"] exI [of _ "x # xs"]) (simp add: c3 d(2) q x_def)
qed

section \<open>Properties of a connection\<close>

lemma waits_answered:
  assumes "conn_reachable cfg acc c" "cpc c = AwaitRead"
  shows "map xargs (trace c) = frames (climits cfg) (got c) \<and> wout (cw c) = concat (map (enc_reply \<circ> xreply) (trace c))"
proof -
  have "healthy cfg c" "carries (cw c) (replies_bytes c)" "wbuf (cw c) = []" "frames (climits cfg) (input (src (crd c))) = []"
    using inv_reachable [OF assms(1)] assms(2) by (auto simp: conn_inv_def)
  moreover from this(1) have "frames (climits cfg) (got c) = map xargs (trace c) @ frames (climits cfg) (input (src (crd c)))"
    by (intro decodes_frames) (simp add: healthy_def)
  ultimately show ?thesis by (simp add: healthy_def carries_def written_def replies_bytes_def)
qed

text \<open>
  C8: the handler waits for a client only when it owes it nothing. Whenever it is inside the socket's
  \<^verbatim>\<open>Read\<close>, however the bytes were cut into chunks, it has run every whole request it has received, in
  order, and the client has been sent the encoded reply of each and nothing else.
\<close>

theorem replies_before_wait:
  assumes "conn_reachable cfg acc c" "cpc c = AwaitRead"
  shows "map xargs (trace c) = frames (climits cfg) (got c) \<and> wout (cw c) = concat (map (enc_reply \<circ> xreply) (trace c))"
  using assms by (rule waits_answered)

definition demo_cfg :: conn_cfg where
  "demo_cfg = \<lparr>flushEveryReply = False, climits = DefaultLimits\<rparr>"

definition sends :: "conn \<Rightarrow> bytes \<Rightarrow> conn" where
  "sends c chunk = c\<lparr>cpc := Decoding, got := got c @ chunk,
      crd := (crd c)\<lparr>src := (src (crd c))\<lparr>input := input (src (crd c)) @ chunk\<rparr>\<rparr>\<rparr>"

lemma sends_reachable: "conn_reachable cfg acc c \<Longrightarrow> cpc c = AwaitRead \<Longrightarrow> chunk \<noteq> [] \<Longrightarrow> conn_reachable cfg acc (sends c chunk)"
  unfolding sends_def by (rule conn_reachable.step [OF _ conn_step.arrive])

lemma sends_simps [simp]:
  "cpc (sends c bs) = Decoding" "draining (sends c bs) = draining c" "trace (sends c bs) = trace c" "got (sends c bs) = got c @ bs"
  "src (crd (sends c bs)) = (src (crd c))\<lparr>input := input (src (crd c)) @ bs\<rparr>"
  by (simp_all add: sends_def)

text \<open>A fresh connection waits for its first request.\<close>

lemma fresh_waits:
  "\<exists>c. conn_reachable cfg None c \<and> cpc c = AwaitRead \<and> \<not> draining c \<and> src (crd c) = open_stream [] \<and> trace c = [] \<and> got c = []"
proof -
  define c where "c = run_alone cfg [(undefined, undefined), (undefined, undefined)] (handleConn cfg None)"
  have c: "c = (handleConn cfg None)\<lparr>cpc := Decoding\<rparr>"
    by (simp add: c_def serve_step_def handleConn_def)
  have r: "conn_reachable cfg None c" unfolding c_def by (rule run_reachable [OF conn_reachable.start])
  have "conn_reachable cfg None (serve_step cfg undefined undefined c)"
    using conn_reachable.step [OF r conn_step.own [of c cfg undefined undefined]] by (simp add: c)
  moreover have "src (crd c) = open_stream []" "cpc c = Decoding" "\<not> draining c" "trace c = []" "got c = []"
    by (simp_all add: c handleConn_def NewReader_def)
  ultimately show ?thesis
    using drained_waits [OF inv_reachable [OF r], of undefined undefined] by metis
qed

text \<open>Requests sent in one piece to a handler that waits.\<close>

lemma pipeline_answered:
  assumes "conn_reachable cfg None c" "cpc c = AwaitRead" "\<not> draining c" "src (crd c) = open_stream []"
    and "rs \<noteq> []" "list_all (fits (climits cfg) \<circ> snd) rs" "dispatch_run e rs = map Replied replies"
  shows "\<exists>c' xs. conn_reachable cfg None c' \<and> cpc c' = AwaitRead \<and> \<not> draining c'
    \<and> got c' = got c @ concat (map (enc_request \<circ> snd) rs) \<and> src (crd c') = open_stream []
    \<and> trace c' = trace c @ xs \<and> map xreply xs = replies \<and> map (\<lambda>x. (xenv x, xargs x)) xs = rs \<and> alone e xs"
proof -
  let ?bs = "concat (map (enc_request \<circ> snd) rs)"
  have "?bs \<noteq> []" using assms(5) by (cases rs) (simp_all add: enc_request_def enc_array_def)
  then have r: "conn_reachable cfg None (sends c ?bs)" by (rule sends_reachable [OF assms(1,2)])
  have "src (crd (sends c ?bs)) = open_stream ?bs" using assms(4) by simp
  from pipeline_run [OF inv_reachable [OF r] _ _ this assms(6,7)] assms(3)
  obtain ves xs where "cpc (run_alone cfg ves (sends c ?bs)) = AwaitRead \<and> \<not> draining (run_alone cfg ves (sends c ?bs))
    \<and> got (run_alone cfg ves (sends c ?bs)) = got c @ ?bs \<and> src (crd (run_alone cfg ves (sends c ?bs))) = open_stream []
    \<and> trace (run_alone cfg ves (sends c ?bs)) = trace c @ xs \<and> map xreply xs = replies
    \<and> map (\<lambda>x. (xenv x, xargs x)) xs = rs \<and> alone e xs"
    by auto
  with run_reachable [OF r, of ves] show ?thesis by blast
qed

lemma fits_small: "fits DefaultLimits [''PING'']" "fits DefaultLimits [''SET'', ''k'', ''v'']" "fits DefaultLimits [''GET'', ''k'']"
  by (simp_all add: fits_def DefaultLimits_def)

lemma demo_pong:
  obtains c where "conn_reachable demo_cfg None c" "cpc c = AwaitRead" "src (crd c) = open_stream []"
    "map xargs (trace c) = [[''PING'']]" "map xreply (trace c) = [Simple ''PONG'']"
proof -
  obtain c where "conn_reachable demo_cfg None c" "cpc c = AwaitRead" "\<not> draining c" "src (crd c) = open_stream []" "trace c = []"
    using fresh_waits by blast
  moreover have "dispatch_run engine_New [(demo_env 0, [''PING''])] = map Replied [Simple ''PONG'']"
    by (simp add: Dispatch_perform request_of_def perform_def upper_byte_def)
  moreover have "list_all (fits (climits demo_cfg) \<circ> snd) [(demo_env 0, [''PING''])]"
    using fits_small by (simp add: demo_cfg_def)
  ultimately obtain c' xs where c': "conn_reachable demo_cfg None c'" "cpc c' = AwaitRead" "src (crd c') = open_stream []"
    "trace c' = xs" "map xreply xs = [Simple ''PONG'']" "map (\<lambda>x. (xenv x, xargs x)) xs = [(demo_env 0, [''PING''])]"
    using pipeline_answered [of demo_cfg c "[(demo_env 0, [''PING''])]" engine_New "[Simple ''PONG'']"] by auto
  show thesis by (rule that [OF c'(1,2,3)]) (use c'(4-6) in auto)
qed

theorem replies_before_wait_witness:
  "\<exists>c. conn_reachable demo_cfg None c \<and> cpc c = AwaitRead \<and> wout (cw c) = ''+PONG'' @ CRLF
     \<and> frames (climits demo_cfg) (got c) = [[''PING'']]"
proof -
  obtain c where c: "conn_reachable demo_cfg None c" "cpc c = AwaitRead" "src (crd c) = open_stream []"
    "map xargs (trace c) = [[''PING'']]" "map xreply (trace c) = [Simple ''PONG'']"
    by (rule demo_pong)
  have "concat (map (enc_reply \<circ> xreply) (trace c)) = concat (map enc_reply (map xreply (trace c)))" by simp
  also have "\<dots> = ''+PONG'' @ CRLF" unfolding c(5) by (simp add: reply_defs reply_kinds enc_line_def line_safe_def)
  finally show ?thesis using replies_before_wait [OF c(1,2)] c(1,2,4) by (intro exI [of _ c]) simp
qed

text \<open>
  C10: the client receives the replies in order and nothing between them. Whatever the socket does,
  the bytes sent are a prefix of the encoded replies, followed at most by the line of the protocol
  error that ended the connection. With a socket that takes every byte they are all of it once the
  connection is closed, a shutdown in the middle of a pipeline included.
\<close>

theorem replies_in_order:
  assumes "conn_reachable cfg acc c"
  shows "prefix (wout (cw c)) (concat (map (enc_reply \<circ> xreply) (trace c)) @ farewell c)
    \<and> (acc = None \<and> cpc c = Closed \<longrightarrow> wout (cw c) = concat (map (enc_reply \<circ> xreply) (trace c)) @ farewell c)"
  using inv_reachable [OF assms] by (auto simp: conn_inv_def carries_def written_def replies_bytes_def)

theorem replies_in_order_witness:
  "\<exists>c. conn_reachable demo_cfg None c \<and> cpc c = Closed \<and> draining c
     \<and> wout (cw c) = concat (map (enc_reply \<circ> xreply) (trace c)) @ farewell c \<and> map xreply (trace c) = [Simple ''PONG'']"
proof -
  obtain c where c: "conn_reachable demo_cfg None c" "cpc c = AwaitRead" "src (crd c) = open_stream []"
    "map xargs (trace c) = [[''PING'']]" "map xreply (trace c) = [Simple ''PONG'']"
    by (rule demo_pong)
  define c1 where "c1 = set_ending (Broken ''i/o timeout'') (c\<lparr>draining := True, cpc := Decoding\<rparr>)"
  have "conn_reachable demo_cfg None (c\<lparr>draining := True\<rparr>)" by (rule conn_reachable.step [OF c(1) conn_step.drain])
  then have r1: "conn_reachable demo_cfg None c1"
    using conn_reachable.step [OF _ conn_step.read_fails [of "c\<lparr>draining := True\<rparr>" "Broken ''i/o timeout''"]] c(2)
    by (simp add: c1_def pending_def)
  have "ReadCommand (crd c1) = Inl (Transport ''i/o timeout'')"
    using c(3) by (intro ReadCommand_Inl) (simp add: c1_def set_ending_def parse_command_def readLine_def)
  then have s1: "serve_step demo_cfg undefined undefined c1 = c1\<lparr>cpc := AtFlush\<rparr>"
    by (simp add: serve_step_def c1_def set_ending_def reportReadError_def pending_def)
  define c2 where "c2 = run_alone demo_cfg [(undefined, undefined), (undefined, undefined)] c1"
  have c2: "c2 = (fst (flusher_flush (c1\<lparr>cpc := AtFlush\<rparr>)))\<lparr>cpc := Closed\<rparr>"
    by (simp add: c2_def s1) (simp add: serve_step_def)
  have r: "conn_reachable demo_cfg None c2" unfolding c2_def by (rule run_reachable [OF r1])
  have "cpc c2 = Closed" "draining c2" "trace c2 = trace c"
    using flush_keeps [of "c1\<lparr>cpc := AtFlush\<rparr>"] by (simp_all add: c2 c1_def set_ending_def)
  with r replies_in_order [OF r] c(5) show ?thesis by auto
qed

text \<open>
  The server as a client sees it, from bytes to bytes. A client that is alone and has sent whole
  requests, in whatever chunks, has received exactly the encoded replies that one plain table of entries
  gives to these requests, as soon as the handler waits for it again.
\<close>

theorem client_served:
  assumes "conn_reachable cfg acc c" "cpc c = AwaitRead"
    and "got c = concat (map enc_request reqs)" "list_all (fits (climits cfg)) reqs"
    and "alone engine_New (trace c)" "sorted (map (clock \<circ> xenv) (trace c))"
    and "list_all served_in (zip (map xenv (trace c)) reqs)"
  shows "wout (cw c) = concat (map enc_reply (table_replies (True, \<lambda>_. None) (zip (map xenv (trace c)) reqs)))"
proof -
  let ?rs = "map (\<lambda>x. (xenv x, xargs x)) (trace c)"
  have "map xargs (trace c) = reqs"
    using waits_answered [OF assms(1,2)] frames_requests [OF assms(4)] assms(3) by simp
  then have rs: "zip (map xenv (trace c)) reqs = ?rs" by (auto simp: zip_map_map zip_same_conv_map)
  have "map (Replied \<circ> xreply) (trace c) = map Replied (table_replies (True, \<lambda>_. None) ?rs)"
    using alone_run [OF assms(5) reachable_ran [OF assms(1)]] dispatch_run_fresh [of ?rs] assms(6,7)
    by (simp add: rs o_def)
  then have "map Replied (map xreply (trace c)) = map Replied (table_replies (True, \<lambda>_. None) ?rs)" by simp
  then have "map xreply (trace c) = table_replies (True, \<lambda>_. None) ?rs"
    by (rule map_injective) (simp add: inj_def)
  then show ?thesis using waits_answered [OF assms(1,2)] by (simp only: rs) (metis map_map)
qed

theorem client_served_witness:
  "\<exists>c. conn_reachable demo_cfg None c \<and> cpc c = AwaitRead
     \<and> got c = enc_request [''SET'', ''k'', ''v''] @ enc_request [''GET'', ''k'']
     \<and> wout (cw c) = enc_reply (Simple ''OK'') @ enc_reply (Bulk ''v'')"
proof -
  let ?reqs = "[[''SET'', ''k'', ''v''], [''GET'', ''k'']]"
  let ?rs = "[(demo_env 0, [''SET'', ''k'', ''v'']), (demo_env 1, [''GET'', ''k''])]"
  have q: "request_of [''SET'', ''k'', ''v''] = ask (ESet ''k'' ''v'' NoExpiry)" "request_of [''GET'', ''k''] = ask (EGet ''k'')"
    by (simp_all add: request_of_def parseSetOptions_def parse_opts.simps upper_byte_def char_of_def bit_0)
  have served: "list_all served_in ?rs" by (simp add: demo_env_def served_in_def fair_sorted_list_of_fset q)
  have t: "table_replies (True, \<lambda>_. None) ?rs = [Simple ''OK'', Bulk ''v'']"
    by (simp add: demo_env_def q seen_def spec_expiry_def NoExpiry_def or_error_def)
  have d: "dispatch_run engine_New ?rs = map Replied [Simple ''OK'', Bulk ''v'']"
    using dispatch_run_fresh [OF _ served] unfolding t by (simp add: demo_env_def)
  have fit: "list_all (fits (climits demo_cfg) \<circ> snd) ?rs" using fits_small by (simp add: demo_cfg_def)
  obtain c0 where c0: "conn_reachable demo_cfg None c0" "cpc c0 = AwaitRead" "\<not> draining c0" "src (crd c0) = open_stream []"
    "trace c0 = []" "got c0 = []"
    using fresh_waits by blast
  obtain c xs where c: "conn_reachable demo_cfg None c" "cpc c = AwaitRead" "got c = concat (map (enc_request \<circ> snd) ?rs)"
    "trace c = xs" "map (\<lambda>x. (xenv x, xargs x)) xs = ?rs" "alone engine_New xs"
    using pipeline_answered [OF c0(1-4) _ fit d] c0(5,6) by auto
  have env: "map xenv (trace c) = [demo_env 0, demo_env 1]" using c(4,5) by auto
  have got: "got c = concat (map enc_request ?reqs)" using c(3) by simp
  have "sorted (map clock (map xenv (trace c)))" unfolding env by (simp add: demo_env_def)
  moreover have "zip (map xenv (trace c)) ?reqs = ?rs" unfolding env by simp
  moreover have "list_all (fits (climits demo_cfg)) ?reqs" using fit by simp
  ultimately have "wout (cw c) = concat (map enc_reply [Simple ''OK'', Bulk ''v''])"
    using client_served [OF c(1,2) got] c(4,6) served t by simp
  then show ?thesis using c(1,2) got by (intro exI [of _ c]) simp
qed

text \<open>
  C30: between two reads the handler always comes to rest. Whatever it has buffered and whatever the
  engine answers, after at most five steps per buffered byte (and five more) it waits for the client,
  for the log, or is gone: no input makes it loop.
\<close>

theorem handler_settles:
  assumes "5 * length (input (src (crd c))) + 5 \<le> length ves"
  shows "cpc (run_alone cfg ves c) \<in> {AwaitRead, Stuck, Closed}"
proof (rule run_settles)
  show "work c \<le> length ves" using assms by (simp add: work_def Let_def split: conn_pc.split)
qed

theorem handler_settles_witness:
  "cpc (run_alone demo_cfg (replicate 5 (demo_env 0, engine_New)) (handleConn demo_cfg (Some 3))) \<in> {AwaitRead, Stuck, Closed}"
  by (rule handler_settles) (simp add: handleConn_def NewReader_def)

text \<open>
  C31: the shutdown's wake-up of a waiting handler can be lost. A handler that has seen no shutdown and
  is about to set its read deadline overwrites the deadline the shutdown has just set, and then waits
  for its client although the shutdown has begun and has sent its only wake-up.
\<close>

theorem wake_up_can_be_lost:
  "\<exists>c. conn_reachable cfg acc c \<and> draining c \<and> nudge_sent c \<and> cpc c = AwaitRead \<and> \<not> nudged c"
proof -
  let ?c0 = "handleConn cfg acc"
  let ?c1 = "?c0\<lparr>cpc := Arming\<rparr>" let ?c2 = "?c1\<lparr>draining := True\<rparr>"
  let ?c3 = "?c2\<lparr>nudged := True, nudge_sent := True\<rparr>"
  have "serve_step cfg undefined undefined ?c0 = ?c1" by (simp add: serve_step_def handleConn_def)
  then have "conn_reachable cfg acc ?c1"
    using conn_reachable.step [OF conn_reachable.start conn_step.own [of ?c0 cfg undefined undefined]] by (simp add: handleConn_def)
  then have "conn_reachable cfg acc ?c2" by (rule conn_reachable.step [OF _ conn_step.drain])
  then have "conn_reachable cfg acc ?c3"
    by (rule conn_reachable.step [OF _ conn_step.nudge]) (simp_all add: handleConn_def)
  then have "conn_reachable cfg acc (run_alone cfg [(undefined, undefined), (undefined, undefined)] ?c3)" by (rule run_reachable)
  moreover have "ReadCommand (NewReader (open_stream []) (climits cfg)) = Inl (end_err pending)"
    by (rule ReadCommand_Inl) (simp add: NewReader_def parse_command_def readLine_def pending_def)
  ultimately show ?thesis
    by (intro exI [of _ "run_alone cfg [(undefined, undefined), (undefined, undefined)] ?c3"])
      (simp add: serve_step_def handleConn_def NewReader_def flushBeforeRead_Read_def flusher_flush_def writer_Buffered_def NewWriter_def)
qed

end
