(* ===== verification/Server_Clients.thy ===== *)
theory Server_Clients
  imports Server_Session
begin

text \<open>
  The connections together: any number of handlers of \<^verbatim>\<open>internal/server/conn.go\<close> over one engine without a
  log, with the sweeps of the expiration worker and the shutdown between their steps. The engine's lock
  puts the requests of all clients in one order, and this order explains every reply.
\<close>

section \<open>Handlers over one engine\<close>

text \<open>What happened to the engine, in the order of its lock: a request of client \<open>i\<close>, or the drain.\<close>

datatype event = Client nat exchange | Drain

record clients =
  shared :: engine
  conns :: "nat \<Rightarrow> conn"
  order :: "event list"
  read_at :: time

definition clients_New :: "conn_cfg \<Rightarrow> (nat \<Rightarrow> nat option) \<Rightarrow> time \<Rightarrow> clients" where
  "clients_New cfg accs now =
     \<lparr>shared = engine_New, conns = (\<lambda>i. handleConn cfg (accs i)), order = [], read_at = now\<rparr>"

text \<open>The engine after a step of a handler: only a decoded request reaches it.\<close>

definition engine_after :: "env \<Rightarrow> engine \<Rightarrow> conn \<Rightarrow> engine" where
  "engine_after v e c =
     (if cpc c = Decoding then
        (case ReadCommand (crd c) of
           Inr (args, _) \<Rightarrow> fst (Dispatch Registry_New v e args)
         | Inl _ \<Rightarrow> e)
      else e)"

definition serve_client :: "conn_cfg \<Rightarrow> env \<Rightarrow> nat \<Rightarrow> clients \<Rightarrow> clients" where
  "serve_client cfg v i m =
     (let c = conns m i; c' = serve_step cfg v (shared m) c in
      m\<lparr>shared := engine_after v (shared m) c, conns := (conns m)(i := c'),
        order := order m @ map (Client i) (drop (length (trace c)) (trace c')), read_at := clock v\<rparr>)"

text \<open>
  The handlers move one at a time and the clock does not run backwards. A client's socket returns, the
  worker sweeps, the server begins to drain, the engine refuses mutations from then on, and read
  deadlines move to the present.
\<close>

inductive clients_step :: "conn_cfg \<Rightarrow> clients \<Rightarrow> clients \<Rightarrow> bool" for cfg where
  serves: "cpc (conns m i) \<in> {AtTop, Arming, Decoding, AtFlush} \<Longrightarrow> read_at m \<le> clock v \<Longrightarrow> fair_ranger (key_order v) \<Longrightarrow>
    clients_step cfg m (serve_client cfg v i m)"
| reads: "cpc (conns m i) = AwaitRead \<Longrightarrow> conn_step cfg (conns m i) c \<Longrightarrow>
    clients_step cfg m (m\<lparr>conns := (conns m)(i := c)\<rparr>)"
| sweeps: "fair_ranger rng \<Longrightarrow> read_at m \<le> now \<Longrightarrow>
    clients_step cfg m (m\<lparr>shared := fst (reclaimOnce rng (shared m) now), read_at := now\<rparr>)"
| shuts: "clients_step cfg m (m\<lparr>conns := (\<lambda>i. (conns m i)\<lparr>draining := True\<rparr>)\<rparr>)"
| drains: "clients_step cfg m (m\<lparr>shared := BeginDrain (shared m), order := order m @ [Drain]\<rparr>)"
| nudges: "draining (conns m i) \<Longrightarrow> \<not> nudge_sent (conns m i) \<Longrightarrow>
    clients_step cfg m (m\<lparr>conns := (conns m)(i := (conns m i)\<lparr>nudged := True, nudge_sent := True\<rparr>)\<rparr>)"

inductive clients_reachable :: "conn_cfg \<Rightarrow> (nat \<Rightarrow> nat option) \<Rightarrow> clients \<Rightarrow> bool" for cfg accs where
  fresh: "clients_reachable cfg accs (clients_New cfg accs now)"
| moved: "clients_reachable cfg accs m \<Longrightarrow> clients_step cfg m m' \<Longrightarrow> clients_reachable cfg accs m'"

section \<open>One order for all clients\<close>

fun exchanges_of :: "nat \<Rightarrow> event list \<Rightarrow> exchange list" where
  "exchanges_of i [] = []"
| "exchanges_of i (Client j x # es) = (if j = i then x # exchanges_of i es else exchanges_of i es)"
| "exchanges_of i (Drain # es) = exchanges_of i es"

text \<open>The table after an event, and whether the reply of the event is the one the table gives.\<close>

fun table_after :: "bool \<times> table \<Rightarrow> event \<Rightarrow> bool \<times> table" where
  "table_after s (Client i x) = fst (table_reply (clock (xenv x)) s (request_of (xargs x)))"
| "table_after s Drain = (False, snd s)"

fun as_table :: "bool \<times> table \<Rightarrow> event \<Rightarrow> bool" where
  "as_table s (Client i x) \<longleftrightarrow>
     no_page (request_of (xargs x)) \<longrightarrow> xreply x = snd (table_reply (clock (xenv x)) s (request_of (xargs x)))"
| "as_table s Drain \<longleftrightarrow> True"

fun explains :: "bool \<times> table \<Rightarrow> event list \<Rightarrow> bool" where
  "explains s [] \<longleftrightarrow> True"
| "explains s (ev # es) \<longleftrightarrow> as_table s ev \<and> explains (table_after s ev) es"

lemma explains_append: "explains s (es @ fs) \<longleftrightarrow> explains s es \<and> explains (foldl table_after s es) fs"
  by (induction es arbitrary: s) auto

lemma exchanges_of_append [simp]: "exchanges_of i (es @ fs) = exchanges_of i es @ exchanges_of i fs"
  by (induction es rule: exchanges_of.induct) auto

lemma exchanges_of_client [simp]: "exchanges_of i (map (Client j) xs) = (if i = j then xs else [])"
  by (induction xs) auto

text \<open>A page of a scan changes neither the store nor the gates of the engine.\<close>

lemma perform_page:
  assumes "\<not> no_page q" "perform v e q = (e', out)"
  shows "estore e' = estore e" "elog e' = elog e" "acceptingMutations e' = acceptingMutations e"
  using assms by (cases q; force simp: perform_def elim!: engine_Scan_cases split: option.splits sum.splits prod.splits)+

definition mirrors :: "time \<Rightarrow> engine \<Rightarrow> bool \<times> table \<Rightarrow> bool" where
  "mirrors now e s \<longleftrightarrow> agrees now (estore e) (snd s) \<and> elog e = None \<and> acceptingMutations e = fst s"

lemma dispatch_mirrors:
  assumes "mirrors now e s" "now \<le> clock v" "fair_ranger (key_order v)" "Dispatch Registry_New v e args = (e', out)"
    and "table_reply (clock v) s (request_of args) = (s', r)"
  shows "mirrors (clock v) e' s'" "no_page (request_of args) \<Longrightarrow> out = Replied r" "\<not> no_page (request_of args) \<Longrightarrow> s' = s"
proof -
  obtain acc m acc' m' where s: "s = (acc, m)" "s' = (acc', m')" by fastforce
  have e: "agrees (clock v) (estore e) m" "elog e = None" "acceptingMutations e = acc"
    using assms(1,2) s by (auto simp: mirrors_def intro: agrees_later)
  have p: "perform v e (request_of args) = (e', out)" using assms(4) by (simp add: Dispatch_perform)
  show page: "s' = s" if "\<not> no_page (request_of args)" using that assms(5) by (cases "request_of args") auto
  have "mirrors (clock v) e' s' \<and> out = Replied r" if n: "no_page (request_of args)"
    using perform_served [OF e(1,2) assms(3) n request_typed] assms(5) p e(3) s by (auto simp: mirrors_def)
  moreover have "mirrors (clock v) e' s'" if n: "\<not> no_page (request_of args)"
    using perform_page [OF n p] page [OF n] e s by (simp add: mirrors_def)
  ultimately show "mirrors (clock v) e' s'" "no_page (request_of args) \<Longrightarrow> out = Replied r" by blast+
qed

text \<open>A step of a handler: the exchange it adds, if any, and the engine it leaves.\<close>

lemma request_trace:
  "trace (serve_request cfg v e args c) = trace c @
     (case Dispatch Registry_New v e args of
        (e', Replied r) \<Rightarrow> [\<lparr>xenv = v, xpre = e, xargs = args, xpost = e', xreply = r\<rparr>]
      | _ \<Rightarrow> [])"
proof -
  obtain e' out where d: "Dispatch Registry_New v e args = (e', out)" by fastforce
  show ?thesis
  proof (cases out)
    case (Replied r)
    obtain w ok where w: "writeReply r (cw c) = (w, ok)" by fastforce
    let ?x = "\<lparr>xenv = v, xpre = e, xargs = args, xpost = e', xreply = r\<rparr>"
    obtain c2 ok2 where f: "flusher_flush (c\<lparr>trace := trace c @ [?x], cw := w\<rparr>) = (c2, ok2)" by fastforce
    then have "trace c2 = trace c @ [?x]" using flush_keeps(2) [of "c\<lparr>trace := trace c @ [?x], cw := w\<rparr>"] by simp
    then show ?thesis using d Replied w f by (simp add: serve_request_def flusher_fail_def Let_def)
  qed (simp_all add: d serve_request_def)
qed

lemma serve_step_cases:
  obtains (quiet) "trace (serve_step cfg v e c) = trace c" "engine_after v e c = e"
  | (unanswered) args out where "Dispatch Registry_New v e args = (engine_after v e c, out)" "\<forall>r. out \<noteq> Replied r"
      "trace (serve_step cfg v e c) = trace c"
  | (answered) args r where "Dispatch Registry_New v e args = (engine_after v e c, Replied r)"
      "trace (serve_step cfg v e c) = trace c @ [\<lparr>xenv = v, xpre = e, xargs = args, xpost = engine_after v e c, xreply = r\<rparr>]"
proof (cases "cpc c = Decoding")
  case dec: True
  show thesis
  proof (cases "ReadCommand (crd c)")
    case (Inl err)
    then show thesis using dec by (intro quiet) (simp_all add: serve_step_def engine_after_def read_keeps report_keeps)
  next
    case (Inr a)
    obtain args rd where a: "ReadCommand (crd c) = Inr (args, rd)" using Inr by (cases a) simp
    obtain e' out where d: "Dispatch Registry_New v e args = (e', out)" by fastforce
    have e: "engine_after v e c = e'" using dec a d by (simp add: engine_after_def)
    have t: "trace (serve_step cfg v e c) = trace (serve_request cfg v e args (c\<lparr>crd := rd\<rparr>))"
      using dec a by (simp add: serve_step_def)
    show thesis
    proof (cases out)
      case (Replied r)
      with d e t show thesis by (intro answered [of args r]) (simp_all add: request_trace)
    qed (use d e t in \<open>auto intro!: unanswered simp: request_trace\<close>)
  qed
next
  case False
  then show thesis by (intro quiet) (simp_all add: serve_step_def engine_after_def flush_keeps split: conn_pc.split)
qed

text \<open>
  The invariant: the engine holds what the table holds after the events so far, their replies are the
  table's, and each handler is a reachable connection that ran its own events.
\<close>

definition fresh_table :: "bool \<times> table" where
  "fresh_table = (True, \<lambda>_. None)"

definition order_inv :: "conn_cfg \<Rightarrow> (nat \<Rightarrow> nat option) \<Rightarrow> clients \<Rightarrow> bool" where
  "order_inv cfg accs m \<longleftrightarrow>
     mirrors (read_at m) (shared m) (foldl table_after fresh_table (order m)) \<and> explains fresh_table (order m)
     \<and> (\<forall>i. conn_reachable cfg (accs i) (conns m i) \<and> trace (conns m i) = exchanges_of i (order m))"

lemma order_inv_fresh: "order_inv cfg accs (clients_New cfg accs now)"
proof -
  have "trace (handleConn cfg acc) = []" for acc by (simp add: handleConn_def)
  then show ?thesis
    by (simp add: order_inv_def clients_New_def mirrors_def fresh_table_def engine_New_def agrees_New conn_reachable.start)
qed

lemma order_inv_serve:
  assumes inv: "order_inv cfg accs m" and pc: "cpc (conns m i) \<in> {AtTop, Arming, Decoding, AtFlush}"
    and now: "read_at m \<le> clock v" and fair: "fair_ranger (key_order v)"
  shows "order_inv cfg accs (serve_client cfg v i m)"
proof -
  let ?c = "conns m i" and ?e = "shared m" and ?s = "foldl table_after fresh_table (order m)"
  let ?c' = "serve_step cfg v ?e ?c"
  have m: "mirrors (read_at m) ?e ?s" "explains fresh_table (order m)" "\<And>j. conn_reachable cfg (accs j) (conns m j)"
    "\<And>j. trace (conns m j) = exchanges_of j (order m)"
    using inv by (simp_all add: order_inv_def)
  have r: "conn_reachable cfg (accs i) ?c'" using m(3) [of i] pc by (intro conn_reachable.step [OF _ conn_step.own])
  note dm = dispatch_mirrors [OF m(1) now fair]
  show ?thesis
  proof (cases rule: serve_step_cases [of cfg v ?e ?c])
    case quiet
    then show ?thesis
      using m r now by (auto simp: order_inv_def serve_client_def Let_def mirrors_def intro: agrees_later)
  next
    case (unanswered args out)
    obtain s' rep where t: "table_reply (clock v) ?s (request_of args) = (s', rep)" by fastforce
    have "\<not> no_page (request_of args)" using dm(2) [OF unanswered(1) t] unanswered(2) by blast
    then have "mirrors (clock v) (engine_after v ?e ?c) ?s"
      using dm(1,3) [OF unanswered(1) t] by simp
    then show ?thesis using unanswered m r by (auto simp: order_inv_def serve_client_def Let_def)
  next
    case (answered args rep)
    obtain s' rep' where t: "table_reply (clock v) ?s (request_of args) = (s', rep')" by fastforce
    have "mirrors (clock v) (engine_after v ?e ?c) s'" "no_page (request_of args) \<Longrightarrow> rep = rep'"
      using dm(1,2) [OF answered(1) t] by auto
    then show ?thesis
      using answered m r t by (auto simp: order_inv_def serve_client_def Let_def explains_append)
  qed
qed

lemma order_inv_step:
  assumes "clients_step cfg m m'" "order_inv cfg accs m"
  shows "order_inv cfg accs m'"
  using assms(1)
proof cases
  case (serves i v)
  then show ?thesis using order_inv_serve [OF assms(2)] by simp
next
  case (reads i c)
  have "trace c = trace (conns m i)" using reads(3,2) by cases (simp_all add: set_ending_def)
  then show ?thesis
    using assms(2) reads by (auto simp: order_inv_def intro: conn_reachable.step)
next
  case (sweeps rng now)
  let ?s = "foldl table_after fresh_table (order m)"
  have "agrees now (estore (shared m)) (snd ?s)"
    using assms(2) sweeps(3) by (auto simp: order_inv_def mirrors_def intro: agrees_later)
  then have "mirrors now (fst (reclaimOnce rng (shared m) now)) ?s"
    using assms(2) agrees_Reclaim [of now _ _ rng expirationSample]
    by (force simp: order_inv_def mirrors_def reclaimOnce_def split: prod.split)
  then show ?thesis using assms(2) sweeps(1) by (simp add: order_inv_def)
next
  case shuts
  then show ?thesis using assms(2) by (auto simp: order_inv_def intro: conn_reachable.step conn_step.drain)
next
  case drains
  then show ?thesis
    using assms(2) by (auto simp: order_inv_def mirrors_def BeginDrain_def explains_append)
next
  case (nudges i)
  then show ?thesis using assms(2) by (auto simp: order_inv_def intro: conn_reachable.step conn_step.nudge)
qed

lemma order_inv_reachable: "clients_reachable cfg accs m \<Longrightarrow> order_inv cfg accs m"
  by (induction rule: clients_reachable.induct) (auto intro: order_inv_fresh order_inv_step)

text \<open>
  C2: all clients together see one server. However the handlers, the sweeps and the shutdown interleave,
  there is one order of the requests of all clients in which a plain table of entries gives every reply
  (the pages of a scan apart, which leave the table as it is); each handler has run its own requests in
  that order, and a client whose handler waits has sent exactly these and has received their encoded replies.
\<close>

theorem clients_serialised:
  assumes "clients_reachable cfg accs m"
  shows "explains (True, \<lambda>_. None) (order m) \<and> (\<forall>i. trace (conns m i) = exchanges_of i (order m))
    \<and> (\<forall>i. cpc (conns m i) = AwaitRead \<longrightarrow>
          map xargs (exchanges_of i (order m)) = frames (climits cfg) (got (conns m i))
        \<and> wout (cw (conns m i)) = concat (map (enc_reply \<circ> xreply) (exchanges_of i (order m))))"
proof -
  have "explains (True, \<lambda>_. None) (order m)" "\<And>i. conn_reachable cfg (accs i) (conns m i)"
    "\<And>i. trace (conns m i) = exchanges_of i (order m)"
    using order_inv_reachable [OF assms] by (simp_all add: order_inv_def fresh_table_def)
  then show ?thesis using waits_answered by (metis (no_types, lifting))
qed

text \<open>A run of two clients: a handler comes to wait, and a handler that waits answers a request.\<close>

definition waits :: "conn \<Rightarrow> bool" where
  "waits c \<longleftrightarrow> cpc c = AwaitRead \<and> \<not> draining c \<and> src (crd c) = open_stream []"

definition others_kept :: "nat \<Rightarrow> clients \<Rightarrow> clients \<Rightarrow> bool" where
  "others_kept i m m' \<longleftrightarrow> (\<forall>j. j \<noteq> i \<longrightarrow> conns m' j = conns m j)"

lemma serve_reachable:
  "clients_reachable cfg accs m \<Longrightarrow> cpc (conns m i) \<in> {AtTop, Arming, Decoding, AtFlush} \<Longrightarrow> read_at m \<le> clock v \<Longrightarrow>
    fair_ranger (key_order v) \<Longrightarrow> clients_reachable cfg accs (serve_client cfg v i m)"
  by (rule clients_reachable.moved [OF _ clients_step.serves])

lemma client_settles:
  assumes "clients_reachable cfg accs m" "accs i = None" "cpc (conns m i) = AtTop" "\<not> draining (conns m i)"
    and "src (crd (conns m i)) = open_stream []" "read_at m \<le> clock (v :: env)" "fair_ranger (key_order v)"
  shows "\<exists>m'. clients_reachable cfg accs m' \<and> shared m' = shared m \<and> order m' = order m \<and> read_at m' = clock v
    \<and> others_kept i m m' \<and> waits (conns m' i) \<and> got (conns m' i) = got (conns m i)"
proof -
  let ?m1 = "serve_client cfg v i m" let ?m2 = "serve_client cfg v i ?m1" let ?m3 = "serve_client cfg v i ?m2"
  let ?c = "(conns m i)\<lparr>nudged := False, cpc := Decoding\<rparr>"
  have m1: "?m1 = m\<lparr>conns := (conns m)(i := (conns m i)\<lparr>cpc := Arming\<rparr>), read_at := clock v\<rparr>"
    using assms(3,4) by (simp add: serve_client_def serve_step_def engine_after_def)
  have m2: "?m2 = m\<lparr>conns := (conns m)(i := ?c), read_at := clock v\<rparr>"
    unfolding m1 by (simp add: serve_client_def serve_step_def engine_after_def)
  have r1: "clients_reachable cfg accs ?m1" using assms by (intro serve_reachable) auto
  have r2: "clients_reachable cfg accs ?m2" by (rule serve_reachable [OF r1]) (use assms in \<open>simp_all add: m1\<close>)
  have r3: "clients_reachable cfg accs ?m3" by (rule serve_reachable [OF r2]) (use assms in \<open>simp_all add: m2\<close>)
  have "conn_reachable cfg (accs i) (conns ?m2 i)" using order_inv_reachable [OF r2] by (simp add: order_inv_def)
  then have i: "conn_inv cfg None ?c" using assms(2) inv_reachable unfolding m2 by fastforce
  note w = drained_waits [OF i, of v "shared m"]
  have "ReadCommand (crd ?c) = Inl (end_err pending)"
    using assms(5) by (intro ReadCommand_Inl) (simp add: parse_command_def readLine_def pending_def)
  then have "engine_after v (shared m) ?c = shared m" by (simp add: engine_after_def)
  then have m3: "?m3 = m\<lparr>conns := (conns m)(i := serve_step cfg v (shared m) ?c), read_at := clock v\<rparr>"
    unfolding m2 using w(2) assms(5) by (simp add: serve_client_def)
  then show ?thesis
    using r3 w assms(4,5) by (intro exI [of _ ?m3]) (simp add: waits_def others_kept_def)
qed

lemma client_answered:
  assumes "clients_reachable cfg accs m" "accs i = None" "waits (conns m i)" "fits (climits cfg) args"
    and "read_at m \<le> clock v" "fair_ranger (key_order v)" "Dispatch Registry_New v (shared m) args = (e', Replied r)"
  shows "\<exists>m'. clients_reachable cfg accs m' \<and> shared m' = e' \<and> read_at m' = clock v \<and> others_kept i m m' \<and> waits (conns m' i)
    \<and> order m' = order m @ [Client i \<lparr>xenv = v, xpre = shared m, xargs = args, xpost = e', xreply = r\<rparr>]
    \<and> got (conns m' i) = got (conns m i) @ enc_request args"
proof -
  let ?c = "sends (conns m i) (enc_request args)"
  let ?x = "\<lparr>xenv = v, xpre = shared m, xargs = args, xpost = e', xreply = r\<rparr>"
  let ?m1 = "m\<lparr>conns := (conns m)(i := ?c)\<rparr>" let ?m2 = "serve_client cfg v i ?m1"
  have w: "cpc (conns m i) = AwaitRead" "\<not> draining (conns m i)" "src (crd (conns m i)) = open_stream []"
    using assms(3) by (simp_all add: waits_def)
  have "enc_request args \<noteq> []" by (simp add: enc_request_def enc_array_def)
  then have r1: "clients_reachable cfg accs ?m1"
    unfolding sends_def by (intro clients_reachable.moved [OF assms(1) clients_step.reads [OF w(1) conn_step.arrive [OF w(1)]]])
  have "conn_reachable cfg (accs i) (conns ?m1 i)" using order_inv_reachable [OF r1] unfolding order_inv_def by blast
  then have inv: "conn_inv cfg None ?c" using assms(2) inv_reachable by fastforce
  then have "rlimits (crd ?c) = climits cfg" by (simp add: conn_inv_def)
  then obtain rd where rd: "ReadCommand (crd ?c) = Inr (args, rd)" "src rd = open_stream []"
    using ReadCommand_Inr [of "crd ?c" args] parse_command_enc [of "climits cfg" args "[]"] assms(4) w(3) by auto
  obtain cw' f where s: "serve_step cfg v (shared m) ?c = ?c\<lparr>crd := rd, trace := trace ?c @ [?x], cw := cw', ffailed := f, cpc := AtTop\<rparr>"
    using request_replied [OF inv _ assms(7), of rd] rd(1) by (auto simp: serve_step_def)
  have m2: "?m2 = m\<lparr>shared := e', conns := (conns m)(i := ?c\<lparr>crd := rd, trace := trace ?c @ [?x], cw := cw', ffailed := f, cpc := AtTop\<rparr>),
      order := order m @ [Client i ?x], read_at := clock v\<rparr>"
    using s rd(1) assms(7) by (simp add: serve_client_def engine_after_def)
  have r2: "clients_reachable cfg accs ?m2" by (rule serve_reachable [OF r1]) (use assms in simp_all)
  obtain m' where "clients_reachable cfg accs m'" "shared m' = shared ?m2" "order m' = order ?m2" "read_at m' = clock v"
    "others_kept i ?m2 m'" "waits (conns m' i)" "got (conns m' i) = got (conns ?m2 i)"
    using client_settles [OF r2 assms(2), of v] assms(6) w(2) rd(2) unfolding m2 by auto
  then show ?thesis unfolding m2 by (intro exI [of _ m']) (simp add: others_kept_def)
qed

theorem clients_serialised_witness:
  "\<exists>m. clients_reachable demo_cfg (\<lambda>_. None) m \<and> cpc (conns m 0) = AwaitRead \<and> cpc (conns m 1) = AwaitRead
     \<and> got (conns m 0) = enc_request [''SET'', ''k'', ''v''] \<and> wout (cw (conns m 0)) = enc_reply (Simple ''OK'')
     \<and> got (conns m 1) = enc_request [''GET'', ''k''] \<and> wout (cw (conns m 1)) = enc_reply (Bulk ''v'')"
proof -
  let ?accs = "\<lambda>_ :: nat. None :: nat option" and ?set = "[''SET'', ''k'', ''v'']" and ?get = "[''GET'', ''k'']"
  have q: "request_of ?set = ask (ESet ''k'' ''v'' NoExpiry)" "request_of ?get = ask (EGet ''k'')"
    by (simp_all add: request_of_def parseSetOptions_def parse_opts.simps upper_byte_def char_of_def bit_0)
  have fair: "fair_ranger (key_order (demo_env t))" "clock (demo_env t) = t" for t
    by (simp_all add: demo_env_def fair_sorted_list_of_fset)
  have "list_all served_in [(demo_env 0, ?set), (demo_env 0, ?get)]" by (simp add: served_in_def fair q)
  from dispatch_run_fresh [OF _ this]
  have run: "dispatch_run engine_New [(demo_env 0, ?set), (demo_env 0, ?get)] = [Replied (Simple ''OK''), Replied (Bulk ''v'')]"
    by (simp add: fair q seen_def spec_expiry_def NoExpiry_def or_error_def)
  then obtain e1 e2 where d: "Dispatch Registry_New (demo_env 0) engine_New ?set = (e1, Replied (Simple ''OK''))"
    "Dispatch Registry_New (demo_env 0) e1 ?get = (e2, Replied (Bulk ''v''))"
    by (auto split: prod.splits)
  have fit: "fits (climits demo_cfg) ?set" "fits (climits demo_cfg) ?get" using fits_small by (simp_all add: demo_cfg_def)
  define m0 where "m0 = clients_New demo_cfg ?accs 0"
  have m0: "clients_reachable demo_cfg ?accs m0" "read_at m0 = 0" "shared m0 = engine_New" "order m0 = []"
    unfolding m0_def by (rule clients_reachable.fresh) (simp_all add: clients_New_def)
  have c0: "cpc (conns m0 i) = AtTop" "\<not> draining (conns m0 i)" "src (crd (conns m0 i)) = open_stream []" "got (conns m0 i) = []" for i
    by (simp_all add: m0_def clients_New_def handleConn_def NewReader_def)
  obtain m1 where m1: "clients_reachable demo_cfg ?accs m1" "shared m1 = engine_New" "order m1 = []" "read_at m1 = 0"
    "others_kept 0 m0 m1" "waits (conns m1 0)" "got (conns m1 0) = []"
    using client_settles [OF m0(1) refl c0(1,2,3), of "demo_env 0" 0] m0 c0 fair by auto
  have c1: "conns m1 1 = conns m0 1" using m1(5) by (simp add: others_kept_def)
  obtain m2 where m2: "clients_reachable demo_cfg ?accs m2" "shared m2 = engine_New" "order m2 = []" "read_at m2 = 0"
    "others_kept 1 m1 m2" "waits (conns m2 1)" "got (conns m2 1) = []"
    using client_settles [OF m1(1), of 1 "demo_env 0"] m1 c0 [of 1] c1 fair by auto
  have w2: "waits (conns m2 0)" "got (conns m2 0) = []" using m2(5) m1(6,7) by (simp_all add: others_kept_def)
  obtain m3 where m3: "clients_reachable demo_cfg ?accs m3" "shared m3 = e1" "read_at m3 = 0" "others_kept 0 m2 m3"
    "waits (conns m3 0)" "order m3 = [Client 0 \<lparr>xenv = demo_env 0, xpre = engine_New, xargs = ?set, xpost = e1, xreply = Simple ''OK''\<rparr>]"
    "got (conns m3 0) = enc_request ?set"
    using client_answered [OF m2(1) refl w2(1) fit(1), of "demo_env 0" e1] m2 w2 d(1) fair by auto
  have w3: "waits (conns m3 1)" "got (conns m3 1) = []" using m3(4) m2(6,7) by (simp_all add: others_kept_def)
  obtain m4 where m4: "clients_reachable demo_cfg ?accs m4" "others_kept 1 m3 m4" "waits (conns m4 1)"
    "order m4 = order m3 @ [Client 1 \<lparr>xenv = demo_env 0, xpre = e1, xargs = ?get, xpost = e2, xreply = Bulk ''v''\<rparr>]"
    "got (conns m4 1) = enc_request ?get"
    using client_answered [OF m3(1) refl w3(1) fit(2), of "demo_env 0" e2] m3 w3 d(2) fair by auto
  have w4: "waits (conns m4 0)" "got (conns m4 0) = enc_request ?set" using m4(2) m3(5,7) by (simp_all add: others_kept_def)
  have "wout (cw (conns m4 0)) = enc_reply (Simple ''OK'')" "wout (cw (conns m4 1)) = enc_reply (Bulk ''v'')"
    using clients_serialised [OF m4(1)] m4(3,4) w4(1) m3(6) by (auto simp: waits_def)
  then show ?thesis using m4(1,3,5) w4 by (intro exI [of _ m4]) (simp add: waits_def)
qed

end
