(* ===== verification/Aof_Durability.thy ===== *)
theory Aof_Durability
  imports Aof_Log
begin

text \<open>
  The writer goroutine (\<^verbatim>\<open>run\<close> in \<^verbatim>\<open>internal/aof/log.go\<close>) interleaved with the clients of the
  log. The steps are the critical sections and the I/O between them: an append may fall between
  any two steps of the writer. The invariant relates the markers to the bytes in the file; the
  properties are what an acknowledgement means, that no wake-up is lost and that a clean close
  loses nothing.
\<close>

section \<open>The system\<close>

text \<open>
  Where the writer is: in its \<^verbatim>\<open>select\<close>, in the parts of \<^verbatim>\<open>flush\<close>, in \<^verbatim>\<open>finish\<close>, at the end of a turn
  of its loop, or returned. The flags are \<^verbatim>\<open>forceSync\<close> and whether this is the flush of \<^verbatim>\<open>closeCh\<close>.
\<close>

datatype wpc =
    WIdle
  | WBegin bool bool
  | WWrite bytes "(nat \<times> nat) list" bool bool
  | WWrote "(nat \<times> nat) list" int "string option" bool bool
  | WFail string bool
  | WSync bool
  | WSynced bool
  | WFinish
  | WLoop
  | WDone

text \<open>\<open>hist\<close> are the records accepted by \<^verbatim>\<open>Append\<close> so far, in order; no step reads it.\<close>

record 'f sys =
  slog :: log
  sfile :: 'f
  spc :: wpc
  lastSync :: time
  hist :: "aof_record list"

definition syncInterval :: duration where
  "syncInterval = nsPerSec"

definition flush_return :: "bool \<Rightarrow> wpc" where
  "flush_return fin = (if fin then WFinish else WLoop)"

definition sync_or_return :: "log \<Rightarrow> bool \<Rightarrow> bool \<Rightarrow> wpc" where
  "sync_or_return l forceSync fin =
     (if \<not> forceSync \<and> lpolicy l \<noteq> Always then flush_return fin else WSync fin)"

fun writer_step :: "'f write_fn \<Rightarrow> 'f sync_fn \<Rightarrow> 'f sys \<Rightarrow> 'f sys" where
  "writer_step Write Sync s =
     (case spc s of
        WBegin force fin \<Rightarrow>
          if failed (slog s) \<noteq> None then s\<lparr>spc := flush_return fin\<rparr>
          else let (l1, batch, recs) = swap_batch (slog s) in s\<lparr>slog := l1, spc := WWrite batch recs force fin\<rparr>
      | WWrite batch recs force fin \<Rightarrow>
          if batch \<noteq> [] then
            (case writeFull Write (sfile s) batch 0 of
               (f', n, err) \<Rightarrow> s\<lparr>sfile := f', spc := WWrote recs n err force fin\<rparr>)
          else s\<lparr>spc := sync_or_return (slog s) force fin\<rparr>
      | WWrote recs n err force fin \<Rightarrow>
          (let l' = advanceWritten (slog s) recs n in
           s\<lparr>slog := l', spc := (case err of Some m \<Rightarrow> WFail m fin | None \<Rightarrow> sync_or_return l' force fin)\<rparr>)
      | WFail m fin \<Rightarrow> s\<lparr>slog := log_fail (slog s) m, spc := flush_return fin\<rparr>
      | WSync fin \<Rightarrow>
          (case Sync (sfile s) of
             (f', Some m) \<Rightarrow> s\<lparr>sfile := f', spc := WFail m fin\<rparr>
           | (f', None) \<Rightarrow> s\<lparr>sfile := f', spc := WSynced fin\<rparr>)
      | WSynced fin \<Rightarrow> s\<lparr>slog := advanceSynced (slog s), spc := flush_return fin\<rparr>
      | WFinish \<Rightarrow> s\<lparr>slog := log_finish (slog s), spc := WDone\<rparr>
      | _ \<Rightarrow> s)"

declare writer_step.simps [simp del]

text \<open>The records the engine builds.\<close>

definition derived :: "aof_record \<Rightarrow> bool" where
  "derived r \<longleftrightarrow> (\<exists>k v d h. r = DeriveSet k v d h) \<or> (\<exists>ks. r = DeriveDel ks)"

definition sys_append :: "'f sys \<Rightarrow> aof_record \<Rightarrow> 'f sys" where
  "sys_append s r =
     (case log_Append (slog s) r of
        (l', Inl e) \<Rightarrow> s\<lparr>slog := l'\<rparr>
      | (l', Inr seq) \<Rightarrow> s\<lparr>slog := l', hist := hist s @ [r]\<rparr>)"

inductive sys_step :: "'f write_fn \<Rightarrow> 'f sync_fn \<Rightarrow> 'f sys \<Rightarrow> 'f sys \<Rightarrow> bool" for Write Sync where
  client_append: "derived r \<Longrightarrow> sys_step Write Sync s (sys_append s r)"
| client_close: "sys_step Write Sync s (s\<lparr>slog := close_mark (slog s)\<rparr>)"
| client_signal: "closing (slog s) \<Longrightarrow> sys_step Write Sync s (s\<lparr>slog := close_signal (slog s)\<rparr>)"
| run_notify: "spc s = WIdle \<Longrightarrow> notified (slog s) \<Longrightarrow>
    sys_step Write Sync s (s\<lparr>slog := (slog s)\<lparr>notified := False\<rparr>, spc := WBegin False False\<rparr>)"
| run_tick: "spc s = WIdle \<Longrightarrow> time_Sub now (lastSync s) \<ge> syncInterval \<Longrightarrow>
    sys_step Write Sync s (s\<lparr>spc := WBegin True False, lastSync := now\<rparr>)"
| run_early_tick: "spc s = WIdle \<Longrightarrow> time_Sub now (lastSync s) < syncInterval \<Longrightarrow>
    sys_step Write Sync s (s\<lparr>spc := WLoop\<rparr>)"
| run_close: "spc s = WIdle \<Longrightarrow> closeCh (slog s) \<Longrightarrow> sys_step Write Sync s (s\<lparr>spc := WBegin True True\<rparr>)"
| run_writer: "spc s \<notin> {WIdle, WLoop, WDone} \<Longrightarrow> sys_step Write Sync s (writer_step Write Sync s)"
| run_loop: "spc s = WLoop \<Longrightarrow>
    sys_step Write Sync s (s\<lparr>spc := WIdle, lastSync := (if lpolicy (slog s) = Always then now else lastSync s)\<rparr>)"

inductive sys_reachable :: "'f write_fn \<Rightarrow> 'f sync_fn \<Rightarrow> policy \<Rightarrow> 'f \<Rightarrow> 'f sys \<Rightarrow> bool" for Write Sync p f where
  opened: "sys_reachable Write Sync p f \<lparr>slog = log_Open p, sfile = f, spc = WIdle, lastSync = t, hist = []\<rparr>"
| stepped: "sys_reachable Write Sync p f s \<Longrightarrow> sys_step Write Sync s s' \<Longrightarrow> sys_reachable Write Sync p f s'"

section \<open>The invariant\<close>

definition taken :: "log \<Rightarrow> nat" where
  "taken l = appended l - length (lrecords l)"

text \<open>The records of the batch the writer is busy with.\<close>

definition in_flight :: "'f sys \<Rightarrow> aof_record list" where
  "in_flight s = drop (written_seq (slog s)) (take (taken (slog s)) (hist s))"

definition markers_inv :: "'f sys \<Rightarrow> bool" where
  "markers_inv s \<longleftrightarrow>
     (let l = slog s in
      appended l = length (hist s) \<and> nextSeq l = length (hist s) \<and> list_all canonical (hist s)
      \<and> length (lrecords l) \<le> length (hist s) \<and> synced l \<le> written_seq l \<and> written_seq l \<le> taken l)"

definition buffer_inv :: "'f sys \<Rightarrow> bool" where
  "buffer_inv s \<longleftrightarrow>
     (let l = slog s in
      wbuf (lw l) = [] \<and> \<not> wfail (lw l) \<and> accepts (lw l) = None
      \<and> lbuf l = enc_all (drop (taken l) (hist s)) \<and> lrecords l = pend (taken l) 0 (drop (taken l) (hist s)))"

text \<open>Everything taken from the buffer so far is in the file.\<close>

definition settled :: "('f \<Rightarrow> bytes) \<Rightarrow> bytes \<Rightarrow> 'f sys \<Rightarrow> bool" where
  "settled contents base s \<longleftrightarrow>
     written_seq (slog s) = taken (slog s)
     \<and> contents (sfile s) = base @ enc_all (take (written_seq (slog s)) (hist s))"

definition synced_inv :: "'f sys \<Rightarrow> bool" where
  "synced_inv s \<longleftrightarrow> (lpolicy (slog s) = Always \<longrightarrow> synced (slog s) = written_seq (slog s))"

fun pc_inv :: "('f \<Rightarrow> bytes) \<Rightarrow> ('f \<Rightarrow> bytes) \<Rightarrow> bytes \<Rightarrow> 'f sys \<Rightarrow> wpc \<Rightarrow> bool" where
  "pc_inv contents durable base s WIdle \<longleftrightarrow> settled contents base s \<and> synced_inv s"
| "pc_inv contents durable base s WLoop \<longleftrightarrow> settled contents base s \<and> synced_inv s"
| "pc_inv contents durable base s (WBegin force fin) \<longleftrightarrow>
     settled contents base s \<and> synced_inv s \<and> (fin \<longrightarrow> force)"
| "pc_inv contents durable base s (WWrite batch recs force fin) \<longleftrightarrow>
     batch = enc_all (in_flight s) \<and> recs = pend (written_seq (slog s)) 0 (in_flight s)
     \<and> contents (sfile s) = base @ enc_all (take (written_seq (slog s)) (hist s))
     \<and> (fin \<longrightarrow> force \<and> lrecords (slog s) = [])"
| "pc_inv contents durable base s (WWrote recs n err force fin) \<longleftrightarrow>
     recs = pend (written_seq (slog s)) 0 (in_flight s) \<and> 0 \<le> n \<and> n \<le> int (length (enc_all (in_flight s)))
     \<and> contents (sfile s) =
         base @ enc_all (take (written_seq (slog s)) (hist s)) @ take (nat n) (enc_all (in_flight s))
     \<and> (err = None \<longrightarrow> n = int (length (enc_all (in_flight s))))
     \<and> (fin \<longrightarrow> force \<and> lrecords (slog s) = [])"
| "pc_inv contents durable base s (WFail m fin) \<longleftrightarrow> True"
| "pc_inv contents durable base s (WSync fin) \<longleftrightarrow>
     settled contents base s \<and> (fin \<longrightarrow> lrecords (slog s) = [])"
| "pc_inv contents durable base s (WSynced fin) \<longleftrightarrow>
     settled contents base s \<and> (fin \<longrightarrow> lrecords (slog s) = [])
     \<and> prefix (base @ enc_all (take (written_seq (slog s)) (hist s))) (durable (sfile s))"
| "pc_inv contents durable base s WFinish \<longleftrightarrow>
     settled contents base s \<and> lrecords (slog s) = [] \<and> synced (slog s) = written_seq (slog s)"
| "pc_inv contents durable base s WDone \<longleftrightarrow>
     settled contents base s \<and> lrecords (slog s) = [] \<and> synced (slog s) = written_seq (slog s)"

fun busy :: "wpc \<Rightarrow> bool" where
  "busy (WWrite batch recs force fin) = True"
| "busy (WWrote recs n err force fin) = True"
| "busy (WFail m fin) = True"
| "busy (WSync fin) = True"
| "busy (WSynced fin) = True"
| "busy _ = False"

fun finishing :: "wpc \<Rightarrow> bool" where
  "finishing (WBegin force fin) = fin"
| "finishing (WWrite batch recs force fin) = fin"
| "finishing (WWrote recs n err force fin) = fin"
| "finishing (WFail m fin) = fin"
| "finishing (WSync fin) = fin"
| "finishing (WSynced fin) = fin"
| "finishing WFinish = True"
| "finishing WDone = True"
| "finishing _ = False"

definition file_inv :: "('f \<Rightarrow> bytes) \<Rightarrow> ('f \<Rightarrow> bytes) \<Rightarrow> bytes \<Rightarrow> 'f sys \<Rightarrow> bool" where
  "file_inv contents durable base s \<longleftrightarrow>
     prefix (base @ enc_all (take (written_seq (slog s)) (hist s))) (contents (sfile s))
     \<and> prefix (contents (sfile s)) (base @ enc_all (hist s))
     \<and> (synced (slog s) = 0 \<or> prefix (base @ enc_all (take (synced (slog s)) (hist s))) (durable (sfile s)))"

definition signal_inv :: "'f sys \<Rightarrow> bool" where
  "signal_inv s \<longleftrightarrow>
     (let l = slog s in
      fatalCalls l = (case failed l of None \<Rightarrow> [] | Some e \<Rightarrow> [e])
      \<and> (closeCh l \<longrightarrow> closing l) \<and> (finishing (spc s) \<longrightarrow> closing l) \<and> (closed l \<longleftrightarrow> spc s = WDone)
      \<and> (failed l = None \<and> lrecords l \<noteq> [] \<longrightarrow> notified l \<or> (\<exists>force fin. spc s = WBegin force fin)))"

definition sys_inv :: "('f \<Rightarrow> bytes) \<Rightarrow> ('f \<Rightarrow> bytes) \<Rightarrow> bytes \<Rightarrow> 'f sys \<Rightarrow> bool" where
  "sys_inv contents durable base s \<longleftrightarrow>
     markers_inv s \<and> buffer_inv s \<and> file_inv contents durable base s \<and> signal_inv s
     \<and> (if failed (slog s) = None then pc_inv contents durable base s (spc s) else \<not> busy (spc s))"

section \<open>Appending\<close>

lemma enc_record_nonempty [simp]: "enc_record r \<noteq> []"
  by (simp add: enc_record_def enc_request_def enc_array_def)

lemma flush_accepts: "writer_Flush w = (w', ok) \<Longrightarrow> accepts w' = accepts w"
  by (auto simp: writer_Flush_def deliver_def split: if_splits option.splits)

lemma flush_unbounded: "accepts w = None \<Longrightarrow> \<not> wfail w \<Longrightarrow> snd (writer_Flush w)"
  by (simp add: writer_Flush_def deliver_def)

lemma log_Append_accepted:
  assumes "failed l = None" "\<not> closing l" "\<not> closed l" "canonical r"
    and w: "wbuf (lw l) = []" "\<not> wfail (lw l)" "accepts (lw l) = None"
  shows "log_Append l r =
    (l\<lparr>lw := (lw l)\<lparr>wout := lbuf l @ enc_record r\<rparr>, nextSeq := nextSeq l + 1, appended := nextSeq l + 1,
       lrecords := lrecords l @ [(nextSeq l + 1, length (lbuf l @ enc_record r))], notified := True\<rparr>,
     Inr (nextSeq l + 1))"
proof -
  obtain w1 e where E: "Encode (lw l) r = (w1, e)" by fastforce
  then have op: "encode_op r (lw l) = (w1, e = None)" by (simp add: encode_op_def)
  note D = emitsD [OF emits_encode [OF assms(4)] op]
  have e: "e = None" using D(7) w by simp
  have w1: "written w1 = lbuf l @ enc_record r" "accepts w1 = None" "\<not> wfail w1"
    using D(1,2,3) e w by (simp_all add: written_def)
  obtain w2 ok where F: "writer_Flush w1 = (w2, ok)" by fastforce
  then have ok using flush_unbounded [OF w1(2,3)] by simp
  with flush_all [OF F] flush_accepts [OF F] w1 w
  have "w2 = (lw l)\<lparr>wout := lbuf l @ enc_record r\<rparr>" by simp
  then show ?thesis
    using assms(1-3) E e F \<open>ok\<close> by (simp add: log_Append_def Let_def)
qed

lemma log_Append_refused:
  "failed l \<noteq> None \<or> closing l \<or> closed l \<Longrightarrow> \<exists>e. log_Append l r = (l, Inl e)"
  by (auto simp: log_Append_def split: option.splits)

lemma log_Append_empty: "\<exists>e. log_Append l (DeriveDel []) = (l, Inl e)"
  by (auto simp: log_Append_def Encode_def DeriveDel_def verb_defs split: option.splits)

lemma derived_canonical: "derived r \<Longrightarrow> canonical r \<or> r = DeriveDel []"
  by (auto simp: derived_def)

lemma sys_append_cases:
  assumes "derived r" "buffer_inv s"
  shows "sys_append s r = s \<or>
    failed (slog s) = None \<and> \<not> closing (slog s) \<and> \<not> closed (slog s) \<and> canonical r
    \<and> sys_append s r = s\<lparr>slog := (slog s)\<lparr>lw := (lw (slog s))\<lparr>wout := lbuf (slog s) @ enc_record r\<rparr>,
          nextSeq := nextSeq (slog s) + 1, appended := nextSeq (slog s) + 1,
          lrecords := lrecords (slog s) @ [(nextSeq (slog s) + 1, length (lbuf (slog s) @ enc_record r))],
          notified := True\<rparr>, hist := hist s @ [r]\<rparr>"
proof (cases "failed (slog s) = None \<and> \<not> closing (slog s) \<and> \<not> closed (slog s) \<and> r \<noteq> DeriveDel []")
  case True
  with derived_canonical [OF assms(1)] have "canonical r" by blast
  with True assms(2) log_Append_accepted [of "slog s" r] show ?thesis
    by (simp add: sys_append_def buffer_inv_def Let_def)
next
  case False
  then have "\<exists>e. log_Append (slog s) r = (slog s, Inl e)"
    using log_Append_refused [of "slog s" r] log_Append_empty [of "slog s"] by blast
  then show ?thesis by (auto simp: sys_append_def)
qed

section \<open>Every step keeps the invariant\<close>

lemma in_flight_append:
  "markers_inv s \<Longrightarrow> written_seq (slog s) \<le> taken (slog s) \<and> taken (slog s) \<le> length (hist s)"
  by (auto simp: markers_inv_def taken_def Let_def)

lemma sys_inv_append:
  assumes "derived r" "sys_inv contents durable base s"
  shows "sys_inv contents durable base (sys_append s r)"
proof -
  from assms(2) have m: "markers_inv s" and b: "buffer_inv s" and fi: "file_inv contents durable base s"
    and sg: "signal_inv s" by (simp_all add: sys_inv_def)
  from sys_append_cases [OF assms(1) b] show ?thesis
  proof (elim disjE conjE)
    assume "sys_append s r = s" then show ?thesis using assms(2) by simp
  next
    let ?s = "sys_append s r"
    assume ok: "failed (slog s) = None" "\<not> closing (slog s)" "\<not> closed (slog s)" "canonical r"
      and eq: "?s = s\<lparr>slog := (slog s)\<lparr>lw := (lw (slog s))\<lparr>wout := lbuf (slog s) @ enc_record r\<rparr>,
          nextSeq := nextSeq (slog s) + 1, appended := nextSeq (slog s) + 1,
          lrecords := lrecords (slog s) @ [(nextSeq (slog s) + 1, length (lbuf (slog s) @ enc_record r))],
          notified := True\<rparr>, hist := hist s @ [r]\<rparr>"
    have le: "written_seq (slog s) \<le> taken (slog s)" "taken (slog s) \<le> length (hist s)"
      "synced (slog s) \<le> written_seq (slog s)" "nextSeq (slog s) = length (hist s)" "appended (slog s) = length (hist s)"
      "length (lrecords (slog s)) \<le> length (hist s)"
      using m by (auto simp: markers_inv_def taken_def Let_def)
    have same: "written_seq (slog ?s) = written_seq (slog s)" "synced (slog ?s) = synced (slog s)"
      "taken (slog ?s) = taken (slog s)" "sfile ?s = sfile s" "spc ?s = spc s" "failed (slog ?s) = None"
      "lpolicy (slog ?s) = lpolicy (slog s)" "hist ?s = hist s @ [r]"
      using ok le by (simp_all add: eq taken_def)
    have flight: "in_flight ?s = in_flight s" using le by (simp add: in_flight_def same)
    have nofin: "\<not> finishing (spc s)" using sg ok(2) by (auto simp: signal_inv_def Let_def)
    have "markers_inv ?s" using m ok(4) by (auto simp: markers_inv_def taken_def Let_def eq)
    moreover have "buffer_inv ?s"
    proof -
      have "drop (taken (slog s)) (hist s @ [r]) = drop (taken (slog s)) (hist s) @ [r]" using le by simp
      moreover have "taken (slog s) + length (drop (taken (slog s)) (hist s)) = length (hist s)" using le by simp
      ultimately show ?thesis
        using b le by (simp add: buffer_inv_def Let_def same(3)) (simp add: eq pend_snoc)
    qed
    moreover have "file_inv contents durable base ?s"
      using fi le by (auto simp: file_inv_def same intro: prefix_order.trans)
    moreover have "signal_inv ?s"
      using sg nofin by (simp add: signal_inv_def Let_def same(5)) (simp add: eq)
    moreover have "pc_inv contents durable base ?s (spc s)"
      using assms(2) ok(1) le nofin
      by (cases "spc s") (auto simp: sys_inv_def settled_def synced_inv_def same flight)
    ultimately show ?thesis by (simp add: sys_inv_def same)
  qed
qed

text \<open>A step that moves neither records nor bytes has to keep only the signals and its place.\<close>

definition same_data :: "'f sys \<Rightarrow> 'f sys \<Rightarrow> bool" where
  "same_data s s' \<longleftrightarrow>
     lw (slog s') = lw (slog s) \<and> lrecords (slog s') = lrecords (slog s) \<and> nextSeq (slog s') = nextSeq (slog s)
     \<and> appended (slog s') = appended (slog s) \<and> written_seq (slog s') = written_seq (slog s)
     \<and> synced (slog s') = synced (slog s) \<and> failed (slog s') = failed (slog s)
     \<and> lpolicy (slog s') = lpolicy (slog s) \<and> sfile s' = sfile s \<and> hist s' = hist s"

lemma pc_inv_same:
  assumes "same_data s s'"
  shows "pc_inv contents durable base s' pc \<longleftrightarrow> pc_inv contents durable base s pc"
proof -
  have "taken (slog s') = taken (slog s)" "in_flight s' = in_flight s"
    using assms by (simp_all add: same_data_def taken_def in_flight_def)
  then show ?thesis
    using assms by (cases pc) (simp_all add: same_data_def settled_def synced_inv_def)
qed

lemma sys_inv_same:
  assumes "sys_inv contents durable base s" "same_data s s'" "signal_inv s'"
    "failed (slog s) = None \<Longrightarrow> pc_inv contents durable base s (spc s')"
    "failed (slog s) \<noteq> None \<Longrightarrow> \<not> busy (spc s')"
  shows "sys_inv contents durable base s'"
proof -
  have "markers_inv s' = markers_inv s" "buffer_inv s' = buffer_inv s"
    "file_inv contents durable base s' = file_inv contents durable base s"
    using assms(2)
    by (simp_all add: markers_inv_def buffer_inv_def file_inv_def same_data_def taken_def Let_def)
  moreover have "failed (slog s') = failed (slog s)" using assms(2) by (simp add: same_data_def)
  ultimately show ?thesis
    using assms(1,3-5) pc_inv_same [OF assms(2)] by (simp add: sys_inv_def)
qed

lemma enc_all_nil [simp]: "concat (map enc_record rs) = [] \<longleftrightarrow> rs = []"
  by (cases rs) simp_all

lemma enc_flight:
  assumes "markers_inv s"
  shows "enc_all (take (written_seq (slog s)) (hist s)) @ enc_all (in_flight s) = enc_all (take (taken (slog s)) (hist s))"
proof -
  have "take (written_seq (slog s)) (hist s) @ in_flight s = take (taken (slog s)) (hist s)"
    using in_flight_append [OF assms] by (simp add: in_flight_def take_drop [symmetric] min_def)
      (metis append_take_drop_id min.absorb1 take_take)
  then show ?thesis by (metis concat_append map_append)
qed

lemma sys_inv_begin:
  assumes "sys_inv contents durable base s" "spc s = WBegin force fin"
  shows "sys_inv contents durable base (writer_step Write Sync s)"
proof (cases "failed (slog s) = None")
  case False
  then have "writer_step Write Sync s = s\<lparr>spc := flush_return fin\<rparr>"
    using assms(2) by (simp add: writer_step.simps)
  then show ?thesis
    using assms False
    by (intro sys_inv_same [OF assms(1)])
      (auto simp: same_data_def flush_return_def sys_inv_def signal_inv_def Let_def)
next
  case True
  let ?l = "slog s" and ?s = "writer_step Write Sync s"
  have eq: "?s = s\<lparr>slog := ?l\<lparr>lw := (lw ?l)\<lparr>wout := []\<rparr>, lrecords := []\<rparr>,
      spc := WWrite (lbuf ?l) (lrecords ?l) force fin\<rparr>"
    using assms(2) True by (simp add: writer_step.simps swap_batch_def)
  have m: "markers_inv s" and b: "buffer_inv s" and sg: "signal_inv s" and fi: "file_inv contents durable base s"
    and pc: "settled contents base s" "fin \<longrightarrow> force"
    using assms True by (simp_all add: sys_inv_def)
  have tk: "taken (slog ?s) = length (hist s)" using m by (simp add: eq taken_def markers_inv_def Let_def)
  have "in_flight ?s = drop (taken ?l) (hist s)"
    using pc(1) by (simp add: in_flight_def tk) (simp add: eq settled_def)
  moreover have "markers_inv ?s" using m by (auto simp: eq markers_inv_def taken_def Let_def)
  moreover have "buffer_inv ?s" using b by (simp add: buffer_inv_def Let_def tk) (simp add: eq)
  moreover have "file_inv contents durable base ?s" using fi by (simp add: file_inv_def eq)
  moreover have "signal_inv ?s"
    using sg assms(2) by (simp add: signal_inv_def Let_def eq)
  ultimately show ?thesis
    using True b pc by (simp add: sys_inv_def) (simp add: eq buffer_inv_def settled_def Let_def)
qed

lemma signal_inv_step:
  assumes "signal_inv s" "\<not> (\<exists>force fin. spc s = WBegin force fin)" "spc s' \<noteq> WDone" "\<not> closed (slog s)"
    "slog s' = (slog s)\<lparr>written_seq := a, synced := b\<rparr>" "finishing (spc s') = finishing (spc s)"
  shows "signal_inv s'"
  using assms by (auto simp: signal_inv_def Let_def)

lemma busy_live:
  "sys_inv contents durable base s \<Longrightarrow> busy (spc s) \<Longrightarrow>
   failed (slog s) = None \<and> \<not> closed (slog s) \<and> \<not> (\<exists>force fin. spc s = WBegin force fin)
   \<and> pc_inv contents durable base s (spc s) \<and> markers_inv s \<and> buffer_inv s \<and> signal_inv s
   \<and> file_inv contents durable base s"
  by (cases "spc s") (auto simp: sys_inv_def signal_inv_def Let_def split: if_splits)

lemma finishing_flush_return [simp]:
  "finishing (flush_return fin) = fin" "finishing (sync_or_return l force fin) = fin" "\<not> busy (flush_return fin)"
  "flush_return fin \<noteq> WDone" "sync_or_return l force fin \<noteq> WDone"
  by (simp_all add: flush_return_def sync_or_return_def)

text \<open>Where the writer goes once its batch is in the file.\<close>

lemma pc_inv_settled:
  assumes "settled contents base s" "fin \<longrightarrow> force \<and> lrecords (slog s) = []"
  shows "pc_inv contents durable base s (sync_or_return (slog s) force fin)"
  using assms by (simp add: sync_or_return_def flush_return_def synced_inv_def)

lemma sys_inv_write:
  assumes fc: "file_contract Write Sync contents durable" and inv: "sys_inv contents durable base s"
    and pc: "spc s = WWrite batch recs force fin"
  shows "sys_inv contents durable base (writer_step Write Sync s)"
proof -
  have live: "failed (slog s) = None" "\<not> closed (slog s)" "markers_inv s" "buffer_inv s" "signal_inv s"
    "file_inv contents durable base s" and p: "batch = enc_all (in_flight s)" "recs = pend (written_seq (slog s)) 0 (in_flight s)"
      "contents (sfile s) = base @ enc_all (take (written_seq (slog s)) (hist s))"
      "fin \<longrightarrow> force \<and> lrecords (slog s) = []"
    using busy_live [OF inv] pc by simp_all
  show ?thesis
  proof (cases "batch = []")
    case True
    then have "in_flight s = []" using p(1) by simp
    then have "settled contents base s"
      using p(3) in_flight_append [OF live(3)] by (simp add: in_flight_def settled_def)
    moreover have eq: "writer_step Write Sync s = s\<lparr>spc := sync_or_return (slog s) force fin\<rparr>"
      using pc True by (simp add: writer_step.simps)
    ultimately show ?thesis
      using live p(4) pc_inv_settled [of contents base s fin force durable] pc
      by (intro sys_inv_same [OF inv]) (auto simp: same_data_def signal_inv_def Let_def)
  next
    case False
    obtain f' n err where W: "writeFull Write (sfile s) batch 0 = (f', n, err)" by (metis prod_cases3)
    have eq: "writer_step Write Sync s = s\<lparr>sfile := f', spc := WWrote recs n err force fin\<rparr>"
      using pc False W by (simp add: writer_step.simps)
    from writeFull_delivers [OF fc _ _ W]
    have w: "0 \<le> n" "n \<le> int (length batch)" "contents f' = contents (sfile s) @ take (nat n) batch"
      "prefix (durable (sfile s)) (durable f')" "err = None \<longrightarrow> n = int (length batch)" by simp_all
    let ?s = "writer_step Write Sync s"
    have "in_flight ?s = in_flight s" by (simp add: eq in_flight_def)
    moreover have "file_inv contents durable base ?s"
    proof -
      have "prefix (take (nat n) (enc_all (in_flight s))) (enc_all (in_flight s))" by (rule take_is_prefix)
      then have "prefix (contents f') (base @ enc_all (take (taken (slog s)) (hist s)))"
        using w(3) p(1,3) enc_flight [OF live(3)] by (metis append.assoc same_prefix_prefix)
      moreover have "prefix (base @ enc_all (take (taken (slog s)) (hist s))) (base @ enc_all (hist s))"
        by (metis append_take_drop_id concat_append map_append prefixI same_prefix_prefix)
      ultimately have "prefix (contents f') (base @ enc_all (hist s))" by (rule prefix_order.trans)
      then show ?thesis
        using live(6) w(3,4) by (auto simp: file_inv_def eq intro: prefix_order.trans)
    qed
    ultimately show ?thesis
      using live p w pc
      by (auto simp: sys_inv_def eq markers_inv_def buffer_inv_def signal_inv_def Let_def)
  qed
qed

lemma sys_inv_wrote:
  assumes inv: "sys_inv contents durable base s" and pc: "spc s = WWrote recs n err force fin"
  shows "sys_inv contents durable base (writer_step Write Sync s)"
proof -
  let ?s = "writer_step Write Sync s" and ?w = "written_seq (slog s)" and ?fl = "in_flight s"
  have live: "failed (slog s) = None" "\<not> closed (slog s)" "markers_inv s" "buffer_inv s" "signal_inv s"
    "file_inv contents durable base s" and p: "recs = pend ?w 0 ?fl" "0 \<le> n" "n \<le> int (length (enc_all ?fl))"
      "contents (sfile s) = base @ enc_all (take ?w (hist s)) @ take (nat n) (enc_all ?fl)"
      "err = None \<longrightarrow> n = int (length (enc_all ?fl))" "fin \<longrightarrow> force \<and> lrecords (slog s) = []"
    using busy_live [OF inv] pc by simp_all
  define k where "k = whole ?fl (take (nat n) (enc_all ?fl))"
  have kl: "k \<le> length ?fl" unfolding k_def by (rule whole_le)
  have fl: "length ?fl = taken (slog s) - ?w"
    using in_flight_append [OF live(3)] by (simp add: in_flight_def)
  have "written_loop recs n ?w = ?w + k"
    using written_loop_pend [of 0 n ?fl ?w] p(1-3) by (simp add: k_def)
  then have slog: "slog ?s = (slog s)\<lparr>written_seq := ?w + k\<rparr>"
    and same: "sfile ?s = sfile s" "hist ?s = hist s"
    and spc: "spc ?s = (case err of Some m \<Rightarrow> WFail m fin | None \<Rightarrow> sync_or_return (slog ?s) force fin)"
    using pc by (simp_all add: writer_step.simps Let_def advanceWritten_def split: option.splits)
  have tk: "taken (slog ?s) = taken (slog s)" by (simp add: slog taken_def)
  have "take (?w + k) (hist s) = take ?w (hist s) @ take k ?fl"
    using kl fl by (simp add: take_add in_flight_def drop_take min_def)
  moreover obtain t where "take (nat n) (enc_all ?fl) = enc_all (take k ?fl) @ t"
    using whole_split [of "take (nat n) (enc_all ?fl)" ?fl] take_is_prefix by (auto simp: k_def)
  ultimately have "prefix (base @ enc_all (take (?w + k) (hist s))) (contents (sfile s))"
    using p(4) by simp
  then have fil: "file_inv contents durable base ?s"
    using live(6) by (simp add: file_inv_def same slog)
  have mark: "markers_inv ?s"
    using live(3) kl fl in_flight_append [OF live(3)]
    by (auto simp: markers_inv_def Let_def same tk) (auto simp: slog)
  have buf: "buffer_inv ?s" using live(4) by (simp add: buffer_inv_def Let_def same tk) (simp add: slog)
  have sig: "signal_inv ?s"
    using live(2,5) pc by (intro signal_inv_step [OF live(5), where a = "?w + k" and b = "synced (slog s)"])
      (auto simp: slog spc split: option.splits)
  have "pc_inv contents durable base ?s (spc ?s)"
  proof (cases err)
    case None
    then have "k = length ?fl" using p(5) by (simp add: k_def whole_all)
    then have "settled contents base ?s"
      using None p(4,5) fl in_flight_append [OF live(3)] enc_flight [OF live(3)]
      unfolding settled_def tk same by (simp add: slog)
    moreover have "fin \<longrightarrow> force \<and> lrecords (slog ?s) = []" using p(6) by (simp add: slog)
    ultimately show ?thesis unfolding spc None by (simp add: pc_inv_settled)
  qed (simp add: spc)
  then show ?thesis using live mark buf fil sig by (simp add: sys_inv_def slog)
qed

lemma buffer_inv_cong:
  "lw (slog s') = lw (slog s) \<Longrightarrow> lrecords (slog s') = lrecords (slog s) \<Longrightarrow>
   appended (slog s') = appended (slog s) \<Longrightarrow> hist s' = hist s \<Longrightarrow> buffer_inv s' = buffer_inv s"
  by (simp add: buffer_inv_def taken_def Let_def)

lemma sys_inv_fail:
  assumes inv: "sys_inv contents durable base s" and pc: "spc s = WFail m fin"
  shows "sys_inv contents durable base (writer_step Write Sync s)"
proof -
  have live: "failed (slog s) = None" "\<not> closed (slog s)" "markers_inv s" "buffer_inv s" "signal_inv s"
    "file_inv contents durable base s"
    using busy_live [OF inv] pc by simp_all
  let ?s = "writer_step Write Sync s"
  have eq: "?s =
      s\<lparr>slog := (slog s)\<lparr>failed := Some (ErrFailed m), fatalCalls := [ErrFailed m]\<rparr>, spc := flush_return fin\<rparr>"
    using pc live(1,5) by (simp add: writer_step.simps log_fail_def signal_inv_def Let_def)
  have "buffer_inv ?s" using live(4) by (subst buffer_inv_cong [of _ s]) (simp_all add: eq)
  moreover have "markers_inv ?s" using live(3) by (auto simp: markers_inv_def taken_def Let_def eq)
  moreover have "signal_inv ?s" using live(2,5) pc by (auto simp: signal_inv_def Let_def eq)
  ultimately show ?thesis using live(6) by (simp add: sys_inv_def) (simp add: eq file_inv_def)
qed

lemma sys_inv_sync:
  assumes fc: "file_contract Write Sync contents durable" and inv: "sys_inv contents durable base s"
    and pc: "spc s = WSync fin"
  shows "sys_inv contents durable base (writer_step Write Sync s)"
proof -
  have live: "failed (slog s) = None" "\<not> closed (slog s)" "markers_inv s" "buffer_inv s" "signal_inv s"
    "file_inv contents durable base s" and p: "settled contents base s" "fin \<longrightarrow> lrecords (slog s) = []"
    using busy_live [OF inv] pc by simp_all
  obtain f' e where S: "Sync (sfile s) = (f', e)" by fastforce
  note c = file_contractS [OF fc S]
  have eq: "writer_step Write Sync s =
      s\<lparr>sfile := f', spc := (case e of Some m \<Rightarrow> WFail m fin | None \<Rightarrow> WSynced fin)\<rparr>"
    using pc S by (simp add: writer_step.simps split: option.splits)
  have "file_inv contents durable base (writer_step Write Sync s)"
    using live(6) c by (auto simp: file_inv_def eq intro: prefix_order.trans)
  moreover have "buffer_inv (writer_step Write Sync s)"
    using live(4) by (subst buffer_inv_cong [of _ s]) (simp_all add: eq)
  moreover have "markers_inv (writer_step Write Sync s)" using live(3) by (simp add: markers_inv_def eq)
  moreover have "signal_inv (writer_step Write Sync s)"
    using live(2,5) pc by (intro signal_inv_step [OF live(5), where a = "written_seq (slog s)" and b = "synced (slog s)"])
      (simp_all add: eq split: option.splits)
  ultimately show ?thesis
    using live(1) p c by (simp add: sys_inv_def) (simp add: eq settled_def split: option.splits)
qed

lemma sys_inv_synced:
  assumes inv: "sys_inv contents durable base s" and pc: "spc s = WSynced fin"
  shows "sys_inv contents durable base (writer_step Write Sync s)"
proof -
  have live: "failed (slog s) = None" "\<not> closed (slog s)" "markers_inv s" "buffer_inv s" "signal_inv s"
    "file_inv contents durable base s" and p: "settled contents base s" "fin \<longrightarrow> lrecords (slog s) = []"
      "prefix (base @ enc_all (take (written_seq (slog s)) (hist s))) (durable (sfile s))"
    using busy_live [OF inv] pc by simp_all
  let ?s = "writer_step Write Sync s"
  have eq: "?s = s\<lparr>slog := (slog s)\<lparr>synced := written_seq (slog s)\<rparr>, spc := flush_return fin\<rparr>"
    using pc by (simp add: writer_step.simps advanceSynced_def)
  have "buffer_inv ?s" using live(4) by (subst buffer_inv_cong [of _ s]) (simp_all add: eq)
  moreover have "markers_inv ?s" using live(3) by (auto simp: markers_inv_def taken_def Let_def eq)
  moreover have "signal_inv ?s"
    using live(2,5) pc by (intro signal_inv_step [OF live(5), where a = "written_seq (slog s)" and b = "written_seq (slog s)"])
      (simp_all add: eq)
  moreover have "file_inv contents durable base ?s" using live(6) p(3) by (simp add: file_inv_def eq)
  moreover have "pc_inv contents durable base ?s (flush_return fin)"
    using p by (simp add: flush_return_def settled_def synced_inv_def taken_def eq)
  ultimately show ?thesis using live(1) by (simp add: sys_inv_def) (simp add: eq)
qed

lemma sys_inv_finish:
  assumes inv: "sys_inv contents durable base s" and pc: "spc s = WFinish"
  shows "sys_inv contents durable base (writer_step Write Sync s)"
proof -
  have "writer_step Write Sync s = s\<lparr>slog := (slog s)\<lparr>closed := True\<rparr>, spc := WDone\<rparr>"
    using pc by (simp add: writer_step.simps log_finish_def)
  then show ?thesis
    using inv pc
    by (intro sys_inv_same [OF inv]) (auto simp: same_data_def sys_inv_def signal_inv_def Let_def)
qed

lemma sys_inv_step:
  assumes fc: "file_contract Write Sync contents durable"
    and "sys_step Write Sync s s'" "sys_inv contents durable base s"
  shows "sys_inv contents durable base s'"
proof -
  have inv: "signal_inv s" "failed (slog s) = None \<Longrightarrow> pc_inv contents durable base s (spc s)"
    "failed (slog s) \<noteq> None \<Longrightarrow> \<not> busy (spc s)"
    using assms(3) by (simp_all add: sys_inv_def)
  from assms(2) show ?thesis
  proof cases
  case (client_append r)
  then show ?thesis using sys_inv_append assms(3) by blast
next
  case client_close
  show ?thesis unfolding client_close
    using inv by (intro sys_inv_same [OF assms(3)]) (auto simp: same_data_def close_mark_def signal_inv_def Let_def)
next
  case client_signal
  show ?thesis unfolding client_signal(1)
    using inv client_signal(2)
    by (intro sys_inv_same [OF assms(3)]) (auto simp: same_data_def close_signal_def signal_inv_def Let_def)
next
  case run_notify
  show ?thesis unfolding run_notify(1)
    using inv run_notify(2)
    by (intro sys_inv_same [OF assms(3)]) (auto simp: same_data_def signal_inv_def Let_def)
next
  case run_tick
  show ?thesis unfolding run_tick(1)
    using inv run_tick(2)
    by (intro sys_inv_same [OF assms(3)]) (auto simp: same_data_def signal_inv_def Let_def)
next
  case run_early_tick
  show ?thesis unfolding run_early_tick(1)
    using inv run_early_tick(2)
    by (intro sys_inv_same [OF assms(3)]) (auto simp: same_data_def signal_inv_def Let_def)
next
  case run_close
  show ?thesis unfolding run_close(1)
    using inv run_close(2,3)
    by (intro sys_inv_same [OF assms(3)]) (auto simp: same_data_def signal_inv_def Let_def)
next
  case run_writer
  show ?thesis unfolding run_writer(1)
  proof (cases "spc s")
    case WBegin
    then show "sys_inv contents durable base (writer_step Write Sync s)" using sys_inv_begin assms(3) by blast
  next
    case WWrite
    then show "sys_inv contents durable base (writer_step Write Sync s)" using sys_inv_write fc assms(3) by blast
  next
    case WWrote
    then show "sys_inv contents durable base (writer_step Write Sync s)" using sys_inv_wrote assms(3) by blast
  next
    case WFail
    then show "sys_inv contents durable base (writer_step Write Sync s)" using sys_inv_fail assms(3) by blast
  next
    case WSync
    then show "sys_inv contents durable base (writer_step Write Sync s)" using sys_inv_sync fc assms(3) by blast
  next
    case WSynced
    then show "sys_inv contents durable base (writer_step Write Sync s)" using sys_inv_synced assms(3) by blast
  next
    case WFinish
    then show "sys_inv contents durable base (writer_step Write Sync s)" using sys_inv_finish assms(3) by blast
  qed (use run_writer(2) in simp_all)
next
  case run_loop
  show ?thesis unfolding run_loop(1)
    using inv run_loop(2)
    by (intro sys_inv_same [OF assms(3)]) (auto simp: same_data_def signal_inv_def Let_def)
qed
qed

lemma sys_inv_opened:
  "prefix base (contents f) \<Longrightarrow> base = contents f \<Longrightarrow>
   sys_inv contents durable base \<lparr>slog = log_Open p, sfile = f, spc = WIdle, lastSync = t, hist = []\<rparr>"
  by (simp add: sys_inv_def log_Open_def NewWriter_def markers_inv_def buffer_inv_def file_inv_def signal_inv_def
      settled_def synced_inv_def taken_def)

lemma reachable_inv:
  assumes "file_contract Write Sync contents durable" "sys_reachable Write Sync p f s"
  shows "sys_inv contents durable (contents f) s"
  using assms(2) by induction (auto intro: sys_inv_opened sys_inv_step [OF assms(1)])

section \<open>Sequential flushes\<close>

lemma writer_steps_sync:
  "spc s = sync_or_return (slog s) force fin \<Longrightarrow>
   \<exists>k. (writer_step Write Sync ^^ k) s =
     s\<lparr>sfile := fst (flush_sync Sync (sfile s) (slog s) force), slog := snd (flush_sync Sync (sfile s) (slog s) force),
       spc := flush_return fin\<rparr>"
proof (cases "\<not> force \<and> lpolicy (slog s) \<noteq> Always")
  case True
  assume "spc s = sync_or_return (slog s) force fin"
  with True show ?thesis
    by (intro exI [of _ 0]) (simp add: flush_sync_def sync_or_return_def)
next
  case False
  assume "spc s = sync_or_return (slog s) force fin"
  with False have pc: "spc s = WSync fin" by (auto simp: sync_or_return_def)
  obtain f' e where S: "Sync (sfile s) = (f', e)" by fastforce
  show ?thesis
    using pc S False
    by (intro exI [of _ 2]) (auto simp: numeral_2_eq_2 writer_step.simps flush_sync_def split: option.splits)
qed

lemma funpow_trans:
  "(f ^^ j) x = y \<Longrightarrow> \<exists>k. (f ^^ k) y = z \<Longrightarrow> \<exists>k. (f ^^ k) x = z"
  by (metis comp_apply funpow_add)

lemma writer_steps_flush:
  assumes pc: "spc s = WBegin force fin"
  shows "\<exists>k. (writer_step Write Sync ^^ k) s =
     s\<lparr>sfile := fst (log_flush Write Sync (sfile s) (slog s) force),
       slog := snd (log_flush Write Sync (sfile s) (slog s) force), spc := flush_return fin\<rparr>"
proof (cases "failed (slog s) = None")
  case False
  then show ?thesis
    using pc by (intro exI [of _ 1]) (simp add: writer_step.simps log_flush_def)
next
  case True
  obtain l1 batch recs where sw: "swap_batch (slog s) = (l1, batch, recs)" by (metis prod_cases3)
  let ?s1 = "s\<lparr>slog := l1, spc := WWrite batch recs force fin\<rparr>"
  have one: "(writer_step Write Sync ^^ 1) s = ?s1" using pc True sw by (simp add: writer_step.simps)
  show ?thesis
  proof (cases "batch = []")
    case noBatch: True
    let ?s2 = "s\<lparr>slog := l1, spc := sync_or_return l1 force fin\<rparr>"
    have "(writer_step Write Sync ^^ 1) ?s1 = ?s2" by (simp add: noBatch writer_step.simps)
    moreover from writer_steps_sync [of ?s2 force fin Write Sync]
    have "\<exists>k. (writer_step Write Sync ^^ k) ?s2 =
        s\<lparr>sfile := fst (log_flush Write Sync (sfile s) (slog s) force),
          slog := snd (log_flush Write Sync (sfile s) (slog s) force), spc := flush_return fin\<rparr>"
      using True noBatch sw by (simp add: log_flush_def)
    ultimately show ?thesis using one funpow_trans by metis
  next
    case some: False
    obtain f' n err where W: "writeFull Write (sfile s) batch 0 = (f', n, err)" by (metis prod_cases3)
    let ?l2 = "advanceWritten l1 recs n"
    let ?s2 = "s\<lparr>slog := ?l2, sfile := f', spc := (case err of Some m \<Rightarrow> WFail m fin
        | None \<Rightarrow> sync_or_return ?l2 force fin)\<rparr>"
    have "(writer_step Write Sync ^^ 2) ?s1 = ?s2"
      using some W by (simp add: numeral_2_eq_2 writer_step.simps Let_def)
    moreover have "\<exists>k. (writer_step Write Sync ^^ k) ?s2 =
        s\<lparr>sfile := fst (log_flush Write Sync (sfile s) (slog s) force),
          slog := snd (log_flush Write Sync (sfile s) (slog s) force), spc := flush_return fin\<rparr>"
    proof (cases err)
      case None
      with writer_steps_sync [of ?s2 force fin Write Sync] show ?thesis
        using True some sw W by (simp add: log_flush_def)
    next
      case (Some m)
      then show ?thesis
        using True some sw W by (intro exI [of _ 1]) (simp add: log_flush_def writer_step.simps)
    qed
    ultimately show ?thesis using one funpow_trans by metis
  qed
qed

lemma writer_step_parked: "spc s \<in> {WIdle, WLoop, WDone} \<Longrightarrow> writer_step Write Sync s = s"
  by (auto simp: writer_step.simps)

lemma reachable_writer_steps:
  assumes "sys_reachable Write Sync p f s"
  shows "sys_reachable Write Sync p f ((writer_step Write Sync ^^ k) s)"
proof (induction k)
  case (Suc k)
  let ?t = "(writer_step Write Sync ^^ k) s"
  have "sys_reachable Write Sync p f (writer_step Write Sync ?t)"
  proof (cases "spc ?t \<in> {WIdle, WLoop, WDone}")
    case True
    then show ?thesis using Suc by (simp only: writer_step_parked)
  next
    case False
    show ?thesis by (rule stepped [OF Suc run_writer [OF False]])
  qed
  then show ?case by simp
qed (simp add: assms)

lemma flush_sync_frame [simp]:
  "lrecords (snd (flush_sync Sync f l force)) = lrecords l" "appended (snd (flush_sync Sync f l force)) = appended l"
  "lpolicy (snd (flush_sync Sync f l force)) = lpolicy l"
  by (auto simp: flush_sync_def log_fail_def advanceSynced_def Let_def split: prod.splits option.splits)

lemma log_flush_frame:
  "failed l = None \<Longrightarrow> lrecords (snd (log_flush Write Sync f l force)) = []"
  "appended (snd (log_flush Write Sync f l force)) = appended l"
  "lpolicy (snd (log_flush Write Sync f l force)) = lpolicy l"
  by (auto simp: log_flush_def swap_batch_def log_fail_def advanceWritten_def Let_def
      split: prod.splits option.splits)

section \<open>Properties of the log\<close>

lemma whole_ge: "m \<le> length rs \<Longrightarrow> prefix (enc_all (take m rs)) q \<Longrightarrow> m \<le> whole rs q"
proof (induction rs arbitrary: m q)
  case (Cons r rs)
  show ?case
  proof (cases m)
    case (Suc m')
    then obtain q' where q: "q = enc_record r @ q'" "prefix (enc_all (take m' rs)) q'"
      using Cons.prems(2) by (auto simp: prefix_def)
    then show ?thesis using Cons.IH [of m' q'] Cons.prems(1) Suc by simp
  qed simp
qed simp

text \<open>
  What a crash may leave of the file: the operating system's copy under \<^verbatim>\<open>EverySec\<close>, whose promise
  is about the process, and any image between the durable bytes and that copy under \<^verbatim>\<open>Always\<close>.
\<close>

definition crash_image :: "('f \<Rightarrow> bytes) \<Rightarrow> ('f \<Rightarrow> bytes) \<Rightarrow> policy \<Rightarrow> 'f \<Rightarrow> bytes \<Rightarrow> bool" where
  "crash_image contents durable p f left \<longleftrightarrow>
     prefix left (contents f) \<and> (if p = Always then prefix (durable f) left else left = contents f)"

text \<open>What the crash leaves starts with the acknowledged records and ends inside the appended ones.\<close>

lemma ack_prefix:
  assumes fc: "file_contract Write Sync contents durable"
    and base: "contents f = EncodeHeader @ enc_all old"
    and run: "sys_reachable Write Sync p f s"
    and ack: "log_Await (slog s) seq p = Some None" "1 \<le> seq"
    and crash: "crash_image contents durable p (sfile s) left"
  shows "\<exists>q. left = EncodeHeader @ q \<and> prefix (enc_all (take (length old + seq) (old @ hist s))) q
    \<and> prefix q (enc_all (old @ hist s)) \<and> seq \<le> length (hist s)"
proof -
  let ?rs = "old @ hist s" and ?m = "length old + seq"
  from reachable_inv [OF fc run] have inv: "markers_inv s" "file_inv contents durable (contents f) s"
    by (simp_all add: sys_inv_def)
  have le: "synced (slog s) \<le> written_seq (slog s)" "written_seq (slog s) \<le> length (hist s)"
    using inv(1) in_flight_append [OF inv(1)] by (auto simp: markers_inv_def Let_def)
  have r: "reached (slog s) seq p" using ack(1) by (auto simp: log_Await_def split: option.splits if_splits)
  then have sl: "seq \<le> length (hist s)" using le by (auto simp: reached_def split: if_splits)
  have keep: "prefix (contents f @ enc_all (take seq (hist s))) (contents f @ enc_all (take j (hist s)))"
    if "seq \<le> j" for j
    using that by (metis concat_append le_add_diff_inverse map_append prefixI same_prefix_prefix take_add)
  have "prefix (contents f @ enc_all (take seq (hist s))) left"
  proof (cases "p = Always")
    case True
    then have "seq \<le> synced (slog s)" using r by (simp add: reached_def)
    moreover from this have "prefix (contents f @ enc_all (take (synced (slog s)) (hist s))) (durable (sfile s))"
      using inv(2) ack(2) by (auto simp: file_inv_def)
    moreover have "prefix (durable (sfile s)) left" using crash True by (simp add: crash_image_def)
    ultimately show ?thesis using keep prefix_order.trans by blast
  next
    case False
    then have "seq \<le> written_seq (slog s)" using r by (simp add: reached_def)
    moreover have "prefix (contents f @ enc_all (take (written_seq (slog s)) (hist s))) left"
      using inv(2) crash False by (simp add: file_inv_def crash_image_def)
    ultimately show ?thesis using keep prefix_order.trans by blast
  qed
  then obtain q where q: "left = EncodeHeader @ q" "prefix (enc_all (take ?m ?rs)) q"
    by (auto simp: base prefix_def)
  have "prefix left (contents f @ enc_all (hist s))"
    using crash inv(2) by (auto simp: crash_image_def file_inv_def intro: prefix_order.trans)
  then have "prefix q (enc_all ?rs)" by (simp add: base q(1))
  with q sl show ?thesis by blast
qed


text \<open>
  A file that takes every byte at once and syncs at once: the contract can hold.
\<close>

definition perfect_write :: "(bytes \<times> nat) write_fn" where
  "perfect_write f p = ((fst f @ p, snd f), int (length p), None)"

definition perfect_sync :: "(bytes \<times> nat) sync_fn" where
  "perfect_sync f = ((fst f, length (fst f)), None)"

definition perfect_durable :: "bytes \<times> nat \<Rightarrow> bytes" where
  "perfect_durable f = take (snd f) (fst f)"

lemma perfect_contract: "file_contract perfect_write perfect_sync fst perfect_durable"
  by (simp add: file_contract_def perfect_write_def perfect_sync_def perfect_durable_def take_is_prefix)

text \<open>One record appended, and the writer run for its batch.\<close>

definition demo :: "policy \<Rightarrow> (bytes \<times> nat) sys" where
  "demo p =
     (let s0 = \<lparr>slog = log_Open p, sfile = (EncodeHeader, 0 :: nat), spc = WIdle, lastSync = 0, hist = []\<rparr>;
          s1 = sys_append s0 (DeriveSet ''k'' ''v'' 0 False);
          s2 = s1\<lparr>slog := (slog s1)\<lparr>notified := False\<rparr>, spc := WBegin False False\<rparr>
      in (writer_step perfect_write perfect_sync ^^ 5) s2)"

lemma demo_reachable: "sys_reachable perfect_write perfect_sync p (EncodeHeader, 0 :: nat) (demo p)"
proof -
  let ?s0 = "\<lparr>slog = log_Open p, sfile = (EncodeHeader, 0 :: nat), spc = WIdle, lastSync = 0, hist = []\<rparr>"
  let ?s1 = "sys_append ?s0 (DeriveSet ''k'' ''v'' 0 False)"
  let ?s2 = "?s1\<lparr>slog := (slog ?s1)\<lparr>notified := False\<rparr>, spc := WBegin False False\<rparr>"
  have r1: "sys_reachable perfect_write perfect_sync p (EncodeHeader, 0 :: nat) ?s1"
    by (rule stepped [OF opened client_append]) (auto simp: derived_def)
  have "notified (slog ?s1)" "spc ?s1 = WIdle"
    using log_Append_accepted [of "log_Open p" "DeriveSet ''k'' ''v'' 0 False"]
    by (simp_all add: sys_append_def log_Open_def NewWriter_def)
  then have "sys_reachable perfect_write perfect_sync p (EncodeHeader, 0 :: nat) ?s2"
    using stepped [OF r1 run_notify] by blast
  then show ?thesis by (simp add: demo_def Let_def reachable_writer_steps)
qed

lemmas writer_run_simps = writer_step.simps swap_batch_def sync_or_return_def flush_return_def
  perfect_sync_def advanceSynced_def advanceWritten_def log_finish_def log_Open_def NewWriter_def

lemma perfect_full: "p \<noteq> [] \<Longrightarrow> writeFull perfect_write f p 0 = ((fst f @ p, snd f), int (length p), None)"
  by (simp add: writeFull.simps [of _ f] writeFull.simps [of _ "(fst f @ p, snd f)"] perfect_write_def)

lemma five_steps:
  assumes "g x0 = x1" "g x1 = x2" "g x2 = x3" "g x3 = x4" "g x4 = x5"
  shows "(g ^^ 5) x0 = x5"
  using assms by (simp add: eval_nat_numeral)

lemma demo_parts:
  "hist (demo p) = [DeriveSet ''k'' ''v'' 0 False] \<and> written_seq (slog (demo p)) = 1 \<and> failed (slog (demo p)) = None
   \<and> (p = Always \<longrightarrow> synced (slog (demo p)) = 1 \<and> perfect_durable (sfile (demo p)) = fst (sfile (demo p)))"
proof -
  let ?r = "DeriveSet ''k'' ''v'' 0 False"
  let ?l = "(log_Open p)\<lparr>lw := (NewWriter None)\<lparr>wout := enc_record ?r\<rparr>, nextSeq := 1, appended := 1,
      lrecords := [(1, length (enc_record ?r))], notified := True\<rparr>"
  have a: "sys_append \<lparr>slog = log_Open p, sfile = (EncodeHeader, 0 :: nat), spc = WIdle, lastSync = 0, hist = []\<rparr> ?r
      = \<lparr>slog = ?l, sfile = (EncodeHeader, 0), spc = WIdle, lastSync = 0, hist = [?r]\<rparr>"
    using log_Append_accepted [of "log_Open p" ?r] by (simp add: sys_append_def log_Open_def NewWriter_def)
  let ?s2 = "\<lparr>slog = ?l\<lparr>notified := False\<rparr>, sfile = (EncodeHeader, 0 :: nat), spc = WBegin False False, lastSync = 0,
      hist = [?r]\<rparr>"
  let ?w = "writer_step perfect_write perfect_sync" and ?l5 = "(log_Open p)\<lparr>nextSeq := 1, appended := 1, written_seq := 1\<rparr>"
  have d: "demo p = (?w ^^ 5) ?s2" unfolding demo_def Let_def a by simp
  have "(?w ^^ 5) ?s2 = \<lparr>slog = ?l5, sfile = (EncodeHeader @ enc_record ?r, 0), spc = WLoop, lastSync = 0, hist = [?r]\<rparr>"
    if "p = EverySec"
    unfolding that by (rule five_steps) (simp add: writer_run_simps perfect_full)+
  moreover have "(?w ^^ 5) ?s2 = \<lparr>slog = ?l5\<lparr>synced := 1\<rparr>, sfile = (EncodeHeader @ enc_record ?r, length (EncodeHeader @ enc_record ?r)),
      spc = WLoop, lastSync = 0, hist = [?r]\<rparr>"
    if "p = Always"
    unfolding that by (rule five_steps) (simp add: writer_run_simps perfect_full)+
  ultimately show ?thesis
    unfolding d by (cases p) (simp_all add: log_Open_def perfect_durable_def)
qed


text \<open>
  The markers never run ahead of the file, and the file never holds anything but the
  appended records in the order of their sequence numbers, cut at some byte. This is in every
  reachable state, also after a short write, a failed sync or a close.
\<close>

theorem markers_bound_bytes:
  assumes "file_contract Write Sync contents durable" "sys_reachable Write Sync p f s"
  shows "synced (slog s) \<le> written_seq (slog s) \<and> written_seq (slog s) \<le> appended (slog s)
    \<and> appended (slog s) = length (hist s)
    \<and> prefix (contents f @ enc_all (take (written_seq (slog s)) (hist s))) (contents (sfile s))
    \<and> prefix (contents (sfile s)) (contents f @ enc_all (hist s))"
proof -
  from reachable_inv [OF assms] have inv: "markers_inv s" "file_inv contents durable (contents f) s"
    by (simp_all add: sys_inv_def)
  then show ?thesis
    using in_flight_append [OF inv(1)] by (auto simp: markers_inv_def file_inv_def Let_def)
qed

theorem markers_bound_bytes_witness:
  "written_seq (slog (demo EverySec)) = 1 \<and> prefix (EncodeHeader @ enc_record (DeriveSet ''k'' ''v'' 0 False)) (fst (sfile (demo EverySec)))"
proof -
  show ?thesis
    using markers_bound_bytes [OF perfect_contract demo_reachable [of EverySec]] demo_parts [of EverySec] by simp
qed

text \<open>
  C17: no wake-up is lost. Whenever the writer sits in its \<^verbatim>\<open>select\<close> while some call of \<^verbatim>\<open>Await\<close> for an
  appended record would go on waiting, the notification channel holds a signal, so the writer
  runs again.
\<close>

theorem no_lost_wakeup:
  assumes "file_contract Write Sync contents durable" "sys_reachable Write Sync p f s"
    and "spc s = WIdle" "seq \<le> appended (slog s)" "log_Await (slog s) seq (lpolicy (slog s)) = None"
  shows "notified (slog s)"
proof -
  from reachable_inv [OF assms(1,2)] have inv: "sys_inv contents durable (contents f) s" .
  have wait: "failed (slog s) = None" "\<not> reached (slog s) seq (lpolicy (slog s))"
    using assms(5) by (auto simp: log_Await_def split: option.splits if_splits)
  then have "settled contents (contents f) s" "synced_inv s" "signal_inv s" "markers_inv s"
    using inv assms(3) by (simp_all add: sys_inv_def)
  moreover from this have "lrecords (slog s) \<noteq> []"
    using wait(2) assms(4)
    by (auto simp: reached_def settled_def synced_inv_def taken_def markers_inv_def split: if_splits)
  ultimately show ?thesis using wait(1) assms(3) by (simp add: signal_inv_def Let_def)
qed

theorem no_lost_wakeup_witness:
  "notified (slog (sys_append \<lparr>slog = log_Open EverySec, sfile = ([] :: bytes, 0 :: nat), spc = WIdle, lastSync = 0, hist = []\<rparr>
     (DeriveDel [''k''])))"
proof -
  let ?s = "sys_append \<lparr>slog = log_Open EverySec, sfile = ([] :: bytes, 0 :: nat), spc = WIdle, lastSync = 0, hist = []\<rparr>
      (DeriveDel [''k''])"
  have "sys_reachable perfect_write perfect_sync EverySec ([] :: bytes, 0 :: nat) ?s"
    by (rule stepped [OF opened client_append]) (auto simp: derived_def)
  moreover have "spc ?s = WIdle" "1 \<le> appended (slog ?s)" "log_Await (slog ?s) 1 (lpolicy (slog ?s)) = None"
    by code_simp+
  ultimately show ?thesis using no_lost_wakeup [OF perfect_contract] by blast
qed

text \<open>
  One turn of the writer settles every record it found. After \<^verbatim>\<open>flush\<close> the log has failed, or
  each record appended before it is as durable as the policy of the log asks, so that no call of
  \<^verbatim>\<open>Await\<close> for one of them waits any longer.
\<close>

theorem flush_settles:
  assumes "file_contract Write Sync contents durable" "sys_reachable Write Sync p f s"
    and "spc s = WBegin force fin" "seq \<le> appended (slog s)"
  shows "log_Await (snd (log_flush Write Sync (sfile s) (slog s) force)) seq (lpolicy (slog s)) \<noteq> None"
proof -
  let ?l = "snd (log_flush Write Sync (sfile s) (slog s) force)"
  let ?s = "s\<lparr>sfile := fst (log_flush Write Sync (sfile s) (slog s) force), slog := ?l, spc := flush_return fin\<rparr>"
  have "sys_reachable Write Sync p f ?s"
    using writer_steps_flush [OF assms(3), of Write Sync] reachable_writer_steps [OF assms(2)] by metis
  from reachable_inv [OF assms(1) this] have inv: "sys_inv contents durable (contents f) ?s" .
  show ?thesis
  proof (cases "failed ?l")
    case None
    then have "failed (slog s) = None" by (auto simp: log_flush_def split: if_splits)
    then have "taken ?l = appended (slog s)" by (simp add: taken_def log_flush_frame)
    moreover have "settled contents (contents f) ?s" "fin \<Longrightarrow> synced ?l = written_seq ?l" "\<not> fin \<Longrightarrow> synced_inv ?s"
      using inv None by (simp_all add: sys_inv_def flush_return_def split: if_splits)
    ultimately have "reached ?l seq (lpolicy (slog s))"
      using assms(4) by (cases fin) (auto simp: reached_def settled_def synced_inv_def log_flush_frame)
    then show ?thesis using None by (simp add: log_Await_def)
  qed (simp add: log_Await_def)
qed

theorem flush_settles_witness:
  "log_Await (snd (log_flush perfect_write perfect_sync ([] :: bytes, 0 :: nat) (log_Open Always) True)) 0 Always \<noteq> None"
proof -
  let ?s0 = "\<lparr>slog = log_Open Always, sfile = ([] :: bytes, 0 :: nat), spc = WIdle, lastSync = 0, hist = []\<rparr>"
  let ?s1 = "?s0\<lparr>spc := WBegin True False, lastSync := nsPerSec\<rparr>"
  have "sys_reachable perfect_write perfect_sync Always ([] :: bytes, 0 :: nat) ?s1"
    by (rule stepped [OF opened run_tick]) (simp_all add: syncInterval_def nsPerSec_def time_Sub_def int64_defs)
  from flush_settles [OF perfect_contract this, of True False 0] show ?thesis
    by (simp add: log_Open_def)
qed

lemma writer_returned:
  assumes "file_contract Write Sync contents durable" "sys_reachable Write Sync p f s" "spc s = WDone"
  shows "(case failed (slog s) of
        None \<Rightarrow> synced (slog s) = appended (slog s) \<and> contents (sfile s) = contents f @ enc_all (hist s)
          \<and> fatalCalls (slog s) = []
          \<and> (hist s = [] \<or> prefix (contents f @ enc_all (hist s)) (durable (sfile s)))
      | Some e \<Rightarrow> fatalCalls (slog s) = [e])"
proof -
  from reachable_inv [OF assms(1,2)] have inv: "sys_inv contents durable (contents f) s" .
  then have "signal_inv s" "markers_inv s" "file_inv contents durable (contents f) s"
    "failed (slog s) = None \<Longrightarrow> pc_inv contents durable (contents f) s WDone"
    using assms(3) by (simp_all add: sys_inv_def)
  then show ?thesis
    by (auto simp: signal_inv_def markers_inv_def file_inv_def settled_def taken_def Let_def split: option.splits)
qed

text \<open>
  C18: a clean close loses nothing. When the writer has returned and the log has not failed, every
  appended record is durable and the file holds exactly the appended records; and however the log
  ended, its failure was reported exactly once if it failed, and never otherwise.
\<close>

theorem clean_close:
  assumes "file_contract Write Sync contents durable" "sys_reachable Write Sync p f s" "spc s = WDone"
  shows "(case failed (slog s) of
        None \<Rightarrow> synced (slog s) = appended (slog s) \<and> contents (sfile s) = contents f @ enc_all (hist s)
          \<and> fatalCalls (slog s) = []
          \<and> (hist s = [] \<or> prefix (contents f @ enc_all (hist s)) (durable (sfile s)))
      | Some e \<Rightarrow> fatalCalls (slog s) = [e])"
  using assms by (rule writer_returned)

theorem clean_close_witness:
  "\<exists>s. sys_reachable perfect_write perfect_sync EverySec ([] :: bytes, 0 :: nat) s \<and> spc s = WDone
     \<and> synced (slog s) = appended (slog s)"
proof -
  let ?s0 = "\<lparr>slog = log_Open EverySec, sfile = ([] :: bytes, 0 :: nat), spc = WIdle, lastSync = 0, hist = []\<rparr>"
  let ?s1 = "?s0\<lparr>slog := close_mark (slog ?s0)\<rparr>"
  let ?s2 = "?s1\<lparr>slog := close_signal (slog ?s1)\<rparr>"
  let ?s3 = "?s2\<lparr>spc := WBegin True True\<rparr>"
  let ?s = "(writer_step perfect_write perfect_sync ^^ 5) ?s3"
  have "sys_reachable perfect_write perfect_sync EverySec ([] :: bytes, 0 :: nat) ?s1"
    by (rule stepped [OF opened client_close])
  then have "sys_reachable perfect_write perfect_sync EverySec ([] :: bytes, 0 :: nat) ?s2"
    by (rule stepped [OF _ client_signal]) (simp add: close_mark_def)
  then have "sys_reachable perfect_write perfect_sync EverySec ([] :: bytes, 0 :: nat) ?s3"
    by (rule stepped [OF _ run_close]) (simp_all add: close_signal_def)
  then have r: "sys_reachable perfect_write perfect_sync EverySec ([] :: bytes, 0 :: nat) ?s" by (rule reachable_writer_steps)
  have "?s = \<lparr>slog = (log_Open EverySec)\<lparr>closing := True, closeCh := True, closed := True\<rparr>,
      sfile = ([], 0), spc = WDone, lastSync = 0, hist = []\<rparr>"
    by (rule five_steps) (simp add: writer_run_simps close_mark_def close_signal_def)+
  then have "spc ?s = WDone" "failed (slog ?s) = None" by (simp_all add: log_Open_def)
  then show ?thesis using clean_close [OF perfect_contract r] r by auto
qed

end
