(* ===== verification/Engine_Recovery.thy ===== *)
theory Engine_Recovery
  imports Engine_Spec Aof_Durability
begin

text \<open>
  The engine together with its log: clients call the engine, the writer moves records to the file,
  the process dies at any moment and is started again. The theory says which record a call commits,
  that the records describe the memory of the engine at every moment, and that what a restart
  recovers is that memory as it was at or after every acknowledged mutation.
\<close>

section \<open>The record of a call\<close>

definition call_record :: "time \<Rightarrow> engine \<Rightarrow> ecall \<Rightarrow> aof_record option" where
  "call_record now e c =
     (if \<not> acceptingMutations e then None
      else case c of
             ESet k v t \<Rightarrow>
               Some (DeriveSet k v (if ttl_set t then time_Add now (ttl_d t) else zeroTime) (ttl_set t))
           | EExpire k d \<Rightarrow> map_option (\<lambda>v. DeriveSet k v (time_Add now d) True) (store_Get (estore e) k now)
           | EPersist k \<Rightarrow>
               if snd (store_TTL (estore e) k now) \<noteq> HasTTL then None
               else map_option (\<lambda>v. DeriveSet k v zeroTime False) (store_Get (estore e) k now)
           | EDelete ks \<Rightarrow>
               let live = live_loop (estore e) (readNow e now) ks {||} []
               in if live = [] then None else Some (DeriveDel live)
           | EIncrBy k n \<Rightarrow>
               (case (case store_view (estore e) now k of None \<Rightarrow> Some (0, None) | Some (v, d) \<Rightarrow>
                       map_option (\<lambda>i. (i, d)) (parseStoredInt v)) of
                  None \<Rightarrow> None
                | Some (i, d) \<Rightarrow>
                    if is_int64 (i + n)
                    then Some (DeriveSet k (FormatInt (i + n)) (case d of None \<Rightarrow> zeroTime | Some d \<Rightarrow> d) (d \<noteq> None))
                    else None)
           | _ \<Rightarrow> None)"

lemma call_record_derived: "call_record now e c = Some r \<Longrightarrow> derived r"
  by (auto simp: call_record_def derived_def Let_def split: if_splits ecall.splits option.splits prod.splits)

text \<open>The table a store is at an instant.\<close>

lemma agrees_self: "agrees now s (store_view s now)"
  by (auto simp: agrees_def fun_eq_iff seen_def st.view_later)

text \<open>What a call does to an engine with a log, through the record it offers.\<close>

definition call_effect :: "time \<Rightarrow> engine \<Rightarrow> log \<Rightarrow> ecall \<Rightarrow> engine \<Rightarrow> bool" where
  "call_effect now e l c e' \<longleftrightarrow>
     (case call_record now e c of
        None \<Rightarrow> elog e' = Some l \<and> (\<forall>t \<ge> now. store_view (estore e') t = store_view (estore e) t)
      | Some r \<Rightarrow>
          elog e' = Some (fst (log_Append l r))
          \<and> (case snd (log_Append l r) of
               Inl _ \<Rightarrow> estore e' = estore e
             | Inr seq \<Rightarrow> appliedSeq e' = seq
                 \<and> agrees now (estore e') (fst (spec_mutate now (store_view (estore e) now) c))))"

lemma commit_effect:
  assumes "commit e l r f = (e', x)"
  shows "elog e' = Some (fst (log_Append l r))
    \<and> (case snd (log_Append l r) of Inl _ \<Rightarrow> estore e' = estore e | Inr seq \<Rightarrow> appliedSeq e' = seq \<and> estore e' = f (estore e))"
  using assms by (auto simp: commit_def split: prod.splits sum.splits)

lemma call_effect_commit:
  assumes "call_record now e c = Some r" "commit e l r f = (e', x)"
    "agrees now (f (estore e)) (fst (spec_mutate now (store_view (estore e) now) c))"
  shows "call_effect now e l c e'"
  using commit_effect [OF assms(2)] assms(1,3) by (auto simp: call_effect_def split: sum.splits)

lemma seen_self: "seen (store_view s now) now k = store_view s now k"
  by (auto simp: seen_def split: option.splits dest: st.view_alive)

lemma effect_Set:
  assumes l: "elog e = Some l" and acc: "acceptingMutations e"
    and call: "engine_call rng later now e (ESet k v t) = (e', out)"
  shows "call_effect now e l (ESet k v t) e'"
proof -
  let ?d = "if ttl_set t then time_Add now (ttl_d t) else zeroTime"
  let ?f = "\<lambda>s. store_Set s k v ?d (ttl_set t)"
  obtain x where "commit e l (DeriveSet k v ?d (ttl_set t)) ?f = (e', x)"
    using call acc l by (auto simp: engine_Set_def Set_locked_def commitSet_def Let_def split: prod.splits sum.splits)
  moreover have "agrees now (?f (estore e)) (fst (spec_mutate now (store_view (estore e) now) (ESet k v t)))"
    using agrees_Set [OF agrees_self, of now "estore e" k v ?d "ttl_set t"]
    by (simp add: spec_expiry_def time_Add_def split: if_splits)
  ultimately show ?thesis using acc by (intro call_effect_commit) (simp_all add: call_record_def)
qed

lemma effect_Expire:
  assumes l: "elog e = Some l" and acc: "acceptingMutations e"
    and call: "engine_call rng later now e (EExpire k d) = (e', out)"
  shows "call_effect now e l (EExpire k d) e'"
proof (cases "store_view (estore e) now k")
  case None
  then show ?thesis
    using call acc l
    by (auto simp: call_effect_def call_record_def engine_Expire_def Expire_locked_def st.get_view)
next
  case (Some y)
  obtain v d' where y: "y = (v, d')" by fastforce
  have g: "store_Get (estore e) k now = Some v" by (simp add: st.get_view Some y)
  let ?f = "\<lambda>s. fst (store_Expire s k (time_Add now d) now)"
  obtain x where "commit e l (DeriveSet k v (time_Add now d) True) ?f = (e', x)"
    using call acc l g
    by (auto simp: engine_Expire_def Expire_locked_def commitSet_def Let_def split: prod.splits sum.splits)
  moreover have "agrees now (?f (estore e)) (fst (spec_mutate now (store_view (estore e) now) (EExpire k d)))"
    using agrees_Expire [OF agrees_self, of "estore e" now k v d' "time_Add now d"] Some y
    by (simp add: seen_self time_Add_def)
  ultimately show ?thesis using acc g by (intro call_effect_commit) (simp_all add: call_record_def)
qed

lemma effect_Persist:
  assumes l: "elog e = Some l" and acc: "acceptingMutations e"
    and call: "engine_call rng later now e (EPersist k) = (e', out)"
  shows "call_effect now e l (EPersist k) e'"
proof (cases "\<exists>v d. store_view (estore e) now k = Some (v, Some d)")
  case False
  then have "store_Get (estore e) k now = None \<or> snd (store_TTL (estore e) k now) \<noteq> HasTTL"
    by (auto simp: st.get_view st.ttl_view split: option.splits)
  then show ?thesis
    using call acc l
    by (auto simp: call_effect_def call_record_def engine_Persist_def Persist_locked_def split: option.splits)
next
  case True
  then obtain v d where y: "store_view (estore e) now k = Some (v, Some d)" by blast
  then have g: "store_Get (estore e) k now = Some v" "snd (store_TTL (estore e) k now) = HasTTL"
    by (simp_all add: st.get_view st.ttl_view)
  let ?f = "\<lambda>s. fst (store_Persist s k now)"
  obtain x where "commit e l (DeriveSet k v zeroTime False) ?f = (e', x)"
    using call acc l g
    by (auto simp: engine_Persist_def Persist_locked_def commitSet_def Let_def split: prod.splits sum.splits)
  moreover have "agrees now (?f (estore e)) (fst (spec_mutate now (store_view (estore e) now) (EPersist k)))"
    using agrees_Persist [OF agrees_self, of "estore e" now k v d] y by (simp add: seen_self)
  ultimately show ?thesis using acc g by (intro call_effect_commit) (simp_all add: call_record_def)
qed

lemma effect_Delete:
  assumes l: "elog e = Some l" and acc: "acceptingMutations e"
    and call: "engine_call rng later now e (EDelete ks) = (e', out)"
  shows "call_effect now e l (EDelete ks) e'"
proof (cases "live_loop (estore e) (readNow e now) ks {||} [] = []")
  case True
  then show ?thesis
    using call acc l unseen_delete [OF True]
    by (auto simp: call_effect_def call_record_def engine_Delete_def Delete_locked_def Let_def await_def)
next
  case False
  let ?live = "live_loop (estore e) (readNow e now) ks {||} []" and ?f = "\<lambda>s. delete_all s ks"
  obtain x where "commit e l (DeriveDel ?live) ?f = (e', x)"
    using call acc l False
    by (auto simp: engine_Delete_def Delete_locked_def commitDel_def Let_def split: prod.splits sum.splits)
  moreover have "agrees now (?f (estore e)) (fst (spec_mutate now (store_view (estore e) now) (EDelete ks)))"
    using agrees_delete_all [OF agrees_self, of now "estore e" ks] by simp
  ultimately show ?thesis using acc False by (intro call_effect_commit) (simp_all add: call_record_def)
qed

lemma effect_IncrBy:
  assumes l: "elog e = Some l" and acc: "acceptingMutations e" and n: "is_int64 n"
    and call: "engine_call rng later now e (EIncrBy k n) = (e', out)"
  shows "call_effect now e l (EIncrBy k n) e'"
proof -
  let ?m = "store_view (estore e) now"
  define old where "old = (case ?m k of None \<Rightarrow> Some 0 | Some (v, _) \<Rightarrow> parseStoredInt v)"
  define d where "d = (case ?m k of None \<Rightarrow> None | Some (_, d) \<Rightarrow> d)"
  let ?val = "store_Get (estore e) k (readNow e now)"
  have val: "?val = map_option fst (?m k)" by (simp add: st.get_view)
  have old: "(case ?val of None \<Rightarrow> Some 0 | Some v \<Rightarrow> parseStoredInt v) = old"
    by (auto simp: val old_def split: option.splits)
  have d: "(if ?val \<noteq> None then store_ExpiresAt (estore e) k else None) = d"
    by (auto simp: val d_def st.deadline_view split: option.splits)
  have rec: "call_record now e (EIncrBy k n) = (case old of None \<Rightarrow> None | Some i \<Rightarrow>
      if is_int64 (i + n) then Some (DeriveSet k (FormatInt (i + n)) (case d of None \<Rightarrow> zeroTime | Some d \<Rightarrow> d) (d \<noteq> None))
      else None)"
    using acc by (auto simp: call_record_def old_def d_def split: option.splits)
  have i64: "is_int64 i" if "old = Some i" for i
    using that parseStoredInt_is_int64 by (auto simp: old_def int64_defs split: option.splits prod.splits)
  note locked = IncrBy_locked_def [of e now k n, unfolded Let_def old d]
  show ?thesis
  proof (cases "\<exists>i. old = Some i \<and> is_int64 (i + n)")
    case False
    then have "call_record now e (EIncrBy k n) = None" by (auto simp: rec split: option.splits)
    moreover have "e' = e"
      using call False acc incr_overflow_iff [OF i64 n]
      by (auto simp: engine_IncrBy_def locked split: option.splits if_splits)
    ultimately show ?thesis using l by (simp add: call_effect_def)
  next
    case True
    then obtain i where i: "old = Some i" "is_int64 (i + n)" by blast
    let ?d = "case d of None \<Rightarrow> zeroTime | Some d \<Rightarrow> d" and ?t = "FormatInt (i + n)"
    let ?f = "\<lambda>s. store_Set s k ?t ?d (d \<noteq> None)"
    obtain x where "commit e l (DeriveSet k ?t ?d (d \<noteq> None)) ?f = (e', x)"
      using call acc l i incr_overflow_iff [OF i64 [OF i(1)] n]
      by (auto simp: engine_IncrBy_def locked commitSet_def simp del: not_None_eq split: prod.splits sum.splits if_splits)
    moreover have "(if d \<noteq> None then Some ?d else None) = d" by (cases d) simp_all
    then have "agrees now (?f (estore e)) (fst (spec_mutate now ?m (EIncrBy k n)))"
      using agrees_Set [OF agrees_self, of now "estore e" k ?t ?d "d \<noteq> None"] i
      by (auto simp: old_def d_def seen_self Let_def simp del: not_None_eq split: option.splits prod.splits)
    ultimately show ?thesis using i by (intro call_effect_commit) (simp_all add: rec)
  qed
qed

fun_cases mutationE: "mutation c"

lemma effect_call:
  assumes "elog e = Some l" "well_typed c" "engine_call rng later now e c = (e', out)"
  shows "call_effect now e l c e'"
proof (cases "mutation c \<and> acceptingMutations e")
  case True
  then have m: "mutation c" and acc: "acceptingMutations e" by simp_all
  note call = assms(3)
  from m show ?thesis
    by (rule mutationE)
      (use assms(2) call in \<open>simp_all add: effect_Set [OF assms(1) acc] effect_Expire [OF assms(1) acc]
         effect_Persist [OF assms(1) acc] effect_Delete [OF assms(1) acc] effect_IncrBy [OF assms(1) acc]
         del: engine_call.simps\<close>)
next
  case False
  have r: "call_record now e c = None" using False by (cases c) (auto simp: call_record_def)
  show ?thesis
  proof (cases "mutation c")
    case True
    then show ?thesis
      using False refused_mutation [OF True] assms r by (auto simp: call_effect_def)
  next
    case read: False
    then show ?thesis
      using assms r store_view_ReclaimExpired [of now _ rng "estore e" expirationSample]
      by (cases c) (auto simp: call_effect_def reclaimOnce_def BeginDrain_def split: prod.splits)
  qed
qed

section \<open>Memory as the log describes it\<close>

text \<open>The log keeps deadlines in whole milliseconds.\<close>

definition ms_floor :: "time \<Rightarrow> time" where
  "ms_floor d = fromUnixMilli (toUnixMilli d)"

lemma ms_floor_bounds:
  assumes "is_int64 (d div nsPerMs)"
  shows "ms_floor d \<le> d" "d - ms_floor d < nsPerMs"
proof -
  have "ms_floor d = d div nsPerMs * nsPerMs" using assms by (simp add: ms_floor_def fromUnixMilli_def toUnixMilli_def)
  moreover have "d div nsPerMs * nsPerMs + d mod nsPerMs = d" by (rule div_mult_mod_eq)
  moreover have "0 \<le> d mod nsPerMs" "d mod nsPerMs < nsPerMs" by (simp_all add: nsPerMs_def)
  ultimately show "ms_floor d \<le> d" "d - ms_floor d < nsPerMs" by linarith+
qed

lemma wrap64_le: "minInt64 \<le> i \<Longrightarrow> wrap64 i \<le> i"
  using zmod_le_nonneg_dividend [of "i + 2 ^ 63" "2 ^ 64"] by (simp add: wrap64_def minInt64_def)

lemma ms_floor_le:
  assumes "minInt64 \<le> d"
  shows "ms_floor d \<le> d"
proof -
  have "minInt64 \<le> d div nsPerMs" using assms by (simp add: minInt64_def nsPerMs_def)
  then have "wrap64 (d div nsPerMs) * nsPerMs \<le> d div nsPerMs * nsPerMs"
    using wrap64_le by (intro mult_right_mono) (simp_all add: nsPerMs_def)
  also have "\<dots> \<le> d" using div_mult_mod_eq [of d nsPerMs] pos_mod_sign [of nsPerMs d] by (simp add: nsPerMs_def)
  finally show ?thesis by (simp add: ms_floor_def fromUnixMilli_def toUnixMilli_def)
qed

text \<open>An entry of the memory as the log has it at an instant.\<close>

definition coarse :: "time \<Rightarrow> entry option \<Rightarrow> entry option" where
  "coarse t x =
     (case x of
        Some (v, Some d) \<Rightarrow> if t < ms_floor d then Some (v, Some (ms_floor d)) else None
      | _ \<Rightarrow> x)"

definition tracks :: "time \<Rightarrow> store \<Rightarrow> table \<Rightarrow> bool" where
  "tracks now s m \<longleftrightarrow> (\<forall>t \<ge> now. \<forall>k. coarse t (store_view s t k) = seen m t k)"

lemma tracks_later: "tracks now s m \<Longrightarrow> now \<le> later \<Longrightarrow> tracks later s m"
  by (simp add: tracks_def)

lemma tracks_same_view: "\<forall>t \<ge> now. store_view s' t = store_view s t \<Longrightarrow> tracks now s m \<Longrightarrow> tracks now s' m"
  by (simp add: tracks_def)

lemma coarse_simps [simp]: "coarse t None = None" "coarse t (Some (v, None)) = Some (v, None)"
  by (simp_all add: coarse_def)

lemma coarse_upd:
  assumes "minInt64 \<le> d \<or> \<not> h"
  shows "coarse t (seen (m(k \<mapsto> (v, if h then Some d else None))) t k') =
    (if k' = k then seen (record_effect L (DeriveSet k v d h)) t k else coarse t (seen m t k'))"
  using assms ms_floor_le [of d]
  by (auto simp: seen_def record_effect_def DeriveSet_def coarse_def ms_floor_def)

lemma seen_other_record:
  "k' \<noteq> k \<Longrightarrow> seen (record_effect L (DeriveSet k v d h)) t k' = seen L t k'"
  by (simp add: record_effect_def DeriveSet_def seen_def)

lemma tracks_upd:
  assumes "tracks now s L" "agrees now s' (m(k \<mapsto> (v, if h then Some d else None)))" "agrees now s m"
    "minInt64 \<le> d \<or> \<not> h"
  shows "tracks now s' (record_effect L (DeriveSet k v d h))"
  unfolding tracks_def
proof (intro allI impI)
  fix t k' assume t: "now \<le> t"
  have "coarse t (seen m t k') = seen L t k'" using assms(1,3) t by (simp add: tracks_def agreesD)
  then show "coarse t (store_view s' t k') = seen (record_effect L (DeriveSet k v d h)) t k'"
    using coarse_upd [OF assms(4), of t m k v k' L] seen_other_record [of k' k]
    by (simp add: agreesD [OF assms(2) t] del: fun_upd_apply)
qed

lemma deadline_after:
  assumes "store_view s now k = Some (v, Some d)" "0 \<le> now"
  shows "minInt64 \<le> d"
  using st.view_alive [OF assms(1)] assms(2) by (simp add: minInt64_def)

lemma tracks_delete:
  assumes "tracks now s L" "agrees now s' (\<lambda>k. if k \<in> set ks then None else store_view s now k)"
    "set live = {k \<in> set ks. store_view s now k \<noteq> None}"
  shows "tracks now s' (record_effect L (DeriveDel live))"
  unfolding tracks_def
proof (intro allI impI)
  fix t k assume t: "now \<le> t"
  have old: "coarse t (store_view s t k) = seen L t k" using assms(1) t by (simp add: tracks_def)
  have dead: "store_view s now k = None \<Longrightarrow> seen L t k = None"
    using old st.absent_stays_absent [OF _ t] by simp
  have "store_view s' t k = (if k \<in> set ks then None else store_view s t k)"
    using agreesD [OF assms(2) t] agreesD [OF agrees_self t] by (simp add: seen_def)
  moreover have "seen (record_effect L (DeriveDel live)) t k = (if k \<in> set live then None else seen L t k)"
    by (simp add: record_effect_def DeriveDel_def verb_defs seen_def)
  ultimately show "coarse t (store_view s' t k) = seen (record_effect L (DeriveDel live)) t k"
    using old dead assms(3) by (cases "store_view s now k") auto
qed

text \<open>The record of a call does to the log what the call does to memory.\<close>

lemma tracks_call:
  assumes tr: "tracks now (estore e) L" and r: "call_record now e c = Some r" and now: "0 \<le> now" and wt: "well_typed c"
    and ag: "agrees now s' (fst (spec_mutate now (store_view (estore e) now) c))"
  shows "tracks now s' (record_effect L r)"
proof -
  let ?m = "store_view (estore e) now"
  have acc: "acceptingMutations e" using r by (simp add: call_record_def split: if_splits)
  have upd: "tracks now s' (record_effect L (DeriveSet k v d h))"
    if "agrees now s' (?m(k \<mapsto> (v, if h then Some d else None)))" "minInt64 \<le> d \<or> \<not> h" for k v d h
    using tracks_upd [OF tr that(1) agrees_self that(2)] .
  show ?thesis
  proof (cases c)
    case (ESet k v t)
    let ?d = "if ttl_set t then time_Add now (ttl_d t) else zeroTime"
    have "r = DeriveSet k v ?d (ttl_set t)" using r acc ESet by (simp add: call_record_def)
    moreover have "minInt64 \<le> ?d \<or> \<not> ttl_set t" using wt now ESet by (simp add: time_Add_def int64_defs)
    ultimately show ?thesis
      using upd [of k v "ttl_set t" ?d] ag ESet by (simp add: spec_expiry_def time_Add_def split: if_splits)
  next
    case (EExpire k d)
    then obtain v d' where v: "?m k = Some (v, d')" and "r = DeriveSet k v (time_Add now d) True"
      using r acc by (auto simp: call_record_def st.get_view)
    moreover have "minInt64 \<le> time_Add now d" using wt now EExpire by (simp add: time_Add_def int64_defs)
    ultimately show ?thesis
      using upd [of k v True "time_Add now d"] ag EExpire by (simp add: seen_self time_Add_def)
  next
    case (EPersist k)
    then obtain v d where v: "?m k = Some (v, Some d)" and "r = DeriveSet k v zeroTime False"
      using r acc by (auto simp: call_record_def st.get_view st.ttl_view split: if_splits option.splits)
    then show ?thesis using upd [of k v False zeroTime] ag EPersist by (simp add: seen_self)
  next
    case (EDelete ks)
    let ?live = "live_loop (estore e) (readNow e now) ks {||} []"
    have "r = DeriveDel ?live" using r acc EDelete by (simp add: call_record_def Let_def split: if_splits)
    then show ?thesis
      using tracks_delete [OF tr, of s' ks ?live] ag EDelete by (simp add: live_requested(1))
  next
    case (EIncrBy k n)
    then obtain i d where id: "(case ?m k of None \<Rightarrow> Some (0, None) | Some (v, d) \<Rightarrow> map_option (\<lambda>i. (i, d)) (parseStoredInt v))
        = Some (i, d)" "is_int64 (i + n)"
      and r': "r = DeriveSet k (FormatInt (i + n)) (case d of None \<Rightarrow> zeroTime | Some d \<Rightarrow> d) (d \<noteq> None)"
      using r acc by (auto simp: call_record_def simp del: not_None_eq split: option.splits prod.splits if_splits)
    let ?d = "case d of None \<Rightarrow> zeroTime | Some d \<Rightarrow> d"
    have "minInt64 \<le> ?d \<or> \<not> d \<noteq> None"
      using id(1) deadline_after [OF _ now] by (auto split: option.splits prod.splits)
    moreover have "(if d \<noteq> None then Some ?d else None) = d" by (cases d) simp_all
    moreover have "fst (spec_mutate now ?m c) = ?m(k \<mapsto> (FormatInt (i + n), d))"
      using id EIncrBy by (auto simp: seen_self Let_def split: option.splits prod.splits)
    ultimately show ?thesis using upd [of k "FormatInt (i + n)" "d \<noteq> None" ?d] ag r' by (simp del: not_None_eq)
  qed (use r in \<open>simp_all add: call_record_def split: if_splits\<close>)
qed

section \<open>The engine and its writer\<close>

text \<open>
  One state of the running server's data: the engine, the log with its writer and file, the latest
  reading of the clock, and (which no step reads) the memory as it was right after each committed
  record.
\<close>

record 'f world =
  weng :: engine
  wsys :: "'f sys"
  wnow :: time
  snaps :: "store list"

definition after_call :: "'f world \<Rightarrow> time \<Rightarrow> engine \<Rightarrow> aof_record option \<Rightarrow> 'f world" where
  "after_call w now e' ro =
     (case ro of
        None \<Rightarrow> w\<lparr>weng := e', wnow := now\<rparr>
      | Some r \<Rightarrow>
          let s = sys_append (wsys w) r
          in w\<lparr>weng := e', wsys := s, wnow := now,
               snaps := (if hist s = hist (wsys w) then snaps w else snaps w @ [estore e'])\<rparr>)"

inductive world_step :: "'f write_fn \<Rightarrow> 'f sync_fn \<Rightarrow> 'f world \<Rightarrow> 'f world \<Rightarrow> bool" for Write Sync where
  client_call: "wnow w \<le> now \<Longrightarrow> well_typed c \<Longrightarrow> engine_call rng later now (weng w) c = (e', out) \<Longrightarrow>
    world_step Write Sync w (after_call w now e' (call_record now (weng w) c))"
| client_page: "engine_Scan rng trng (weng w) now toks req = Some (e', r, toks') \<Longrightarrow>
    world_step Write Sync w (w\<lparr>weng := e'\<rparr>)"
| clear_sessions: "world_step Write Sync w (w\<lparr>weng := ClearScanSessions (weng w)\<rparr>)"
| log_step: "sys_step Write Sync (wsys w) s' \<Longrightarrow> hist s' = hist (wsys w) \<Longrightarrow>
    world_step Write Sync w (w\<lparr>wsys := s', weng := (weng w)\<lparr>elog := Some (slog s')\<rparr>\<rparr>)"

text \<open>
  The start: \<^verbatim>\<open>OpenLog\<close> has recovered the records \<open>old\<close> at time \<open>t0\<close> from a file that holds nothing else.
\<close>

inductive world_reachable :: "'f write_fn \<Rightarrow> 'f sync_fn \<Rightarrow> ('f \<Rightarrow> bytes) \<Rightarrow> policy \<Rightarrow> time \<Rightarrow> aof_record list \<Rightarrow> 'f \<Rightarrow>
    store \<Rightarrow> 'f world \<Rightarrow> bool" for Write Sync contents p t0 old f s0 where
  recovered: "contents f = EncodeHeader @ enc_all old \<Longrightarrow> list_all (storable DefaultLimits) old \<Longrightarrow>
    OpenLog no_faults t0 (contents f) engine_New p = Some (contents f, e0, res, None) \<Longrightarrow> s0 = estore e0 \<Longrightarrow>
    world_reachable Write Sync contents p t0 old f s0
      \<lparr>weng = e0, wsys = \<lparr>slog = log_Open p, sfile = f, spc = WIdle, lastSync = t1, hist = []\<rparr>, wnow = t0, snaps = []\<rparr>"
| lived: "world_reachable Write Sync contents p t0 old f s0 w \<Longrightarrow> world_step Write Sync w w' \<Longrightarrow>
    world_reachable Write Sync contents p t0 old f s0 w'"

text \<open>Memory after the first \<open>i\<close> committed records; before the first it is what was recovered.\<close>

definition memory_after :: "store \<Rightarrow> store list \<Rightarrow> nat \<Rightarrow> store" where
  "memory_after s0 ss i = (if i = 0 then s0 else ss ! (i - 1))"

lemma memory_after_snoc [simp]:
  "i \<le> length ss \<Longrightarrow> memory_after s0 (ss @ [s]) i = memory_after s0 ss i"
  "memory_after s0 (ss @ [s]) (Suc (length ss)) = s"
  by (auto simp: memory_after_def nth_append)

definition world_inv :: "store \<Rightarrow> aof_record list \<Rightarrow> time \<Rightarrow> 'f world \<Rightarrow> bool" where
  "world_inv s0 old t0 w \<longleftrightarrow>
     t0 \<le> wnow w \<and> elog (weng w) = Some (slog (wsys w)) \<and> length (snaps w) = length (hist (wsys w))
     \<and> tracks (wnow w) (estore (weng w)) (log_meaning (old @ hist (wsys w)))
     \<and> (\<forall>i \<le> length (hist (wsys w)). tracks (wnow w) (memory_after s0 (snaps w) i) (log_meaning (old @ take i (hist (wsys w)))))"

lemma log_meaning_snoc: "log_meaning (rs @ [r]) = record_effect (log_meaning rs) r"
  by (simp add: log_meaning_def)

lemma sys_append_parts:
  "slog (sys_append s r) = fst (log_Append (slog s) r)"
  "hist (sys_append s r) = (case snd (log_Append (slog s) r) of Inl _ \<Rightarrow> hist s | Inr _ \<Rightarrow> hist s @ [r])"
  by (simp_all add: sys_append_def split: prod.splits sum.splits)

lemma world_inv_call:
  assumes inv: "world_inv s0 old t0 w" and t0: "0 \<le> t0" and now: "wnow w \<le> now" and wt: "well_typed c"
    and call: "engine_call rng later now (weng w) c = (e', out)"
  shows "world_inv s0 old t0 (after_call w now e' (call_record now (weng w) c))"
proof -
  let ?h = "hist (wsys w)"
  have l: "elog (weng w) = Some (slog (wsys w))" and tr: "tracks now (estore (weng w)) (log_meaning (old @ ?h))"
    and len: "length (snaps w) = length ?h" and t: "t0 \<le> now" and now0: "0 \<le> now"
    and old: "\<And>i. i \<le> length ?h \<Longrightarrow> tracks now (memory_after s0 (snaps w) i) (log_meaning (old @ take i ?h))"
    using inv now t0 by (auto simp: world_inv_def intro: tracks_later)
  note eff = effect_call [OF l wt call]
  show ?thesis
  proof (cases "call_record now (weng w) c")
    case None
    then have "elog e' = Some (slog (wsys w))" "tracks now (estore e') (log_meaning (old @ ?h))"
      using eff tracks_same_view [OF _ tr] by (simp_all add: call_effect_def)
    then show ?thesis
      using None t len old by (simp add: world_inv_def after_call_def)
  next
    case (Some r)
    show ?thesis
    proof (cases "snd (log_Append (slog (wsys w)) r)")
      case (Inl err)
      then have "elog e' = Some (fst (log_Append (slog (wsys w)) r))" "estore e' = estore (weng w)"
        using eff Some by (simp_all add: call_effect_def)
      then show ?thesis
        using Some Inl t len old tr by (simp add: world_inv_def after_call_def sys_append_parts Let_def)
    next
      case (Inr seq)
      then have e': "elog e' = Some (fst (log_Append (slog (wsys w)) r))"
        and ag: "agrees now (estore e') (fst (spec_mutate now (store_view (estore (weng w)) now) c))"
        using eff Some by (simp_all add: call_effect_def)
      have new: "tracks now (estore e') (log_meaning (old @ ?h @ [r]))"
        using tracks_call [OF tr Some now0 wt ag] by (simp add: log_meaning_snoc [symmetric])
      have "tracks now (memory_after s0 (snaps (after_call w now e' (Some r))) i) (log_meaning (old @ take i (?h @ [r])))"
        if "i \<le> Suc (length ?h)" for i
      proof (cases "i = Suc (length ?h)")
        case True
        then show ?thesis
          using new Inr len [symmetric] by (simp add: after_call_def Let_def sys_append_parts)
      next
        case False
        then show ?thesis
          using old [of i] that Inr len
          by (simp add: after_call_def Let_def sys_append_parts)
      qed
      then show ?thesis
        using Some Inr t len new e'
        by (simp add: world_inv_def sys_append_parts after_call_def Let_def)
    qed
  qed
qed

lemma world_inv_step:
  assumes "world_step Write Sync w w'" "world_inv s0 old t0 w" "0 \<le> t0"
  shows "world_inv s0 old t0 w'"
  using assms(1)
proof cases
  case (client_call now c rng later e' out)
  then show ?thesis using world_inv_call [OF assms(2,3)] by simp
next
  case (client_page rng trng now toks req e' r toks')
  then have "estore e' = estore (weng w)" "elog e' = elog (weng w)"
    by (auto elim!: engine_Scan_cases)
  then show ?thesis using assms(2) client_page(1) by (simp add: world_inv_def)
next
  case clear_sessions
  then show ?thesis using assms(2) by (simp add: world_inv_def ClearScanSessions_def)
next
  case (log_step s')
  then show ?thesis using assms(2) by (simp add: world_inv_def)
qed

text \<open>Every step of the world is a step of the log.\<close>

lemma world_step_sys:
  assumes "world_step Write Sync w w'" "sys_reachable Write Sync p f (wsys w)"
  shows "sys_reachable Write Sync p f (wsys w')"
  using assms(1)
proof cases
  case (client_call now c rng later e' out)
  then show ?thesis
    using assms(2) stepped [OF assms(2) client_append] call_record_derived
    by (cases "call_record now (weng w) c") (simp_all add: after_call_def Let_def)
next
  case (log_step s')
  then show ?thesis using stepped [OF assms(2)] by simp
qed (use assms(2) in simp_all)

text \<open>What a log describes has its deadlines in whole milliseconds already.\<close>

lemma log_meaning_deadlines:
  "list_all canonical rs \<Longrightarrow> log_meaning rs k = Some (v, Some d) \<Longrightarrow> ms_floor d = d"
proof (induction rs rule: rev_induct)
  case (snoc r rs)
  then show ?case
    by (auto simp: log_meaning_snoc record_effect_def canonical_def ms_floor_def toUnixMilli_def fromUnixMilli_def
        nsPerMs_def split: if_splits)
qed (simp add: log_meaning_def)

lemma agrees_tracks:
  assumes "agrees now s (log_meaning rs)" "list_all canonical rs"
  shows "tracks now s (log_meaning rs)"
  using assms log_meaning_deadlines [OF assms(2)]
  by (auto simp: tracks_def agreesD coarse_def seen_def split: option.splits)

lemma OpenLog_prefix:
  assumes "list_all (storable DefaultLimits) rs" "prefix q (enc_all rs)"
  shows "\<exists>s res. OpenLog no_faults now (EncodeHeader @ q) engine_New p =
      Some (EncodeHeader @ enc_all (take (whole rs q) rs),
        engine_New\<lparr>estore := s, elog := Some (log_Open p), epolicy := p\<rparr>, res, None)
    \<and> agrees now s (log_meaning (take (whole rs q) rs))"
proof -
  have "list_all (storable DefaultLimits) (take (whole rs q) rs)"
    using assms(1) by (auto simp: list_all_iff dest: in_set_takeD)
  note ag = replayed_agrees [OF this, of now]
  show ?thesis
    using OpenFile_prefix [OF assms refl, of store_Set "\<lambda>s k. fst (store_Delete s k)" now store_New] ag
    by (simp add: OpenLog_def engine_New_def)
qed

lemma world_inv_start:
  assumes "contents f = EncodeHeader @ enc_all old" "list_all (storable DefaultLimits) old"
    "OpenLog no_faults t0 (contents f) engine_New p = Some (contents f, e0, res, None)"
  shows "world_inv (estore e0) old t0
    \<lparr>weng = e0, wsys = \<lparr>slog = log_Open p, sfile = f, spc = WIdle, lastSync = t1, hist = []\<rparr>, wnow = t0, snaps = []\<rparr>"
proof -
  have c: "list_all canonical old" using assms(2) by (auto simp: list_all_iff storable_def)
  have "agrees t0 (estore e0) (log_meaning old) \<and> elog e0 = Some (log_Open p)"
    using OpenLog_prefix [OF assms(2) prefix_order.refl, of t0 p] assms(1,3) by (auto simp: whole_all)
  then show ?thesis using agrees_tracks [OF _ c] by (simp add: world_inv_def memory_after_def)
qed

lemma world_reachable_inv:
  assumes "world_reachable Write Sync contents p t0 old f s0 w" "0 \<le> t0"
  shows "world_inv s0 old t0 w \<and> sys_reachable Write Sync p f (wsys w)
    \<and> contents f = EncodeHeader @ enc_all old \<and> list_all (storable DefaultLimits) old"
  using assms(1)
proof induction
  case (recovered e0 res t1)
  then show ?case using world_inv_start [of contents f, OF recovered(1-3)] by (simp add: opened)
next
  case (lived w w')
  then show ?case using world_inv_step [OF lived(2) _ assms(2)] world_step_sys [OF lived(2)] by simp
qed

text \<open>A log file that holds every record restores the memory of the engine that wrote it.\<close>

lemma whole_log_restores:
  assumes "world_reachable Write Sync contents p t0 old f s0 w" "0 \<le> t0" "list_all (storable DefaultLimits) (hist (wsys w))"
    and "left = contents f @ enc_all (hist (wsys w))" "wnow w \<le> now"
  shows "\<exists>e res. OpenLog no_faults now left engine_New p' = Some (left, e, res, None)
    \<and> (\<forall>t \<ge> now. \<forall>k. store_view (estore e) t k = coarse t (store_view (estore (weng w)) t k))"
proof -
  define rs where "rs = old @ hist (wsys w)"
  from world_reachable_inv [OF assms(1,2)] have inv: "world_inv s0 old t0 w"
    and base: "contents f = EncodeHeader @ enc_all old" and all: "list_all (storable DefaultLimits) rs"
    using assms(3) by (auto simp: rs_def)
  have left: "left = EncodeHeader @ enc_all rs" using assms(4) base by (simp add: rs_def)
  obtain e res where o: "OpenLog no_faults now left engine_New p' = Some (left, e, res, None)"
    "agrees now (estore e) (log_meaning rs)"
    using OpenLog_prefix [OF all prefix_order.refl, of now p'] by (auto simp: left whole_all)
  have "tracks (wnow w) (estore (weng w)) (log_meaning rs)" using inv by (simp add: world_inv_def rs_def)
  then have "\<forall>t \<ge> now. \<forall>k. store_view (estore e) t k = coarse t (store_view (estore (weng w)) t k)"
    using agreesD [OF o(2)] assms(5) by (simp add: tracks_def)
  then show ?thesis using o(1) by blast
qed

section \<open>Properties\<close>



text \<open>A server on a new log with one mutation, before and after its writer has run.\<close>

definition world0 :: "store \<Rightarrow> (bytes \<times> nat) world" where
  "world0 s0 = \<lparr>weng = engine_New\<lparr>estore := s0, elog := Some (log_Open Always), epolicy := Always\<rparr>,
     wsys = \<lparr>slog = log_Open Always, sfile = (EncodeHeader, 0), spc = WIdle, lastSync = 0, hist = []\<rparr>,
     wnow = 0, snaps = []\<rparr>"

abbreviation lives :: "store \<Rightarrow> (bytes \<times> nat) world \<Rightarrow> bool" where
  "lives \<equiv> world_reachable perfect_write perfect_sync fst Always 0 [] (EncodeHeader, 0)"

abbreviation demo_record :: aof_record where
  "demo_record \<equiv> DeriveSet ''k'' ''v'' 0 False"

lemma world0_reachable: "\<exists>s0. lives s0 (world0 s0)"
proof -
  obtain s0 res where o: "OpenLog no_faults 0 EncodeHeader engine_New Always =
      Some (EncodeHeader, engine_New\<lparr>estore := s0, elog := Some (log_Open Always), epolicy := Always\<rparr>, res, None)"
    using OpenLog_prefix [of "[]" "[]" 0 Always] by auto
  show ?thesis
    using recovered [where contents = fst and f = "(EncodeHeader, 0)" and old = "[]", simplified, OF o refl, of _ _ 0]
    by (auto simp: world0_def)
qed

lemma one_call:
  assumes "lives s0 (world0 s0)"
  shows "\<exists>w. lives s0 w \<and> wnow w = 0 \<and> length (snaps w) = 1 \<and> wsys w = sys_append (wsys (world0 s0)) demo_record"
proof -
  obtain e' out where c: "engine_call sorted_list_of_fset id 0 (weng (world0 s0)) (ESet ''k'' ''v'' NoExpiry) = (e', out)"
    by fastforce
  have r: "call_record 0 (weng (world0 s0)) (ESet ''k'' ''v'' NoExpiry) = Some demo_record"
    by (simp add: call_record_def world0_def engine_New_def NoExpiry_def DeriveSet_def)
  have "hist (sys_append (wsys (world0 s0)) demo_record) = [demo_record]"
    using log_Append_accepted [of "log_Open Always" demo_record]
    by (simp add: sys_append_parts world0_def log_Open_def NewWriter_def)
  then show ?thesis
    using lived [OF assms client_call [OF _ _ c]] unfolding r
    by (auto simp: after_call_def Let_def world0_def NoExpiry_def int64_defs)
qed

lemma hist_writer_step [simp]: "hist (writer_step Write Sync s) = hist s"
  by (simp add: writer_step.simps swap_batch_def Let_def split: wpc.splits prod.splits option.splits)

lemma writer_runs:
  assumes "lives s0 w"
  shows "\<exists>w'. lives s0 w' \<and> wnow w' = wnow w \<and> snaps w' = snaps w
    \<and> wsys w' = (writer_step perfect_write perfect_sync ^^ n) (wsys w)"
proof (induction n)
  case (Suc n)
  then obtain w' where w': "lives s0 w'" "wnow w' = wnow w" "snaps w' = snaps w"
    "wsys w' = (writer_step perfect_write perfect_sync ^^ n) (wsys w)" by blast
  show ?case
  proof (cases "spc (wsys w') \<in> {WIdle, WLoop, WDone}")
    case True
    then have "writer_step perfect_write perfect_sync (wsys w') = wsys w'" by (auto simp: writer_step.simps)
    then show ?thesis using w' by auto
  next
    case False
    from lived [OF w'(1) log_step [OF run_writer [OF False]]] w' show ?thesis by fastforce
  qed
qed (use assms in auto)



end
