(* ===== verification/Server_Lifecycle.thy ===== *)
theory Server_Lifecycle
  imports Engine_Recovery Server_Reply
begin

text \<open>
  The life of the server: \<^verbatim>\<open>internal/server/server.go\<close> and \<^verbatim>\<open>supervisor.go\<close>. The goroutine of \<^verbatim>\<open>Run\<close> goes
  through the stages of a graceful or a fatal shutdown while the accept loop admits connections, the
  handlers of the connections come and go, the commands of the clients and the writer of the log work on
  the engine, and fatal conditions are reported; all of it in any interleaving.
\<close>

section \<open>The supervisor\<close>

datatype srv_err =
    ListenErr string
  | EnginePanic string
  | LogFailure log_err
  | ContextDone
  | ErrShutdownTimeout

text \<open>\<open>sdone\<close> is the closed state of the channel, which is also the state of the \<^verbatim>\<open>sync.Once\<close>.\<close>

record supervisor =
  sdone :: bool
  scause :: "srv_err option"

definition NewSupervisor :: supervisor where
  "NewSupervisor = \<lparr>sdone = False, scause = None\<rparr>"

definition sup_Fatal :: "srv_err \<Rightarrow> supervisor \<Rightarrow> supervisor" where
  "sup_Fatal err s = (if sdone s then s else \<lparr>sdone = True, scause = Some err\<rparr>)"

definition sup_Cause :: "supervisor \<Rightarrow> srv_err option" where
  "sup_Cause s = scause s"

definition sup_Fired :: "supervisor \<Rightarrow> bool" where
  "sup_Fired s = sdone s"

section \<open>The server\<close>

record server_config =
  Addr :: string
  MaxClients :: int
  ReadTimeout :: duration
  WriteTimeout :: duration
  ShutdownTimeout :: duration
  Limits :: limits

definition DefaultConfig :: server_config where
  "DefaultConfig =
     \<lparr>Addr = ''127.0.0.1:6380'', MaxClients = 1024, ReadTimeout = 0, WriteTimeout = 30 * nsPerSec,
      ShutdownTimeout = 10 * nsPerSec, Limits = DefaultLimits\<rparr>"

text \<open>
  Where the goroutine of \<^verbatim>\<open>Run\<close> is. The stages of \<^verbatim>\<open>gracefulShutdown\<close> carry whether the connections drained,
  those of \<^verbatim>\<open>fatalShutdown\<close> and of the ends they share carry the error that will be returned.
\<close>

datatype stage =
    Starting | Serving
  | GListener | GWorker | GGate | GDrain | GNudge | GWait | GFinalize bool | GSignal bool | GFinWait bool | GCheck bool
  | FWorker srv_err | FListener srv_err | FGate srv_err | FDrain srv_err
  | CloseConns srv_err | Linger srv_err | Returning "srv_err option" | Stopped "srv_err option"

text \<open>The accept loop: in \<^verbatim>\<open>Accept\<close>, with a connection, with one admitted but not yet counted by \<^verbatim>\<open>wg\<close>, or gone.\<close>

datatype accept_pc = Accepting | Got nat | Admitted nat | LoopGone

text \<open>
  Connections are numbered as they arrive. \<open>handlers\<close> are the goroutines \<^verbatim>\<open>wg\<close> counts, \<open>clearing\<close> the ones
  that have released their connection and are about to clear the scan sessions, \<open>shut\<close> the closed sockets.
\<close>

record 'f server =
  stage :: stage
  wld :: "'f world"
  superv :: supervisor
  lnOpen :: bool
  drainCh :: bool
  loop :: accept_pc
  nextConn :: nat
  conns :: "nat fset"
  nClient :: int
  handlers :: "nat fset"
  clearing :: "nat fset"
  shut :: "nat fset"

definition server_New :: "'f world \<Rightarrow> 'f server" where
  "server_New w =
     \<lparr>stage = Starting, wld = w, superv = NewSupervisor, lnOpen = False, drainCh = False, loop = LoopGone, nextConn = 0,
      conns = {||}, nClient = 0, handlers = {||}, clearing = {||}, shut = {||}\<rparr>"

definition isDraining :: "'f server \<Rightarrow> bool" where
  "isDraining s = drainCh s"

text \<open>A client over the limit gets one error line, then its socket is closed.\<close>

definition reject :: "nat option \<Rightarrow> writer" where
  "reject acc = fst (writer_Flush (fst (WriteError ''ERR max number of clients reached'' (NewWriter acc))))"

definition admit :: "server_config \<Rightarrow> nat \<Rightarrow> 'f server \<Rightarrow> 'f server \<times> bool" where
  "admit cfg c s =
     (if nClient s \<ge> MaxClients cfg then (s\<lparr>shut := finsert c (shut s)\<rparr>, False)
      else (s\<lparr>nClient := nClient s + 1, conns := finsert c (conns s)\<rparr>, True))"

text \<open>The critical section of \<^verbatim>\<open>releaseConn\<close>; the clearing and the close come after it.\<close>

definition releaseConn_locked :: "nat \<Rightarrow> 'f server \<Rightarrow> 'f server" where
  "releaseConn_locked c s =
     (if c |\<in>| conns s then
        (let n = nClient s - 1
         in s\<lparr>conns := conns s |-| {|c|}, nClient := n,
              clearing := (if n = 0 \<and> isDraining s then finsert c (clearing s) else clearing s)\<rparr>)
      else s)"

definition closeAllConns :: "'f server \<Rightarrow> 'f server" where
  "closeAllConns s = s\<lparr>shut := shut s |\<union>| conns s\<rparr>"

text \<open>\<^verbatim>\<open>waitConns\<close> may report success when every handler is done; a fatal condition or its timer end it at any time.\<close>

definition waitConns :: "'f server \<Rightarrow> bool \<Rightarrow> bool" where
  "waitConns s drained \<longleftrightarrow> (drained \<longrightarrow> handlers s = {||})"

definition on_engine :: "(engine \<Rightarrow> engine) \<Rightarrow> 'f server \<Rightarrow> 'f server" where
  "on_engine f s = s\<lparr>wld := (wld s)\<lparr>weng := f (weng (wld s))\<rparr>\<rparr>"

definition on_log :: "(log \<Rightarrow> log) \<Rightarrow> 'f server \<Rightarrow> 'f server" where
  "on_log f s =
     (let l = f (slog (wsys (wld s)))
      in s\<lparr>wld := (wld s)\<lparr>wsys := (wsys (wld s))\<lparr>slog := l\<rparr>, weng := (weng (wld s))\<lparr>elog := Some l\<rparr>\<rparr>\<rparr>)"

text \<open>What \<^verbatim>\<open>Finalize\<close> reports to the supervisor when the writer has returned.\<close>

definition finalised :: "log \<Rightarrow> supervisor \<Rightarrow> supervisor" where
  "finalised l u = (case log_Failed l of None \<Rightarrow> u | Some e \<Rightarrow> sup_Fatal (LogFailure e) u)"

text \<open>\<^verbatim>\<open>RunWithReady\<close>: it listens, then waits for the context or for the supervisor.\<close>

inductive run_step :: "'f server \<Rightarrow> 'f server \<Rightarrow> bool" where
  listen_fails: "stage s = Starting \<Longrightarrow> run_step s (s\<lparr>stage := Stopped (Some (ListenErr e))\<rparr>)"
| listens: "stage s = Starting \<Longrightarrow> run_step s (s\<lparr>stage := Serving, lnOpen := True, loop := Accepting\<rparr>)"
| cancelled: "stage s = Serving \<Longrightarrow> run_step s (s\<lparr>stage := GListener\<rparr>)"
| fatal_seen: "stage s = Serving \<Longrightarrow> sup_Fired (superv s) \<Longrightarrow> sup_Cause (superv s) = Some r \<Longrightarrow> run_step s (s\<lparr>stage := FWorker r\<rparr>)"

text \<open>The goroutine of \<^verbatim>\<open>Run\<close>: these, then the stages of \<^verbatim>\<open>gracefulShutdown\<close> or of \<^verbatim>\<open>fatalShutdown\<close>.\<close>

inductive life_step :: "'f server \<Rightarrow> 'f server \<Rightarrow> bool" where
  run: "run_step s s' \<Longrightarrow> life_step s s'"
| g_listener: "stage s = GListener \<Longrightarrow> life_step s (s\<lparr>stage := GWorker, lnOpen := False\<rparr>)"
| g_worker: "stage s = GWorker \<Longrightarrow> life_step s (s\<lparr>stage := GGate\<rparr>)"
| g_gate: "stage s = GGate \<Longrightarrow> life_step s ((on_engine BeginDrain s)\<lparr>stage := GDrain\<rparr>)"
| g_drain: "stage s = GDrain \<Longrightarrow> life_step s (s\<lparr>stage := GNudge, drainCh := True\<rparr>)"
| g_nudge: "stage s = GNudge \<Longrightarrow> life_step s (s\<lparr>stage := GWait\<rparr>)"
| g_wait: "stage s = GWait \<Longrightarrow> waitConns s d \<Longrightarrow> life_step s (s\<lparr>stage := GFinalize d\<rparr>)"
| g_nolog: "stage s = GFinalize d \<Longrightarrow> elog (weng (wld s)) = None \<Longrightarrow> life_step s (s\<lparr>stage := GCheck d\<rparr>)"
| g_finalize: "stage s = GFinalize d \<Longrightarrow> elog (weng (wld s)) \<noteq> None \<Longrightarrow> life_step s ((on_log close_mark s)\<lparr>stage := GSignal d\<rparr>)"
| g_signal: "stage s = GSignal d \<Longrightarrow> life_step s ((on_log close_signal s)\<lparr>stage := GFinWait d\<rparr>)"
| g_closed: "stage s = GFinWait d \<Longrightarrow> spc (wsys (wld s)) = WDone \<Longrightarrow>
    life_step s (s\<lparr>stage := GCheck d, superv := finalised (slog (wsys (wld s))) (superv s)\<rparr>)"
| g_timeout: "stage s = GFinWait d \<Longrightarrow> life_step s (s\<lparr>stage := GCheck d, superv := sup_Fatal ContextDone (superv s)\<rparr>)"
| g_fatal: "stage s = GCheck d \<Longrightarrow> sup_Fired (superv s) \<Longrightarrow> sup_Cause (superv s) = Some r \<Longrightarrow> life_step s (s\<lparr>stage := CloseConns r\<rparr>)"
| g_complete: "stage s = GCheck True \<Longrightarrow> \<not> sup_Fired (superv s) \<Longrightarrow> life_step s (s\<lparr>stage := Returning None\<rparr>)"
| g_late: "stage s = GCheck False \<Longrightarrow> \<not> sup_Fired (superv s) \<Longrightarrow> life_step s (s\<lparr>stage := CloseConns ErrShutdownTimeout\<rparr>)"
| f_worker: "stage s = FWorker r \<Longrightarrow> life_step s (s\<lparr>stage := FListener r\<rparr>)"
| f_listener: "stage s = FListener r \<Longrightarrow> life_step s (s\<lparr>stage := FGate r, lnOpen := False\<rparr>)"
| f_gate: "stage s = FGate r \<Longrightarrow> life_step s ((on_engine BeginDrain s)\<lparr>stage := FDrain r\<rparr>)"
| f_drain: "stage s = FDrain r \<Longrightarrow> life_step s (s\<lparr>stage := CloseConns r, drainCh := True\<rparr>)"
| close_conns: "stage s = CloseConns r \<Longrightarrow> life_step s ((closeAllConns s)\<lparr>stage := Linger r\<rparr>)"
| linger: "stage s = Linger r \<Longrightarrow> waitConns s d \<Longrightarrow> life_step s (s\<lparr>stage := Returning (Some r)\<rparr>)"
| returns: "stage s = Returning r \<Longrightarrow> life_step s ((on_engine ClearScanSessions s)\<lparr>stage := Stopped r\<rparr>)"

text \<open>
  What else happens: the accept loop, the handlers, the clients' commands with the writer of the log, and
  reports of fatal conditions. The log calls \<^verbatim>\<open>onFatal\<close> when it fails, which is the supervisor's. Only the
  handler of an admitted connection runs commands, so without one no scan session begins.
\<close>

definition report :: "log \<Rightarrow> supervisor \<Rightarrow> supervisor" where
  "report l u = (case fatalCalls l of [] \<Rightarrow> u | e # _ \<Rightarrow> sup_Fatal (LogFailure e) u)"

text \<open>
  \<^verbatim>\<open>guard\<close> of the engine reports a panic inside a mutation and raises it again; the connection it reaches
  ends there (\<^verbatim>\<open>recoverConn\<close>).
\<close>

definition engine_guard :: "string \<Rightarrow> supervisor \<Rightarrow> supervisor" where
  [simp]: "engine_guard e u = sup_Fatal (EnginePanic e) u"

inductive server_step :: "'f write_fn \<Rightarrow> 'f sync_fn \<Rightarrow> server_config \<Rightarrow> 'f server \<Rightarrow> 'f server \<Rightarrow> bool" for Write Sync cfg where
  life: "life_step s s' \<Longrightarrow> server_step Write Sync cfg s s'"
| accept: "lnOpen s \<Longrightarrow> loop s = Accepting \<Longrightarrow>
    server_step Write Sync cfg s (s\<lparr>loop := Got (nextConn s), nextConn := Suc (nextConn s)\<rparr>)"
| accept_fails: "\<not> lnOpen s \<Longrightarrow> loop s = Accepting \<Longrightarrow> server_step Write Sync cfg s (s\<lparr>loop := LoopGone\<rparr>)"
| admits: "loop s = Got c \<Longrightarrow> admit cfg c s = (s', True) \<Longrightarrow> server_step Write Sync cfg s (s'\<lparr>loop := Admitted c\<rparr>)"
| rejects: "loop s = Got c \<Longrightarrow> admit cfg c s = (s', False) \<Longrightarrow> server_step Write Sync cfg s (s'\<lparr>loop := Accepting\<rparr>)"
| spawn: "loop s = Admitted c \<Longrightarrow> server_step Write Sync cfg s (s\<lparr>loop := Accepting, handlers := finsert c (handlers s)\<rparr>)"
| works: "world_step Write Sync (wld s) w' \<Longrightarrow>
    conns s = {||} \<longrightarrow> scanSessions (weng w') = scanSessions (weng (wld s)) \<Longrightarrow>
    server_step Write Sync cfg s (s\<lparr>wld := w', superv := report (slog (wsys w')) (superv s)\<rparr>)"
| panics: "server_step Write Sync cfg s (s\<lparr>superv := engine_guard e (superv s)\<rparr>)"
| releases: "c |\<in>| handlers s \<Longrightarrow> c |\<in>| conns s \<Longrightarrow> server_step Write Sync cfg s (releaseConn_locked c s)"
| clears: "c |\<in>| clearing s \<Longrightarrow>
    server_step Write Sync cfg s ((on_engine ClearScanSessions s)\<lparr>clearing := clearing s |-| {|c|}\<rparr>)"
| ends: "c |\<in>| handlers s \<Longrightarrow> c |\<notin>| conns s \<Longrightarrow> c |\<notin>| clearing s \<Longrightarrow>
    server_step Write Sync cfg s (s\<lparr>handlers := handlers s |-| {|c|}, shut := finsert c (shut s)\<rparr>)"

inductive server_reachable :: "'f write_fn \<Rightarrow> 'f sync_fn \<Rightarrow> server_config \<Rightarrow> 'f world \<Rightarrow> 'f server \<Rightarrow> bool" for Write Sync cfg w where
  created: "server_reachable Write Sync cfg w (server_New w)"
| stepped_to: "server_reachable Write Sync cfg w s \<Longrightarrow> server_step Write Sync cfg s s' \<Longrightarrow> server_reachable Write Sync cfg w s'"

inductive_cases life_stepE: "life_step s s'"
inductive_cases server_stepE: "server_step Write Sync cfg s s'"

section \<open>Clients\<close>

text \<open>The connections that are counted, and who will release them.\<close>

definition clients_inv :: "server_config \<Rightarrow> 'f server \<Rightarrow> bool" where
  "clients_inv cfg s \<longleftrightarrow>
     nClient s = int (fcard (conns s)) \<and> nClient s \<le> max 0 (MaxClients cfg)
     \<and> (\<forall>c. c |\<in>| conns s \<or> c |\<in>| handlers s \<longrightarrow> c < nextConn s)
     \<and> (\<forall>c. c |\<in>| conns s \<longrightarrow> c |\<in>| handlers s \<or> loop s = Admitted c)
     \<and> (\<forall>c. loop s = Admitted c \<longrightarrow> c |\<in>| conns s \<and> c |\<notin>| handlers s)
     \<and> (\<forall>c. loop s = Got c \<longrightarrow> c < nextConn s \<and> c |\<notin>| conns s \<and> c |\<notin>| handlers s)
     \<and> (stage s = Starting \<longrightarrow> loop s = LoopGone)"

lemma life_keeps:
  assumes "life_step s s'"
  shows "conns s' = conns s" "nClient s' = nClient s" "handlers s' = handlers s" "nextConn s' = nextConn s" "clearing s' = clearing s"
    "loop s' = loop s \<or> (stage s = Starting \<and> loop s' = Accepting)" "stage s' \<noteq> Starting"
  using assms by (auto elim!: life_stepE run_step.cases simp: on_engine_def on_log_def Let_def closeAllConns_def)

lemma release_parts:
  "c |\<in>| conns s \<Longrightarrow> conns (releaseConn_locked c s) = conns s |-| {|c|}"
  "c |\<in>| conns s \<Longrightarrow> nClient (releaseConn_locked c s) = nClient s - 1"
  "handlers (releaseConn_locked c s) = handlers s" "nextConn (releaseConn_locked c s) = nextConn s"
  "loop (releaseConn_locked c s) = loop s" "stage (releaseConn_locked c s) = stage s" "wld (releaseConn_locked c s) = wld s"
  "superv (releaseConn_locked c s) = superv s" "drainCh (releaseConn_locked c s) = drainCh s"
  by (simp_all add: releaseConn_locked_def Let_def)

lemma fcard_remove: "c |\<in>| A \<Longrightarrow> int (fcard (A |-| {|c|})) = int (fcard A) - 1"
  using fcard_Suc_fminus1 [of c A] by simp

lemma clients_inv_step:
  assumes "clients_inv cfg s" "server_step Write Sync cfg s s'"
  shows "clients_inv cfg s'"
  using assms(2)
proof cases
  case life
  then show ?thesis using assms(1) life_keeps [OF life] unfolding clients_inv_def by auto
next
  case (admits c s1)
  then show ?thesis using assms(1) by (auto simp: clients_inv_def admit_def fcard_finsert_if split: if_splits)
next
  case (rejects c s1)
  then show ?thesis using assms(1) by (auto simp: clients_inv_def admit_def split: if_splits)
next
  case (releases c)
  then show ?thesis
    using assms(1) release_parts [of c s] fcard_remove [of c "conns s"] by (auto simp: clients_inv_def)
qed (use assms(1) in \<open>auto simp: clients_inv_def on_engine_def less_SucI\<close>)

lemma clients_inv_reachable: "server_reachable Write Sync cfg w s \<Longrightarrow> clients_inv cfg s"
proof (induction rule: server_reachable.induct)
  case created
  show ?case by (simp add: clients_inv_def server_New_def)
qed (rule clients_inv_step)

section \<open>Scan sessions\<close>

definition open_sessions :: "'f server \<Rightarrow> bool" where
  "open_sessions s \<longleftrightarrow> sessions (scanSessions (weng (wld s))) \<noteq> fmempty"

fun after_drain :: "stage \<Rightarrow> bool" where
  "after_drain (CloseConns _) \<longleftrightarrow> True" | "after_drain (Linger _) \<longleftrightarrow> True" | "after_drain (Returning _) \<longleftrightarrow> True"
| "after_drain (Stopped _) \<longleftrightarrow> True" | "after_drain GNudge \<longleftrightarrow> True" | "after_drain GWait \<longleftrightarrow> True"
| "after_drain (GFinalize _) \<longleftrightarrow> True" | "after_drain (GSignal _) \<longleftrightarrow> True" | "after_drain (GFinWait _) \<longleftrightarrow> True"
| "after_drain (GCheck _) \<longleftrightarrow> True" | "after_drain _ \<longleftrightarrow> False"

text \<open>A server that never listened has had no client.\<close>

definition untouched :: "'f server \<Rightarrow> bool" where
  "untouched s \<longleftrightarrow> conns s = {||} \<and> handlers s = {||} \<and> clearing s = {||} \<and> loop s = LoopGone \<and> \<not> open_sessions s"

definition sessions_inv :: "'f server \<Rightarrow> bool" where
  "sessions_inv s \<longleftrightarrow>
     (stage s = Starting \<longrightarrow> untouched s) \<and> (after_drain (stage s) \<longrightarrow> drainCh s \<or> untouched s)
     \<and> ((\<exists>r. stage s = Stopped r) \<and> conns s = {||} \<and> clearing s = {||} \<longrightarrow> \<not> open_sessions s)"

lemma clear_closes: "\<not> open_sessions (on_engine ClearScanSessions s)"
  by (simp add: open_sessions_def on_engine_def ClearScanSessions_def scan_clear_def)

lemma sessions_inv_run: "run_step s s' \<Longrightarrow> sessions_inv s \<Longrightarrow> sessions_inv s'"
  by (erule run_step.cases) (simp_all add: sessions_inv_def untouched_def open_sessions_def)

lemma sessions_inv_life:
  assumes "sessions_inv s" "life_step s s'"
  shows "sessions_inv s'"
  using assms(2)
proof cases
  case run
  then show ?thesis using assms(1) by (rule sessions_inv_run)
next
  case (returns r)
  then show ?thesis
    using assms(1) clear_closes [of s] by (auto simp: sessions_inv_def untouched_def open_sessions_def on_engine_def)
qed (use assms(1) in \<open>simp_all add: sessions_inv_def untouched_def open_sessions_def on_engine_def on_log_def Let_def closeAllConns_def
      BeginDrain_def\<close>)

lemma sessions_inv_step:
  assumes "sessions_inv s" "clients_inv cfg s" "server_step Write Sync cfg s s'"
  shows "sessions_inv s'"
  using assms(3)
proof cases
  case life
  then show ?thesis using sessions_inv_life [OF assms(1)] by simp
next
  case (releases c)
  have n: "nClient s - 1 = int (fcard (conns s'))"
    using assms(2) fcard_remove [OF releases(3)] releases by (simp add: clients_inv_def release_parts)
  have "clearing s' = (if nClient s - 1 = 0 \<and> drainCh s then finsert c (clearing s) else clearing s)"
    using releases by (simp add: releaseConn_locked_def isDraining_def Let_def)
  then have "clearing s' = (if conns s' = {||} \<and> drainCh s then finsert c (clearing s) else clearing s)"
    unfolding n by simp
  moreover have "stage s' = stage s" "wld s' = wld s" "drainCh s' = drainCh s" using releases by (simp_all add: release_parts)
  moreover have "\<not> untouched s" using releases by (auto simp: untouched_def)
  ultimately show ?thesis
    using assms(1) by (auto simp: sessions_inv_def open_sessions_def split: if_splits)
next
  case (clears c)
  then show ?thesis
    using assms(1) clear_closes [of s]
    by (auto simp: sessions_inv_def untouched_def open_sessions_def on_engine_def)
next
  case (admits c s1)
  then show ?thesis using assms(1) by (auto simp: sessions_inv_def untouched_def admit_def open_sessions_def split: if_splits)
next
  case (rejects c s1)
  then show ?thesis using assms(1) by (auto simp: sessions_inv_def untouched_def admit_def open_sessions_def split: if_splits)
qed (use assms(1) in \<open>auto simp: sessions_inv_def untouched_def open_sessions_def\<close>)

lemma sessions_inv_reachable:
  assumes "server_reachable Write Sync cfg w s" "sessions (scanSessions (weng w)) = fmempty"
  shows "sessions_inv s"
  using assms(1)
proof (induction rule: server_reachable.induct)
  case created
  show ?case using assms(2) by (simp add: sessions_inv_def untouched_def open_sessions_def server_New_def)
next
  case (stepped_to s s')
  then show ?case using sessions_inv_step clients_inv_reachable by blast
qed

end
