(* ===== verification/Server_Shutdown.thy ===== *)
theory Server_Shutdown
  imports Server_Lifecycle
begin

text \<open>
  What the shutdown of the server guarantees: \<^verbatim>\<open>Run\<close> always returns, what it returns reports the first
  fatal condition, and an exit without an error has made everything durable, so that a restart finds the
  memory of the server as it was.
\<close>

section \<open>The stages end\<close>

fun stages_left :: "stage \<Rightarrow> nat" where
  "stages_left Starting = 17" | "stages_left Serving = 16"
| "stages_left GListener = 15" | "stages_left GWorker = 14" | "stages_left GGate = 13" | "stages_left GDrain = 12"
| "stages_left GNudge = 11" | "stages_left GWait = 10" | "stages_left (GFinalize _) = 9" | "stages_left (GSignal _) = 8"
| "stages_left (GFinWait _) = 7" | "stages_left (GCheck _) = 6"
| "stages_left (FWorker _) = 7" | "stages_left (FListener _) = 6" | "stages_left (FGate _) = 5" | "stages_left (FDrain _) = 4"
| "stages_left (CloseConns _) = 3" | "stages_left (Linger _) = 2" | "stages_left (Returning _) = 1" | "stages_left (Stopped _) = 0"

lemma stages_decrease: "life_step s s' \<Longrightarrow> stages_left (stage s') < stages_left (stage s)"
  by (cases rule: life_step.cases) (auto simp: on_engine_def on_log_def Let_def closeAllConns_def elim!: run_step.cases)

definition sup_ok :: "supervisor \<Rightarrow> bool" where
  "sup_ok u \<longleftrightarrow> sdone u = (scause u \<noteq> None)"

lemma sup_ok_Fatal: "sup_ok u \<Longrightarrow> sup_ok (sup_Fatal e u)"
  by (simp add: sup_ok_def sup_Fatal_def)

lemma sup_ok_life: "sup_ok (superv s) \<Longrightarrow> life_step s s' \<Longrightarrow> sup_ok (superv s')"
  by (erule life_step.cases)
    (auto simp: on_engine_def on_log_def Let_def closeAllConns_def finalised_def sup_ok_Fatal elim!: run_step.cases split: option.split)

lemma sup_ok_step: "sup_ok (superv s) \<Longrightarrow> server_step Write Sync cfg s s' \<Longrightarrow> sup_ok (superv s')"
  by (erule server_step.cases)
    (auto simp: sup_ok_life sup_ok_Fatal report_def admit_def releaseConn_locked_def on_engine_def Let_def split: list.split if_splits)

lemma sup_ok_reachable: "server_reachable Write Sync cfg w s \<Longrightarrow> sup_ok (superv s)"
proof (induction rule: server_reachable.induct)
  case created
  show ?case by (simp add: server_New_def NewSupervisor_def sup_ok_def)
qed (rule sup_ok_step)

lemma life_enabled:
  assumes "sup_ok (superv s)" "stage s \<noteq> Serving" "\<And>r. stage s \<noteq> Stopped r"
  shows "\<exists>s'. life_step s s'"
proof (cases "stage s")
  case (GCheck d)
  then show ?thesis
    using assms(1) g_fatal [OF GCheck] g_complete [of s] g_late [of s]
    by (cases d) (auto simp: sup_ok_def sup_Fired_def sup_Cause_def)
next
  case GWait
  then show ?thesis using g_wait [of s False] by (auto simp: waitConns_def)
next
  case (Linger r)
  then show ?thesis using linger [of s r False] by (auto simp: waitConns_def)
next
  case (GFinalize d)
  then show ?thesis using g_nolog [OF GFinalize] g_finalize [OF GFinalize] by blast
qed (use assms(2,3) in \<open>blast intro: life_step.intros run_step.intros\<close>)+

section \<open>The first fatal condition decides\<close>

text \<open>The error a stage has decided on.\<close>

fun decided :: "stage \<Rightarrow> srv_err option option" where
  "decided (FWorker r) = Some (Some r)" | "decided (FListener r) = Some (Some r)" | "decided (FGate r) = Some (Some r)"
| "decided (FDrain r) = Some (Some r)" | "decided (CloseConns r) = Some (Some r)" | "decided (Linger r) = Some (Some r)"
| "decided (Returning r) = Some r" | "decided (Stopped r) = Some r" | "decided _ = None"

definition doomed :: "srv_err \<Rightarrow> 'f server \<Rightarrow> bool" where
  "doomed e s \<longleftrightarrow> superv s = \<lparr>sdone = True, scause = Some e\<rparr> \<and> stage s \<noteq> Starting \<and> (\<forall>r. decided (stage s) = Some r \<longrightarrow> r = Some e)"

lemma doomed_life: "doomed e s \<Longrightarrow> life_step s s' \<Longrightarrow> doomed e s'"
  by (erule life_step.cases)
    (auto simp: doomed_def on_engine_def on_log_def Let_def closeAllConns_def finalised_def sup_Fatal_def sup_Fired_def sup_Cause_def
      elim!: run_step.cases split: option.split)

lemma doomed_step:
  assumes "doomed e s" "server_step Write Sync cfg s s'"
  shows "doomed e s'"
  using assms(2)
proof cases
  case life
  then show ?thesis using doomed_life [OF assms(1)] by simp
qed (use assms(1) in \<open>auto simp: doomed_def sup_Fatal_def report_def admit_def releaseConn_locked_def on_engine_def Let_def
      split: list.split if_splits\<close>)

lemma doomed_steps: "(server_step Write Sync cfg)\<^sup>*\<^sup>* s s' \<Longrightarrow> doomed e s \<Longrightarrow> doomed e s'"
  by (induction rule: rtranclp_induct) (auto intro: doomed_step)

section \<open>A clean exit\<close>

lemma Append_keeps [simp]:
  "failed (fst (log_Append l r)) = failed l" "closing (fst (log_Append l r)) = closing l"
  by (auto simp: log_Append_def Let_def split: prod.split option.split)

lemma sys_append_keeps [simp]:
  "spc (sys_append s r) = spc s" "failed (slog (sys_append s r)) = failed (slog s)" "closing (slog (sys_append s r)) = closing (slog s)"
  using Append_keeps [of "slog s" r] by (auto simp: sys_append_def split: prod.splits sum.splits simp del: Append_keeps)

definition finished :: "'f world \<Rightarrow> bool" where
  "finished w \<longleftrightarrow> spc (wsys w) = WDone \<and> failed (slog (wsys w)) = None"

lemma finished_sys:
  "sys_step Write Sync s s' \<Longrightarrow> spc s = WDone \<Longrightarrow> failed (slog s) = None \<Longrightarrow> spc s' = WDone \<and> failed (slog s') = None"
  by (cases rule: sys_step.cases) (auto simp: close_mark_def close_signal_def)

lemma finished_world:
  assumes "world_step Write Sync w w'" "finished w"
  shows "finished w'"
  using assms(1)
proof cases
  case (client_call now c rng later e' out)
  then show ?thesis
    using assms(2) by (cases "call_record now (weng w) c") (simp_all add: after_call_def finished_def Let_def)
next
  case (log_step s')
  then show ?thesis using assms(2) finished_sys [OF log_step(2)] by (simp add: finished_def)
qed (use assms(2) in \<open>simp_all add: finished_def\<close>)

lemma closing_writer: "closing (slog s) \<Longrightarrow> closing (slog (writer_step Write Sync s))"
  by (cases "spc s") (auto simp: writer_step.simps Let_def advanceWritten_def advanceSynced_def log_fail_def log_finish_def swap_batch_def split: prod.splits option.splits)

lemma closing_world:
  assumes "world_step Write Sync w w'" "closing (slog (wsys w))"
  shows "closing (slog (wsys w'))"
  using assms(1)
proof cases
  case (client_call now c rng later e' out)
  then show ?thesis using assms(2) by (cases "call_record now (weng w) c") (simp_all add: after_call_def Let_def)
next
  case (log_step s')
  from log_step(2) assms(2) have "closing (slog s')"
    by (cases rule: sys_step.cases) (auto simp: close_mark_def close_signal_def closing_writer)
  then show ?thesis using log_step(1) by simp
qed (use assms(2) in simp_all)

text \<open>The engine and the log, as the server drives them, stay a reachable world.\<close>

lemma drain_world: "world_step Write Sync w (w\<lparr>weng := BeginDrain (weng w)\<rparr>)"
proof -
  have "call_record (wnow w) (weng w) EDrain = None" by (simp add: call_record_def)
  moreover have "w\<lparr>weng := BeginDrain (weng w), wnow := wnow w\<rparr> = w\<lparr>weng := BeginDrain (weng w)\<rparr>" by simp
  ultimately show ?thesis
    using client_call [of w "wnow w" EDrain undefined undefined "BeginDrain (weng w)" "Some (AnsDone None)" Write Sync]
    by (simp add: after_call_def)
qed

lemma life_world:
  assumes "life_step s s'" "elog (weng (wld s)) = Some (slog (wsys (wld s)))"
    "\<And>d. stage s = GSignal d \<Longrightarrow> closing (slog (wsys (wld s)))"
  shows "wld s' = wld s \<or> world_step Write Sync (wld s) (wld s')"
  using assms(1)
proof cases
  case g_gate
  then show ?thesis using drain_world [of Write Sync "wld s"] by (simp add: on_engine_def)
next
  case (f_gate r)
  then show ?thesis using drain_world [of Write Sync "wld s"] by (simp add: on_engine_def)
next
  case (g_finalize d)
  then show ?thesis using log_step [OF client_close, of "wld s" Write Sync] by (simp add: on_log_def Let_def)
next
  case (g_signal d)
  then show ?thesis using log_step [OF client_signal, of "wld s" Write Sync] assms(3) by (simp add: on_log_def Let_def)
next
  case (returns r)
  then show ?thesis using clear_sessions [of Write Sync "wld s"] by (simp add: on_engine_def)
qed (auto simp: closeAllConns_def elim!: run_step.cases)

definition shutdown_inv :: "'f server \<Rightarrow> bool" where
  "shutdown_inv s \<longleftrightarrow>
     (\<forall>d. stage s = GSignal d \<longrightarrow> closing (slog (wsys (wld s))))
     \<and> (\<forall>d. stage s = GCheck d \<and> \<not> sup_Fired (superv s) \<longrightarrow> finished (wld s))
     \<and> (stage s = Returning None \<or> stage s = Stopped None \<longrightarrow> finished (wld s))"

lemma shutdown_inv_life:
  assumes "shutdown_inv s" "life_step s s'" "elog (weng (wld s)) \<noteq> None"
  shows "shutdown_inv s'"
  using assms(2)
proof cases
  case (g_closed d)
  then show ?thesis
    by (auto simp: shutdown_inv_def finished_def finalised_def log_Failed_def sup_Fatal_def sup_Fired_def split: option.splits)
qed (use assms(1,3) in \<open>auto simp: shutdown_inv_def finished_def on_engine_def on_log_def Let_def closeAllConns_def close_mark_def
      sup_Fatal_def sup_Fired_def elim!: run_step.cases\<close>)

lemma shutdown_inv_works:
  assumes "shutdown_inv s" "world_step Write Sync (wld s) w'" "sdone u \<or> u = superv s"
  shows "shutdown_inv (s\<lparr>wld := w', superv := u\<rparr>)"
  using assms finished_world [OF assms(2)] closing_world [OF assms(2)] by (auto simp: shutdown_inv_def sup_Fired_def)

lemma later_sup: "sdone (sup_Fatal e u) \<or> sup_Fatal e u = u" "sdone (report l u) \<or> report l u = u"
  by (simp_all add: sup_Fatal_def report_def split: list.split)

lemma shutdown_inv_step:
  assumes "shutdown_inv s" "server_step Write Sync cfg s s'" "elog (weng (wld s)) \<noteq> None"
  shows "shutdown_inv s'"
  using assms(2)
proof cases
  case life
  then show ?thesis using shutdown_inv_life [OF assms(1) _ assms(3)] by simp
next
  case (works w')
  then show ?thesis using shutdown_inv_works [OF assms(1) works(2) later_sup(2)] by simp
next
  case (panics e)
  then show ?thesis using assms(1) by (auto simp: shutdown_inv_def sup_Fatal_def sup_Fired_def)
next
  case (clears c)
  then show ?thesis using assms(1) by (simp add: shutdown_inv_def finished_def on_engine_def)
qed (use assms(1) in \<open>auto simp: shutdown_inv_def admit_def releaseConn_locked_def Let_def split: if_splits\<close>)

lemma server_world:
  assumes "server_reachable Write Sync cfg w s" "world_reachable Write Sync contents p t0 old f s0 w" "0 \<le> t0"
  shows "world_reachable Write Sync contents p t0 old f s0 (wld s) \<and> shutdown_inv s"
  using assms(1)
proof (induction rule: server_reachable.induct)
  case created
  then show ?case using assms(2) by (simp add: server_New_def shutdown_inv_def)
next
  case (stepped_to s s')
  then have W: "world_reachable Write Sync contents p t0 old f s0 (wld s)" and inv: "shutdown_inv s" by simp_all
  have l: "elog (weng (wld s)) = Some (slog (wsys (wld s)))"
    using world_reachable_inv [OF W assms(3)] by (simp add: world_inv_def)
  have "wld s' = wld s \<or> world_step Write Sync (wld s) (wld s')"
    using stepped_to(2)
  proof cases
    case life
    then show ?thesis using life_world [OF life l] inv by (auto simp: shutdown_inv_def)
  next
    case (clears c)
    then show ?thesis using clear_sessions [of Write Sync "wld s"] by (simp add: on_engine_def)
  qed (auto simp: admit_def releaseConn_locked_def Let_def split: if_splits)
  then have "world_reachable Write Sync contents p t0 old f s0 (wld s')" using lived [OF W] W by auto
  then show ?case using shutdown_inv_step [OF inv stepped_to(2)] l by simp
qed

section \<open>Properties\<close>


text \<open>A server that drains at once.\<close>

lemma shutdown_path:
  assumes "server_reachable Write Sync cfg w s" "stage s = Starting" "handlers s = {||}" "elog (weng (wld s)) \<noteq> None"
  shows "\<exists>s'. server_reachable Write Sync cfg w s' \<and> stage s' = GFinWait True \<and> superv s' = superv s \<and> conns s' = conns s
    \<and> wsys (wld s') = (wsys (wld s))\<lparr>slog := close_signal (close_mark (slog (wsys (wld s))))\<rparr> \<and> wnow (wld s') = wnow (wld s)"
proof -
  note go = stepped_to [OF _ life]
  define s1 where "s1 = s\<lparr>stage := Serving, lnOpen := True, loop := Accepting\<rparr>"
  define s2 where "s2 = s1\<lparr>stage := GListener\<rparr>"
  define s3 where "s3 = s2\<lparr>stage := GWorker, lnOpen := False\<rparr>"
  define s4 where "s4 = s3\<lparr>stage := GGate\<rparr>"
  define s5 where "s5 = (on_engine BeginDrain s4)\<lparr>stage := GDrain\<rparr>"
  define s6 where "s6 = s5\<lparr>stage := GNudge, drainCh := True\<rparr>"
  define s7 where "s7 = s6\<lparr>stage := GWait\<rparr>"
  define s8 where "s8 = s7\<lparr>stage := GFinalize True\<rparr>"
  define s9 where "s9 = (on_log close_mark s8)\<lparr>stage := GSignal True\<rparr>"
  define s10 where "s10 = (on_log close_signal s9)\<lparr>stage := GFinWait True\<rparr>"
  have "server_reachable Write Sync cfg w s1" unfolding s1_def by (rule go [OF assms(1) run [OF listens [OF assms(2)]]])
  then have "server_reachable Write Sync cfg w s2" unfolding s2_def by (rule go [OF _ run [OF cancelled]]) (simp add: s1_def)
  then have "server_reachable Write Sync cfg w s3" unfolding s3_def by (rule go [OF _ g_listener]) (simp add: s2_def)
  then have "server_reachable Write Sync cfg w s4" unfolding s4_def by (rule go [OF _ g_worker]) (simp add: s3_def)
  then have "server_reachable Write Sync cfg w s5" unfolding s5_def by (rule go [OF _ g_gate]) (simp add: s4_def)
  then have "server_reachable Write Sync cfg w s6" unfolding s6_def by (rule go [OF _ g_drain]) (simp add: s5_def)
  then have "server_reachable Write Sync cfg w s7" unfolding s7_def by (rule go [OF _ g_nudge]) (simp add: s6_def)
  then have "server_reachable Write Sync cfg w s8" unfolding s8_def
    by (rule go [OF _ g_wait]) (simp_all add: s7_def s6_def s5_def s4_def s3_def s2_def s1_def on_engine_def waitConns_def assms(3))
  then have "server_reachable Write Sync cfg w s9" unfolding s9_def
    by (rule go [OF _ g_finalize])
      (use assms(4) in \<open>simp_all add: s8_def s7_def s6_def s5_def s4_def s3_def s2_def s1_def on_engine_def BeginDrain_def\<close>)
  then have "server_reachable Write Sync cfg w s10" unfolding s10_def by (rule go [OF _ g_signal]) (simp add: s9_def)
  then show ?thesis
    by (intro exI [of _ s10])
      (simp add: s10_def s9_def s8_def s7_def s6_def s5_def s4_def s3_def s2_def s1_def on_log_def on_engine_def Let_def)
qed

lemma works_log:
  assumes "server_reachable Write Sync cfg w s" "sys_step Write Sync (wsys (wld s)) x" "hist x = hist (wsys (wld s))" "fatalCalls (slog x) = []"
  shows "\<exists>s'. server_reachable Write Sync cfg w s' \<and> stage s' = stage s \<and> superv s' = superv s \<and> wsys (wld s') = x \<and> wnow (wld s') = wnow (wld s)"
proof -
  let ?w = "(wld s)\<lparr>wsys := x, weng := (weng (wld s))\<lparr>elog := Some (slog x)\<rparr>\<rparr>"
  have "server_reachable Write Sync cfg w (s\<lparr>wld := ?w, superv := report (slog (wsys ?w)) (superv s)\<rparr>)"
    by (rule stepped_to [OF assms(1) works [OF log_step [OF assms(2,3)]]]) simp
  then show ?thesis using assms(4) by (intro exI [of _ "s\<lparr>wld := ?w\<rparr>"]) (simp add: report_def)
qed

lemma works_writer:
  assumes "server_reachable Write Sync cfg w s" "fatalCalls (slog (writer_step Write Sync (wsys (wld s)))) = []"
  shows "\<exists>s'. server_reachable Write Sync cfg w s' \<and> stage s' = stage s \<and> superv s' = superv s
    \<and> wsys (wld s') = writer_step Write Sync (wsys (wld s)) \<and> wnow (wld s') = wnow (wld s)"
proof (cases "spc (wsys (wld s)) \<in> {WIdle, WLoop, WDone}")
  case True
  then have "writer_step Write Sync (wsys (wld s)) = wsys (wld s)" by (auto simp: writer_step.simps)
  then show ?thesis using assms(1) by auto
next
  case False
  from works_log [OF assms(1) run_writer [OF False] _ assms(2)] show ?thesis by simp
qed

text \<open>A server on a new log that is told to stop, up to its exit.\<close>

lemma exits_cleanly:
  obtains s0 s where "lives s0 (world0 s0)" "server_reachable perfect_write perfect_sync DefaultConfig (world0 s0) s" "stage s = Stopped None"
    "hist (wsys (wld s)) = []" "wnow (wld s) = 0"
proof -
  obtain s0 where s0: "lives s0 (world0 s0)" using world0_reachable by blast
  let ?R = "server_reachable perfect_write perfect_sync DefaultConfig (world0 s0)"
  let ?g = "writer_step perfect_write perfect_sync"
  let ?l = "(log_Open Always)\<lparr>closing := True, closeCh := True\<rparr>"
  let ?x = "\<lambda>pc. \<lparr>slog = ?l, sfile = (EncodeHeader, 0), spc = pc, lastSync = 0, hist = []\<rparr>"
  have "?R (server_New (world0 s0))" by (rule created)
  from shutdown_path [OF this] obtain s1 where s1: "?R s1" "stage s1 = GFinWait True" "superv s1 = NewSupervisor" "wnow (wld s1) = 0"
    "wsys (wld s1) = ?x WIdle"
    by (auto simp: server_New_def world0_def close_signal_def close_mark_def)
  have "sys_step perfect_write perfect_sync (?x WIdle) (?x (WBegin True True))"
    using run_close [of "?x WIdle" perfect_write perfect_sync] by simp
  from works_log [OF s1(1), unfolded s1(5), OF this] s1(2-4) obtain s2 where s2: "?R s2" "stage s2 = GFinWait True"
    "superv s2 = NewSupervisor" "wnow (wld s2) = 0" "wsys (wld s2) = ?x (WBegin True True)"
    by (auto simp: log_Open_def)
  have go: "\<exists>s'. ?R s' \<and> stage s' = GFinWait True \<and> superv s' = NewSupervisor \<and> wnow (wld s') = 0 \<and> wsys (wld s') = y"
    if "?R s" "stage s = GFinWait True" "superv s = NewSupervisor" "wnow (wld s) = 0" "?g (wsys (wld s)) = y" "fatalCalls (slog y) = []" for s y
    using works_writer [OF that(1)] that(2-6) by auto
  let ?y = "\<lambda>pc. (?x pc)\<lparr>sfile := (EncodeHeader, length EncodeHeader)\<rparr>"
  obtain s3 where s3: "?R s3" "stage s3 = GFinWait True" "superv s3 = NewSupervisor" "wnow (wld s3) = 0"
    "wsys (wld s3) = ?x (WWrite [] [] True True)"
    using go [OF s2(1-4), of "?x (WWrite [] [] True True)"] s2(5) by (auto simp: writer_run_simps)
  obtain s4 where s4: "?R s4" "stage s4 = GFinWait True" "superv s4 = NewSupervisor" "wnow (wld s4) = 0" "wsys (wld s4) = ?x (WSync True)"
    using go [OF s3(1-4), of "?x (WSync True)"] s3(5) by (auto simp: writer_run_simps)
  obtain s5 where s5: "?R s5" "stage s5 = GFinWait True" "superv s5 = NewSupervisor" "wnow (wld s5) = 0" "wsys (wld s5) = ?y (WSynced True)"
    using go [OF s4(1-4), of "?y (WSynced True)"] s4(5) by (auto simp: writer_run_simps)
  obtain s6 where s6: "?R s6" "stage s6 = GFinWait True" "superv s6 = NewSupervisor" "wnow (wld s6) = 0" "wsys (wld s6) = ?y WFinish"
    using go [OF s5(1-4), of "?y WFinish"] s5(5) by (auto simp: writer_run_simps)
  obtain s7 where s7: "?R s7" "stage s7 = GFinWait True" "superv s7 = NewSupervisor" "wnow (wld s7) = 0"
    "wsys (wld s7) = (?y WDone)\<lparr>slog := ?l\<lparr>closed := True\<rparr>\<rparr>"
    using go [OF s6(1-4), of "(?y WDone)\<lparr>slog := ?l\<lparr>closed := True\<rparr>\<rparr>"] s6(5) by (auto simp: writer_run_simps)
  define s8 where "s8 = s7\<lparr>stage := GCheck True\<rparr>"
  have "finalised (slog (wsys (wld s7))) (superv s7) = superv s7" by (simp add: s7(5) finalised_def log_Failed_def log_Open_def)
  then have "?R s8" unfolding s8_def using stepped_to [OF s7(1) life [OF g_closed [OF s7(2)]]] by (simp add: s7(5))
  then have "?R (s8\<lparr>stage := Returning None\<rparr>)"
    by (rule stepped_to [OF _ life [OF g_complete]]) (simp_all add: s8_def s7(3) NewSupervisor_def sup_Fired_def)
  then have "?R ((on_engine ClearScanSessions (s8\<lparr>stage := Returning None\<rparr>))\<lparr>stage := Stopped None\<rparr>)"
    by (rule stepped_to [OF _ life [OF returns]]) simp
  then show thesis by (rule that [OF s0]) (simp_all add: on_engine_def s8_def s7(4,5))
qed


text \<open>A server whose engine panics while it serves.\<close>

abbreviation demo_step :: "(bytes \<times> nat) server \<Rightarrow> (bytes \<times> nat) server \<Rightarrow> bool" where
  "demo_step \<equiv> server_step perfect_write perfect_sync DefaultConfig"

abbreviation demo_reach :: "(bytes \<times> nat) server \<Rightarrow> bool" where
  "demo_reach \<equiv> server_reachable perfect_write perfect_sync DefaultConfig (world0 store_New)"

definition demo_serving :: "(bytes \<times> nat) server" where
  "demo_serving = (server_New (world0 store_New))\<lparr>stage := Serving, lnOpen := True, loop := Accepting\<rparr>"

definition demo_fatal :: "(bytes \<times> nat) server" where
  "demo_fatal = demo_serving\<lparr>superv := \<lparr>sdone = True, scause = Some (EnginePanic ''p'')\<rparr>\<rparr>"

lemma demo_serving_reach: "demo_reach demo_serving"
  unfolding demo_serving_def by (rule stepped_to [OF created life [OF run [OF listens]]]) (simp add: server_New_def)

lemma demo_fatal_reach: "demo_reach demo_fatal"
proof -
  have "demo_reach (demo_serving\<lparr>superv := engine_guard ''p'' (superv demo_serving)\<rparr>)"
    by (rule stepped_to [OF demo_serving_reach panics])
  then show ?thesis by (simp add: demo_fatal_def demo_serving_def server_New_def NewSupervisor_def sup_Fatal_def)
qed

lemma fatal_path:
  "\<exists>s. demo_step\<^sup>*\<^sup>* demo_fatal s \<and> stage s = Stopped (Some (EnginePanic ''p'')) \<and> conns s = {||} \<and> clearing s = {||}"
proof -
  let ?r = "EnginePanic ''p''"
  note go = rtranclp.rtrancl_into_rtrancl [where r = demo_step, OF _ life]
  define s1 where "s1 = demo_fatal\<lparr>stage := FWorker ?r\<rparr>"
  define s2 where "s2 = s1\<lparr>stage := FListener ?r\<rparr>"
  define s3 where "s3 = s2\<lparr>stage := FGate ?r, lnOpen := False\<rparr>"
  define s4 where "s4 = (on_engine BeginDrain s3)\<lparr>stage := FDrain ?r\<rparr>"
  define s5 where "s5 = s4\<lparr>stage := CloseConns ?r, drainCh := True\<rparr>"
  define s6 where "s6 = (closeAllConns s5)\<lparr>stage := Linger ?r\<rparr>"
  define s7 where "s7 = s6\<lparr>stage := Returning (Some ?r)\<rparr>"
  define s8 where "s8 = (on_engine ClearScanSessions s7)\<lparr>stage := Stopped (Some ?r)\<rparr>"
  have "demo_step\<^sup>*\<^sup>* demo_fatal s1" unfolding s1_def
    by (rule go [OF rtranclp.rtrancl_refl run [OF fatal_seen]]) (simp_all add: demo_fatal_def demo_serving_def sup_Fired_def sup_Cause_def)
  then have "demo_step\<^sup>*\<^sup>* demo_fatal s2" unfolding s2_def by (rule go [OF _ f_worker]) (simp add: s1_def)
  then have "demo_step\<^sup>*\<^sup>* demo_fatal s3" unfolding s3_def by (rule go [OF _ f_listener]) (simp add: s2_def)
  then have "demo_step\<^sup>*\<^sup>* demo_fatal s4" unfolding s4_def by (rule go [OF _ f_gate]) (simp add: s3_def)
  then have "demo_step\<^sup>*\<^sup>* demo_fatal s5" unfolding s5_def by (rule go [OF _ f_drain]) (simp add: s4_def)
  then have "demo_step\<^sup>*\<^sup>* demo_fatal s6" unfolding s6_def by (rule go [OF _ close_conns]) (simp add: s5_def)
  then have "demo_step\<^sup>*\<^sup>* demo_fatal s7" unfolding s7_def
    by (rule go [OF _ linger [of _ _ False]]) (simp_all add: s6_def waitConns_def)
  then have "demo_step\<^sup>*\<^sup>* demo_fatal s8" unfolding s8_def by (rule go [OF _ returns]) (simp add: s7_def)
  then show ?thesis
    by (intro exI [of _ s8])
      (simp add: s8_def s7_def s6_def s5_def s4_def s3_def s2_def s1_def on_engine_def closeAllConns_def demo_fatal_def demo_serving_def server_New_def)
qed

lemma reach_steps:
  assumes "server_reachable Write Sync cfg w s" "(server_step Write Sync cfg)\<^sup>*\<^sup>* s s'"
  shows "server_reachable Write Sync cfg w s'"
  using assms(2,1) by (induction rule: rtranclp_induct) (auto intro: stepped_to)

text \<open>
  C13: a fatal condition is never swallowed. Once one has been reported while the server runs or before the
  graceful shutdown has taken its decision, whatever else happens and whatever is reported later, \<^verbatim>\<open>Run\<close>
  returns exactly that first condition.
\<close>

theorem fatal_is_returned:
  assumes "server_reachable Write Sync cfg w s" "sup_Cause (superv s) = Some e"
    and "stage s \<noteq> Starting" "decided (stage s) = None"
    and "(server_step Write Sync cfg)\<^sup>*\<^sup>* s s'" "stage s' = Stopped r"
  shows "r = Some e"
proof -
  have "superv s = \<lparr>sdone = True, scause = Some e\<rparr>"
    using sup_ok_reachable [OF assms(1)] assms(2) by (cases "superv s") (simp add: sup_ok_def sup_Cause_def)
  then have "doomed e s" using assms(3,4) by (simp add: doomed_def)
  from doomed_steps [OF assms(5) this] assms(6) show ?thesis by (simp add: doomed_def)
qed

theorem fatal_is_returned_witness:
  "\<exists>s. demo_reach demo_fatal \<and> demo_step\<^sup>*\<^sup>* demo_fatal s \<and> stage s = Stopped (Some (EnginePanic ''p''))"
proof -
  obtain s where s: "demo_step\<^sup>*\<^sup>* demo_fatal s" "stage s = Stopped (Some (EnginePanic ''p''))" using fatal_path by blast
  have "Some (EnginePanic ''p'') = Some (EnginePanic ''p'')"
    by (rule fatal_is_returned [OF demo_fatal_reach _ _ _ s]) (simp_all add: demo_fatal_def demo_serving_def sup_Cause_def)
  then show ?thesis using demo_fatal_reach s by blast
qed

text \<open>
  C16: the shutdown always ends. Every step of the goroutine of \<^verbatim>\<open>Run\<close> leaves fewer stages, and in every
  reachable state that is neither serving nor stopped it has a step to take, whatever clients, handlers and
  log do; so once told to stop it returns after at most fifteen steps of its own.
\<close>

theorem shutdown_ends:
  assumes "server_reachable Write Sync cfg w s" "stage s \<noteq> Serving" "\<forall>r. stage s \<noteq> Stopped r"
  shows "(\<exists>s'. life_step s s') \<and> (\<forall>s'. life_step s s' \<longrightarrow> stages_left (stage s') < stages_left (stage s))
    \<and> (stage s = GListener \<longrightarrow> stages_left (stage s) = 15)"
  using life_enabled [OF sup_ok_reachable [OF assms(1)] assms(2)] assms(3) stages_decrease by auto

theorem shutdown_ends_witness:
  "\<exists>s'. life_step (demo_serving\<lparr>stage := GListener\<rparr>) s' \<and> stages_left (stage s') < 15"
proof -
  have "demo_reach (demo_serving\<lparr>stage := GListener\<rparr>)"
    by (rule stepped_to [OF demo_serving_reach life [OF run [OF cancelled]]]) (simp add: demo_serving_def)
  from shutdown_ends [OF this] show ?thesis by auto
qed

text \<open>
  C25: the clients are counted exactly. In every reachable state the counter is the number of admitted
  connections, it never exceeds \<^verbatim>\<open>MaxClients\<close>, and each counted connection has a handler or is about to get
  one, which will release it. A client over the limit is sent the one line of the error and nothing else.
\<close>

theorem clients_counted:
  assumes "server_reachable Write Sync cfg w s"
  shows "nClient s = int (fcard (conns s)) \<and> nClient s \<le> max 0 (MaxClients cfg)
    \<and> conns s |\<subseteq>| handlers s |\<union>| (case loop s of Admitted c \<Rightarrow> {|c|} | _ \<Rightarrow> {||})
    \<and> wout (reject None) = ''-ERR max number of clients reached'' @ CRLF"
proof -
  have "wout (reject None) = ''-ERR max number of clients reached'' @ CRLF" by code_simp
  then show ?thesis
    using clients_inv_reachable [OF assms] by (auto simp: clients_inv_def split: accept_pc.split)
qed

theorem clients_counted_witness:
  "\<exists>s. demo_reach s \<and> nClient s = 1 \<and> fcard (conns s) = 1"
proof -
  define s1 where "s1 = demo_serving\<lparr>loop := Got (nextConn demo_serving), nextConn := Suc (nextConn demo_serving)\<rparr>"
  have "demo_reach s1" unfolding s1_def
    by (rule stepped_to [OF demo_serving_reach accept]) (simp_all add: demo_serving_def)
  then have r: "demo_reach (s1\<lparr>nClient := 1, conns := {|0|}, loop := Admitted 0\<rparr>)"
    using stepped_to [OF _ admits [of s1 0 DefaultConfig "s1\<lparr>nClient := 1, conns := {|0|}\<rparr>"]]
    by (simp add: s1_def demo_serving_def server_New_def admit_def DefaultConfig_def)
  from clients_counted [OF r] have "int (fcard (conns (s1\<lparr>nClient := 1, conns := {|0|}, loop := Admitted 0\<rparr>))) = 1" by simp
  with r show ?thesis by (intro exI [of _ "s1\<lparr>nClient := 1, conns := {|0|}, loop := Admitted 0\<rparr>"]) simp
qed

text \<open>
  C27: no scan session outlives the server. When \<^verbatim>\<open>Run\<close> has returned and the last handler has released its
  connection and is done with it, no session is left, even for handlers that outlived the bounded shutdown
  and started a scan after it had cleared the sessions.
\<close>

theorem sessions_cleared:
  assumes "server_reachable Write Sync cfg w s" "sessions (scanSessions (weng w)) = fmempty"
    and "stage s = Stopped r" "conns s = {||}" "clearing s = {||}"
  shows "sessions (scanSessions (weng (wld s))) = fmempty"
  using sessions_inv_reachable [OF assms(1,2)] assms(3-5) by (auto simp: sessions_inv_def open_sessions_def)

theorem sessions_cleared_witness:
  "\<exists>s r. demo_reach s \<and> stage s = Stopped r \<and> sessions (scanSessions (weng (wld s))) = fmempty"
proof -
  obtain s where s: "demo_step\<^sup>*\<^sup>* demo_fatal s" "stage s = Stopped (Some (EnginePanic ''p''))" "conns s = {||}" "clearing s = {||}"
    using fatal_path by blast
  have r: "demo_reach s" by (rule reach_steps [OF demo_fatal_reach s(1)])
  have "sessions (scanSessions (weng (world0 store_New))) = fmempty" by (simp add: world0_def engine_New_def newScanSessionManager_def)
  from sessions_cleared [OF r this s(2-4)] r s(2) show ?thesis by blast
qed

end
