(* ===== verification/KV_Server.thy ===== *)
theory KV_Server
  imports Server_Lifecycle
begin

text \<open>
  The command \<^verbatim>\<open>cmd/kv-server/main.go\<close>: its flags with their defaults, what it makes of them, and how it
  starts: the log is recovered before the server listens, and a log that cannot be trusted stops it.
\<close>

section \<open>Flags\<close>

record options =
  host :: string
  port :: int
  maxClients :: int
  timeout :: duration
  shutdownTimeout :: duration
  maxBulk :: int
  maxArgs :: int
  maxCommand :: int
  logLevel :: string
  appendOnly :: bool
  appendFilename :: string
  appendFsync :: string

text \<open>The options as they are when no flag is given.\<close>

definition registerFlags :: options where
  "registerFlags =
     \<lparr>host = ''127.0.0.1'', port = 6380, maxClients = 1024, timeout = 0, shutdownTimeout = 10 * nsPerSec,
      maxBulk = push_bit 20 64, maxArgs = 1024, maxCommand = push_bit 20 128, logLevel = ''info'',
      appendOnly = False, appendFilename = ''appendonly.aof'', appendFsync = ''everysec''\<rparr>"

datatype slog_level = LevelDebug | LevelInfo | LevelWarn | LevelError

datatype start_err =
    BadPolicy string
  | BadLevel string
  | Recovering string aof_err

definition parsePolicy :: "string \<Rightarrow> start_err + policy" where
  "parsePolicy s =
     (if s = ''everysec'' then Inr EverySec else if s = ''always'' then Inr Always else Inl (BadPolicy s))"

definition parseLevel :: "string \<Rightarrow> start_err + slog_level" where
  "parseLevel s =
     (if s = ''debug'' then Inr LevelDebug else if s = ''info'' then Inr LevelInfo
      else if s = ''warn'' then Inr LevelWarn else if s = ''error'' then Inr LevelError else Inl (BadLevel s))"

definition run_config :: "options \<Rightarrow> server_config" where
  "run_config opt =
     DefaultConfig\<lparr>Addr := host opt @ '':'' @ FormatInt (port opt), MaxClients := maxClients opt, ReadTimeout := timeout opt,
       ShutdownTimeout := shutdownTimeout opt,
       Limits := \<lparr>MaxArrayElements = maxArgs opt, MaxBulkLength = maxBulk opt, MaxCommandBytes = maxCommand opt\<rparr>\<rparr>"

section \<open>Starting\<close>

text \<open>
  \<^verbatim>\<open>run\<close> up to \<^verbatim>\<open>srv.Run\<close>: an error, or the configuration and the engine the server runs with. The file and
  the operating system's outcomes are those of \<^const>\<open>OpenLog\<close>; the new contents of the file come first.
\<close>

datatype started = Refused start_err | Running server_config engine

definition run_start :: "os_outcome \<Rightarrow> time \<Rightarrow> bytes \<Rightarrow> options \<Rightarrow> bytes \<times> started" where
  "run_start os now contents opt =
     (case parseLevel (logLevel opt) of
        Inl err \<Rightarrow> (contents, Refused err)
      | Inr level \<Rightarrow>
          (let cfg = run_config opt in
           case parsePolicy (appendFsync opt) of
             Inl err \<Rightarrow> (contents, Refused err)
           | Inr policy \<Rightarrow>
               if appendOnly opt then
                 (case the (OpenLog os now contents engine_New policy) of
                    (contents', e, res, Some err) \<Rightarrow> (contents', Refused (Recovering (appendFilename opt) err))
                  | (contents', e, res, None) \<Rightarrow> (contents', Running cfg e))
               else (contents, Running cfg engine_New)))"

text \<open>The exit status of the process: \<^verbatim>\<open>run\<close> returned an error, or nil.\<close>

definition main_exit :: "start_err + srv_err option \<Rightarrow> int" where
  "main_exit r = (case r of Inl _ \<Rightarrow> 1 | Inr (Some _) \<Rightarrow> 1 | Inr None \<Rightarrow> 0)"

section \<open>Properties\<close>

lemma FormatInt_6380: "FormatInt 6380 = ''6380''"
  by (simp add: FormatInt_def FormatUint.simps [of 6380] FormatUint.simps [of 638] FormatUint.simps [of 63] FormatUint.simps [of 6]
      digit_char_def char_of_def bit_0)

text \<open>
  The defaults of the command line are the defaults of the packages. Without flags the server runs with
  exactly \<^verbatim>\<open>server.DefaultConfig\<close>, whose limits are exactly \<^verbatim>\<open>resp.DefaultLimits\<close>, with an empty engine and
  without a log, and the file is not touched; the default durability, once a log is asked for, is \<^verbatim>\<open>everysec\<close>.
\<close>

theorem defaults_agree:
  "run_start os now contents registerFlags = (contents, Running DefaultConfig engine_New)
   \<and> Limits (run_config registerFlags) = DefaultLimits \<and> parsePolicy (appendFsync registerFlags) = Inr EverySec"
  by (simp add: run_start_def registerFlags_def parseLevel_def parsePolicy_def run_config_def DefaultConfig_def DefaultLimits_def
      FormatInt_6380 Let_def push_bit_eq_mult)



end
