(* ===== verification/Cmdgen.thy ===== *)
theory Cmdgen
  imports Command
begin

text \<open>
  The generator of command sequences (\<^verbatim>\<open>internal/cmdgen/cmdgen.go\<close>) for differential tests. The random
  source is a parameter, a function that draws a number below a bound and gives the next state of the source.
\<close>

section \<open>Sequences\<close>

type_synonym Step = "string list"

record gen_config =
  Keys :: "string list"
  Steps :: int

definition gen_DefaultConfig :: gen_config where
  "gen_DefaultConfig = \<lparr>Keys = [''k0'', ''k1'', ''k2'', ''k3''], Steps = 120\<rparr>"

definition gen_values :: "string list" where
  "gen_values =
     [''0'', ''5'', ''-3'', ''+5'', ''07'', ''9223372036854775807'', ''-9223372036854775808'', ''abc'', [],
      ''x'' @ [CHR 0x00] @ ''y'' @ CRLF @ ''z'']"

definition gen_expiries :: "(string \<times> string) list" where
  "gen_expiries = [(''EX'', ''100''), (''EX'', ''1000''), (''PX'', ''100000'')]"

definition verbs :: "string list" where
  "verbs = [''SET'', ''SETEX'', ''GET'', ''MGET'', ''DEL'', ''EXISTS'', ''INCR'', ''DECR'', ''EXPIRE'', ''TTL'', ''PERSIST'']"

definition Verbs :: "string list" where
  "Verbs = verbs"

type_synonym 'r intn = "nat \<Rightarrow> 'r \<Rightarrow> nat \<times> 'r"

text \<open>\<^verbatim>\<open>xs[rng.Intn(len(xs))]\<close>\<close>

definition pick :: "'r intn \<Rightarrow> 'a list \<Rightarrow> 'r \<Rightarrow> 'a \<times> 'r" where
  "pick Intn xs r = (case Intn (length xs) r of (i, r') \<Rightarrow> (xs ! i, r'))"

definition gen_key :: "'r intn \<Rightarrow> gen_config \<Rightarrow> 'r \<Rightarrow> string \<times> 'r" where
  "gen_key Intn cfg r = pick Intn (Keys cfg) r"

fun keys_loop :: "'r intn \<Rightarrow> gen_config \<Rightarrow> nat \<Rightarrow> 'r \<Rightarrow> string list \<times> 'r" where
  "keys_loop Intn cfg 0 r = ([], r)"
| "keys_loop Intn cfg (Suc n) r =
     (case gen_key Intn cfg r of (k, r1) \<Rightarrow> case keys_loop Intn cfg n r1 of (ks, r2) \<Rightarrow> (k # ks, r2))"

definition gen_keys :: "'r intn \<Rightarrow> gen_config \<Rightarrow> 'r \<Rightarrow> string list \<times> 'r" where
  "gen_keys Intn cfg r = (case Intn 3 r of (i, r') \<Rightarrow> keys_loop Intn cfg (1 + i) r')"

text \<open>One pass of the loop: the step it appends, if any, and the source after it.\<close>

definition gen_step :: "'r intn \<Rightarrow> gen_config \<Rightarrow> 'r \<Rightarrow> Step option \<times> 'r" where
  "gen_step Intn cfg r =
     (case pick Intn verbs r of
        (verb, r0) \<Rightarrow>
          if verb = ''SET'' then
            (case gen_key Intn cfg r0 of (k, r1) \<Rightarrow> case pick Intn gen_values r1 of (v, r2) \<Rightarrow> (Some [''SET'', k, v], r2))
          else if verb = ''SETEX'' then
            (case pick Intn gen_expiries r0 of (ex, r1) \<Rightarrow> case gen_key Intn cfg r1 of (k, r2) \<Rightarrow>
               case pick Intn gen_values r2 of (v, r3) \<Rightarrow> (Some [''SET'', k, v, fst ex, snd ex], r3))
          else if verb = ''GET'' then (case gen_key Intn cfg r0 of (k, r1) \<Rightarrow> (Some [''GET'', k], r1))
          else if verb = ''MGET'' then (case gen_keys Intn cfg r0 of (ks, r1) \<Rightarrow> (Some (''MGET'' # ks), r1))
          else if verb = ''DEL'' then (case gen_keys Intn cfg r0 of (ks, r1) \<Rightarrow> (Some (''DEL'' # ks), r1))
          else if verb = ''EXISTS'' then (case gen_keys Intn cfg r0 of (ks, r1) \<Rightarrow> (Some (''EXISTS'' # ks), r1))
          else if verb = ''INCR'' then (case gen_key Intn cfg r0 of (k, r1) \<Rightarrow> (Some [''INCR'', k], r1))
          else if verb = ''DECR'' then (case gen_key Intn cfg r0 of (k, r1) \<Rightarrow> (Some [''DECR'', k], r1))
          else if verb = ''EXPIRE'' then
            (case gen_key Intn cfg r0 of (k, r1) \<Rightarrow> case pick Intn [''100'', ''1000''] r1 of (s, r2) \<Rightarrow> (Some [''EXPIRE'', k, s], r2))
          else if verb = ''TTL'' then (case gen_key Intn cfg r0 of (k, r1) \<Rightarrow> (Some [''TTL'', k], r1))
          else if verb = ''PERSIST'' then (case gen_key Intn cfg r0 of (k, r1) \<Rightarrow> (Some [''PERSIST'', k], r1))
          else (None, r0))"

text \<open>The loop runs until enough steps have been appended; \<open>None\<close> would be that it does not end.\<close>

partial_function (option) seq_loop :: "'r intn \<Rightarrow> gen_config \<Rightarrow> Step list \<Rightarrow> 'r \<Rightarrow> Step list option" where
  "seq_loop Intn cfg out r =
     (if int (length out) < Steps cfg then
        (case gen_step Intn cfg r of
           (st, r') \<Rightarrow> seq_loop Intn cfg (case st of None \<Rightarrow> out | Some s \<Rightarrow> out @ [s]) r')
      else Some out)"

definition Sequence :: "'r intn \<Rightarrow> (int \<Rightarrow> 'r) \<Rightarrow> int \<Rightarrow> gen_config \<Rightarrow> Step list option" where
  "Sequence Intn NewSource seed cfg =
     (if Keys cfg = [] \<or> Steps cfg \<le> 0 then Some [] else seq_loop Intn cfg [] (NewSource seed))"

section \<open>Rendering\<close>

definition hex :: string where
  "hex = ''0123456789abcdef''"

definition quote_byte :: "char \<Rightarrow> string" where
  "quote_byte c =
     (if c = CHR 0x22 \<or> c = CHR 0x5C then [CHR 0x5C, c]
      else if c = CR then [CHR 0x5C, CHR ''r'']
      else if c = LF then [CHR 0x5C, CHR ''n'']
      else if byte c < 32 \<or> byte c > 126 then [CHR 0x5C, CHR ''x'', hex ! drop_bit 4 (byte c), hex ! (byte c mod 16)]
      else [c])"

definition quote :: "string \<Rightarrow> string" where
  "quote s = [CHR 0x22] @ concat (map quote_byte s) @ [CHR 0x22]"

fun string_loop :: "bool \<Rightarrow> Step \<Rightarrow> string" where
  "string_loop first [] = []"
| "string_loop first (part # parts) = (if first then [] else '' '') @ quote part @ string_loop False parts"

definition Step_String :: "Step \<Rightarrow> string" where
  "Step_String s = string_loop True s"

section \<open>Every step is a command the server runs\<close>

text \<open>What \<^verbatim>\<open>rand.Intn\<close> promises.\<close>

definition intn_contract :: "'r intn \<Rightarrow> bool" where
  "intn_contract Intn \<longleftrightarrow> (\<forall>n r. 0 < n \<longrightarrow> fst (Intn n r) < n)"

lemma pick_in:
  assumes "intn_contract Intn" "xs \<noteq> []" "pick Intn xs r = (x, r')"
  shows "x \<in> set xs"
proof -
  obtain i where i: "Intn (length xs) r = (i, r')" "x = xs ! i" using assms(3) by (auto simp: pick_def split: prod.splits)
  have "fst (Intn (length xs) r) < length xs" using assms(1,2) unfolding intn_contract_def by blast
  then show ?thesis by (simp add: i)
qed

lemma keys_in:
  assumes "intn_contract Intn" "Keys cfg \<noteq> []"
  shows "keys_loop Intn cfg n r = (ks, r') \<Longrightarrow> set ks \<subseteq> set (Keys cfg) \<and> length ks = n"
proof (induction n arbitrary: r ks r')
  case (Suc n)
  then obtain k r1 ks' where k: "gen_key Intn cfg r = (k, r1)" "keys_loop Intn cfg n r1 = (ks', r')" "ks = k # ks'"
    by (auto split: prod.splits)
  have "k \<in> set (Keys cfg)" using pick_in [OF assms] k(1) by (simp add: gen_key_def)
  then show ?case using Suc.IH [OF k(2)] k(3) by simp
qed simp

lemma gen_keys_in:
  "intn_contract Intn \<Longrightarrow> Keys cfg \<noteq> [] \<Longrightarrow> gen_keys Intn cfg r = (ks, r') \<Longrightarrow> set ks \<subseteq> set (Keys cfg) \<and> ks \<noteq> []"
  using keys_in [of Intn cfg "1 + fst (Intn 3 r)" "snd (Intn 3 r)" ks r'] by (auto simp: gen_keys_def split: prod.splits)

text \<open>The calls a generated step may make: on the configured keys, and with no deadline nearer than 100 seconds.\<close>

fun tested :: "gen_config \<Rightarrow> ecall \<Rightarrow> bool" where
  "tested cfg (ESet k v t) \<longleftrightarrow> k \<in> set (Keys cfg) \<and> v \<in> set gen_values \<and> (ttl_set t \<longrightarrow> 100 * nsPerSec \<le> ttl_d t)"
| "tested cfg (EExpire k d) \<longleftrightarrow> k \<in> set (Keys cfg) \<and> 100 * nsPerSec \<le> d"
| "tested cfg (EGet k) \<longleftrightarrow> k \<in> set (Keys cfg)"
| "tested cfg (ETTL k) \<longleftrightarrow> k \<in> set (Keys cfg)"
| "tested cfg (EPersist k) \<longleftrightarrow> k \<in> set (Keys cfg)"
| "tested cfg (EIncrBy k n) \<longleftrightarrow> k \<in> set (Keys cfg) \<and> (n = 1 \<or> n = - 1)"
| "tested cfg (EMGet ks) \<longleftrightarrow> ks \<noteq> [] \<and> set ks \<subseteq> set (Keys cfg)"
| "tested cfg (EDelete ks) \<longleftrightarrow> ks \<noteq> [] \<and> set ks \<subseteq> set (Keys cfg)"
| "tested cfg (EExists ks) \<longleftrightarrow> ks \<noteq> [] \<and> set ks \<subseteq> set (Keys cfg)"
| "tested cfg _ \<longleftrightarrow> False"

definition good_step :: "gen_config \<Rightarrow> Step \<Rightarrow> bool" where
  "good_step cfg st \<longleftrightarrow> (\<exists>c f. request_of st = Ask c f \<and> tested cfg c)"

lemma ParseInt_small: "ParseInt ''100'' = Some 100" "ParseInt ''1000'' = Some 1000" "ParseInt ''100000'' = Some 100000"
proof -
  have "FormatInt 100 = ''100''" "FormatInt 1000 = ''1000''" "FormatInt 100000 = ''100000''"
    by (simp_all add: FormatInt_def FormatUint.simps [of 100] FormatUint.simps [of 1000] FormatUint.simps [of 100000]
        FormatUint.simps [of 10000] FormatUint.simps [of 10] FormatUint.simps [of "Suc 0"] digit_char_def char_of_def bit_0)
  then show "ParseInt ''100'' = Some 100" "ParseInt ''1000'' = Some 1000" "ParseInt ''100000'' = Some 100000"
    using ParseInt_FormatInt [of 100] ParseInt_FormatInt [of 1000] ParseInt_FormatInt [of 100000] by (simp_all add: int64_defs)
qed

lemma one_key_requests:
  "request_of [''GET'', k] = ask (EGet k)" "request_of [''TTL'', k] = ask (ETTL k)" "request_of [''PERSIST'', k] = ask (EPersist k)"
  "request_of [''INCR'', k] = Ask (EIncrBy k 1) (reply_of incr_error)"
  "request_of [''DECR'', k] = Ask (EIncrBy k (- 1)) (reply_of incr_error)"
  by (simp_all add: request_of_def upper_byte_def)

lemma many_key_requests:
  "ks \<noteq> [] \<Longrightarrow> request_of (''MGET'' # ks) = ask (EMGet ks)" "ks \<noteq> [] \<Longrightarrow> request_of (''DEL'' # ks) = ask (EDelete ks)"
  "ks \<noteq> [] \<Longrightarrow> request_of (''EXISTS'' # ks) = ask (EExists ks)"
  by (simp_all add: request_of_def upper_byte_def)

lemma set_requests:
  "request_of [''SET'', k, v] = ask (ESet k v NoExpiry)"
  "ex \<in> set gen_expiries \<Longrightarrow> \<exists>t. request_of [''SET'', k, v, fst ex, snd ex] = ask (ESet k v t) \<and> 100 * nsPerSec \<le> ttl_d t"
  by (auto simp: request_of_def upper_byte_def parseSetOptions_def parse_opts.simps gen_expiries_def ParseInt_small ExpiresIn_def
      maxExpireSeconds_def maxExpireMillis_def nsPerSec_def nsPerMs_def wrap64_def int64_defs Let_def)

lemma expire_requests:
  "s \<in> {''100'', ''1000''} \<Longrightarrow> \<exists>d. request_of [''EXPIRE'', k, s] = ask (EExpire k d) \<and> 100 * nsPerSec \<le> d"
  by (auto simp: request_of_def upper_byte_def ParseInt_small nsPerSec_def int64_defs)

lemmas step_requests = one_key_requests many_key_requests set_requests(1)

lemma gen_step_good:
  assumes "intn_contract Intn" "Keys cfg \<noteq> []"
  shows "\<exists>st r'. gen_step Intn cfg r = (Some st, r') \<and> good_step cfg st"
proof -
  obtain verb r0 where v: "pick Intn verbs r = (verb, r0)" by fastforce
  have verb: "verb \<in> set verbs" using pick_in [OF assms(1) _ v] by (simp add: verbs_def)
  obtain k r1 where k: "gen_key Intn cfg r0 = (k, r1)" by fastforce
  have kin: "k \<in> set (Keys cfg)" using pick_in [OF assms] k by (simp add: gen_key_def)
  obtain ks rk where ks: "gen_keys Intn cfg r0 = (ks, rk)" by fastforce
  have ksin: "set ks \<subseteq> set (Keys cfg)" "ks \<noteq> []" using gen_keys_in [OF assms ks] by simp_all
  obtain x r2 where x: "pick Intn gen_values r1 = (x, r2)" by fastforce
  have xin: "x \<in> set gen_values" using pick_in [OF assms(1) _ x] by (simp add: gen_values_def)
  obtain sec rs where sec: "pick Intn [''100'', ''1000''] r1 = (sec, rs)" by fastforce
  have secin: "sec \<in> {''100'', ''1000''}" using pick_in [OF assms(1) _ sec] by simp
  obtain ex re where ex: "pick Intn gen_expiries r0 = (ex, re)" by fastforce
  have exin: "ex \<in> set gen_expiries" using pick_in [OF assms(1) _ ex] by (simp add: gen_expiries_def)
  obtain k' rk' where k': "gen_key Intn cfg re = (k', rk')" by fastforce
  have kin': "k' \<in> set (Keys cfg)" using pick_in [OF assms] k' by (simp add: gen_key_def)
  obtain y ry where y: "pick Intn gen_values rk' = (y, ry)" by fastforce
  have yin: "y \<in> set gen_values" using pick_in [OF assms(1) _ y] by (simp add: gen_values_def)
  have plain: "good_step cfg [''SET'', k, x]" using kin xin by (simp add: good_step_def step_requests NoExpiry_def)
  have timed: "good_step cfg [''SET'', k', y, fst ex, snd ex]" "good_step cfg [''EXPIRE'', k, sec]"
    using set_requests(2) [OF exin, of k' y] expire_requests [OF secin, of k] kin kin' yin by (auto simp: good_step_def)
  have single: "good_step cfg [''GET'', k]" "good_step cfg [''TTL'', k]" "good_step cfg [''PERSIST'', k]"
    "good_step cfg [''INCR'', k]" "good_step cfg [''DECR'', k]"
    using kin by (simp_all add: good_step_def step_requests)
  have several: "good_step cfg (''MGET'' # ks)" "good_step cfg (''DEL'' # ks)" "good_step cfg (''EXISTS'' # ks)"
    using ksin by (simp_all add: good_step_def step_requests)
  from verb have "verb = ''SET'' \<or> verb = ''SETEX'' \<or> verb = ''GET'' \<or> verb = ''MGET'' \<or> verb = ''DEL'' \<or> verb = ''EXISTS''
    \<or> verb = ''INCR'' \<or> verb = ''DECR'' \<or> verb = ''EXPIRE'' \<or> verb = ''TTL'' \<or> verb = ''PERSIST''"
    by (simp add: verbs_def)
  then show ?thesis
    by (elim disjE) (use plain timed single several in \<open>simp_all add: gen_step_def v k ks x sec ex k' y\<close>)
qed

lemma seq_loop_runs:
  assumes "intn_contract Intn" "Keys cfg \<noteq> []" "n = nat (Steps cfg - int (length out))" "list_all (good_step cfg) out"
    "int (length out) \<le> Steps cfg"
  shows "\<exists>steps. seq_loop Intn cfg out r = Some steps \<and> int (length steps) = Steps cfg \<and> list_all (good_step cfg) steps"
  using assms(3-5)
proof (induction n arbitrary: out r)
  case 0
  then show ?case by (subst seq_loop.simps) simp
next
  case (Suc n)
  obtain st r' where st: "gen_step Intn cfg r = (Some st, r')" "good_step cfg st" using gen_step_good [OF assms(1,2)] by blast
  have "int (length out) < Steps cfg" using Suc.prems(1) by linarith
  then have "seq_loop Intn cfg out r = seq_loop Intn cfg (out @ [st]) r'"
    by (subst seq_loop.simps) (simp add: st(1))
  then show ?case using Suc.IH [of "out @ [st]" r'] Suc.prems st(2) by simp
qed

text \<open>
  C39: the generator ends, with exactly the number of steps asked for, and every step is a command the
  server's registry accepts and runs as one engine call: none is refused for its name, its arguments or
  its options. The calls are on the configured keys only, and no generated deadline is nearer than 100 seconds.
\<close>

theorem sequence_runs:
  assumes "intn_contract Intn" "Keys cfg \<noteq> []" "0 \<le> Steps cfg"
  shows "\<exists>steps. Sequence Intn NewSource seed cfg = Some steps \<and> int (length steps) = Steps cfg
    \<and> list_all (\<lambda>st. \<exists>c f. request_of st = Ask c f \<and> tested cfg c) steps"
proof (cases "Steps cfg = 0")
  case False
  then show ?thesis
    using seq_loop_runs [OF assms(1,2) refl, of "[]" "NewSource seed"] assms
    by (auto simp: Sequence_def good_step_def [abs_def])
qed (simp add: Sequence_def)

theorem sequence_runs_witness:
  "\<exists>steps. Sequence (\<lambda>n r. (r mod n, Suc r)) (\<lambda>seed. 0) 7 gen_DefaultConfig = Some steps \<and> length steps = 120"
proof -
  have "intn_contract (\<lambda>n r. (r mod n, Suc r))" by (simp add: intn_contract_def)
  from sequence_runs [OF this, of gen_DefaultConfig "\<lambda>seed. 0" 7] show ?thesis by (auto simp: gen_DefaultConfig_def)
qed

section \<open>Reading a rendered step\<close>

fun hex_val :: "char \<Rightarrow> nat" where
  "hex_val c = (if byte c < 58 then byte c - 48 else byte c - 87)"

fun unquote :: "string \<Rightarrow> string \<times> string" where
  "unquote [] = ([], [])"
| "unquote (c # s) =
     (if c = CHR 0x22 then ([], s)
      else if c \<noteq> CHR 0x5C then (case unquote s of (t, rest) \<Rightarrow> (c # t, rest))
      else case s of
             [] \<Rightarrow> ([], [])
           | d # s1 \<Rightarrow>
               if d = CHR ''x'' then
                 (case s1 of
                    h # l # s2 \<Rightarrow> (case unquote s2 of (t, rest) \<Rightarrow> (char_of (16 * hex_val h + hex_val l) # t, rest))
                  | _ \<Rightarrow> ([], []))
               else (case unquote s1 of
                       (t, rest) \<Rightarrow> ((if d = CHR ''r'' then CR else if d = CHR ''n'' then LF else d) # t, rest)))"

fun read_step :: "nat \<Rightarrow> string \<Rightarrow> Step" where
  "read_step 0 s = []"
| "read_step (Suc n) s =
     (case s of
        [] \<Rightarrow> []
      | c # s1 \<Rightarrow>
          if c = CHR '' '' then (case unquote (tl s1) of (t, rest) \<Rightarrow> t # read_step n rest)
          else (case unquote s1 of (t, rest) \<Rightarrow> t # read_step n rest))"

lemma hex_digit: "n < 16 \<Longrightarrow> hex_val (hex ! n) = n \<and> 48 \<le> byte (hex ! n) \<and> byte (hex ! n) \<le> 102"
proof -
  assume n: "n < 16"
  have "list_all (\<lambda>n. hex_val (hex ! n) = n \<and> 48 \<le> byte (hex ! n) \<and> byte (hex ! n) \<le> 102) [0..<16]"
    by (simp add: upt_rec [of _ 16] hex_def)
  then show ?thesis using n by (simp add: list_all_iff)
qed

lemma byte_bounds: "byte c < 256"
  by simp

lemma hex_pair:
  "char_of (16 * hex_val (hex ! drop_bit 4 (byte c)) + hex_val (hex ! (byte c mod 16))) = c"
  "32 \<le> byte (hex ! drop_bit 4 (byte c)) \<and> byte (hex ! drop_bit 4 (byte c)) \<le> 126"
  "32 \<le> byte (hex ! (byte c mod 16)) \<and> byte (hex ! (byte c mod 16)) \<le> 126"
proof -
  have "drop_bit 4 (byte c) < 16" using byte_bounds [of c] by (simp add: drop_bit_eq_div div_less_iff_less_mult)
  note hi = hex_digit [OF this] and lo = hex_digit [of "byte c mod 16"]
  have "16 * drop_bit 4 (byte c) + byte c mod 16 = byte c" by (simp add: drop_bit_eq_div)
  then show "char_of (16 * hex_val (hex ! drop_bit 4 (byte c)) + hex_val (hex ! (byte c mod 16))) = c"
    using hi lo by (simp del: hex_val.simps)
  show "32 \<le> byte (hex ! drop_bit 4 (byte c)) \<and> byte (hex ! drop_bit 4 (byte c)) \<le> 126" using hi by simp
  show "32 \<le> byte (hex ! (byte c mod 16)) \<and> byte (hex ! (byte c mod 16)) \<le> 126" using lo by simp
qed

lemma unquote_byte: "unquote (quote_byte c @ s) = (case unquote s of (t, rest) \<Rightarrow> (c # t, rest))"
  using hex_pair(1) [of c] by (auto simp: quote_byte_def simp del: hex_val.simps split: prod.split)

lemma unquote_quote: "unquote (concat (map quote_byte s) @ CHR 0x22 # rest) = (s, rest)"
  by (induction s) (simp_all add: unquote_byte del: unquote.simps(2), simp)

lemma read_rest: "read_step (length parts) (string_loop False parts) = parts"
  by (induction parts) (simp_all add: quote_def unquote_quote del: unquote.simps)

lemma read_first: "read_step (length parts) (string_loop True parts) = parts"
  by (cases parts) (simp_all add: quote_def unquote_quote read_rest del: unquote.simps)

lemma quote_printable: "list_all (\<lambda>c. 32 \<le> byte c \<and> byte c \<le> 126) (quote_byte c)"
  using hex_pair(2,3) [of c] by (auto simp: quote_byte_def)

lemma string_printable: "list_all (\<lambda>c. 32 \<le> byte c \<and> byte c \<le> 126) (string_loop first parts)"
proof (induction parts arbitrary: first)
  case (Cons p ps)
  have "list_all (\<lambda>c. 32 \<le> byte c \<and> byte c \<le> 126) (concat (map quote_byte p))"
    using quote_printable by (induction p) simp_all
  then show ?case using Cons by (simp add: quote_def)
qed simp

text \<open>
  A rendered step is one line of printable text that can be read back: whatever bytes the step holds,
  quotes, line breaks and binary bytes included, reading its rendering gives the step, so no two steps of
  the same length look alike.
\<close>

theorem step_string_round_trip:
  "read_step (length st) (Step_String st) = st \<and> list_all (\<lambda>c. 32 \<le> byte c \<and> byte c \<le> 126) (Step_String st)"
  by (simp add: Step_String_def read_first string_printable)

end
