(* ===== verification/Spec2Isabelle.thy ===== *)
theory Spec2Isabelle
  imports Glob Engine_Worker Server_Clients Server_Shutdown KV_Server Cmdgen
begin

text \<open>
  A verification library for go-kv-store, an in-memory key-value server with expiry, an append-only file
  and a RESP2 front end, written in Go. All paths below are relative to \<^verbatim>\<open>src/\<close>.

  \<^bold>\<open>The program.\<close> A client's bytes reach a connection handler (\<^verbatim>\<open>internal/server/conn.go\<close>), which decodes
  requests (\<^verbatim>\<open>internal/resp/reader.go\<close>), looks the command up (\<^verbatim>\<open>internal/command\<close>) and calls the engine
  (\<^verbatim>\<open>internal/engine\<close>). The engine owns the store (\<^verbatim>\<open>internal/store\<close>) under one lock; with persistence on,
  a mutation first appends a record to the log (\<^verbatim>\<open>internal/aof\<close>), then changes the store, and after the
  lock is released waits until the record has reached what the policy promises. The log's writer goroutine
  moves batches of records to the file. The reply goes back through the encoder
  (\<^verbatim>\<open>internal/resp/writer.go\<close>), whose buffer is flushed before the handler blocks. An expiration worker
  sweeps the store, the supervisor collects fatal errors, and \<^verbatim>\<open>internal/server/server.go\<close> starts all this
  and shuts it down. At the next start the file is replayed into an empty store.

  \<^bold>\<open>How it is modelled.\<close> Strings and byte slices are lists of bytes, times and durations integers
  (nanoseconds) with Go's saturation and wrap-around written out, the byte accounting of scan sessions
  64-bit words, Go maps finite maps. The order in which Go ranges over a map is a parameter; what is
  assumed of it (\<open>fair_ranger\<close>) is that it visits every key once. Errors are values. Code under a
  mutex is one definition on the state the mutex protects; goroutines are inductive step relations over
  such definitions, with everything that can happen between two critical sections as a step of its own.
  The file, the socket, the clock and the random numbers are parameters.

  \<^bold>\<open>Theories.\<close>
  \<^item> \<open>KV_Prelude\<close>: Go values, the parts of the standard library the code calls, shared lemmas.
  \<^item> \<open>Store\<close> (\<^verbatim>\<open>internal/store/store.go\<close>): \<open>store_Get\<close>, \<open>store_Set\<close>, \<open>store_Delete\<close>, \<open>store_ReclaimExpired\<close> and the
    rest over the two maps. The locales \<open>applier\<close> and \<open>ttl_store\<close> state what replay and the engine rely
    on; the store is an instance and refines a table of entries.
  \<^item> \<open>Glob\<close> (\<^verbatim>\<open>internal/glob/glob.go\<close>): the two-index matcher with its single retry point, and that it
    decides the recursive meaning of patterns.
  \<^item> \<open>Resp_Writer\<close>, \<open>Resp_Reader\<close> (\<^verbatim>\<open>internal/resp\<close>): encoder and decoder over a buffered sink and a
    stream. The decoder is shown equal to a grammar, to respect its limits before it allocates, and to
    invert the encoder; the locales \<open>framing\<close> and \<open>vocabulary\<close> give the laws of a self-delimiting format.
  \<^item> \<open>Aof_Codec\<close> (\<^verbatim>\<open>record.go\<close>, \<^verbatim>\<open>codec.go\<close>, \<^verbatim>\<open>header.go\<close>): records as requests of a fixed vocabulary,
    the file's header, the round trip, and what a reader makes of a record past its limits.
  \<^item> \<open>Aof_Replay\<close> (\<^verbatim>\<open>replay.go\<close>, \<^verbatim>\<open>open.go\<close>): recovery into any \<open>applier\<close>; a torn tail is cut off,
    anything else that does not decode is refused.
  \<^item> \<open>Aof_Log\<close>, \<open>Aof_Durability\<close> (\<^verbatim>\<open>log.go\<close>): \<open>log_Append\<close>, \<open>log_Await\<close>, \<open>log_flush\<close>, \<open>writeFull\<close>; then the writer
    goroutine, its clients and \<^verbatim>\<open>Close\<close> interleaved (\<open>sys_step\<close>): an acknowledged record survives a crash
    as its policy says, no waiter is forgotten, a failed log refuses all that follows.
  \<^item> \<open>Scan_Sessions\<close> (\<^verbatim>\<open>scan_sessions.go\<close>): the sessions behind cursors, their limits and expiry, and that
    a scan lists its snapshot.
  \<^item> \<open>Engine\<close> (\<^verbatim>\<open>engine.go\<close>, \<^verbatim>\<open>incr.go\<close>, \<^verbatim>\<open>discovery.go\<close>): every operation with its guards. \<open>Engine_Spec\<close>: each
    call acts atomically on one table. \<open>Engine_Recovery\<close>: engine and log together (\<open>world_step\<close>); what a
    restart recovers. \<open>Engine_Worker\<close>: starting and stopping the expiration worker.
  \<^item> \<open>Command\<close> (\<^verbatim>\<open>internal/command\<close>): the registry, every handler and \<open>Dispatch\<close>; each request means one
    call of the engine, a page of a scan, or a reply at once (\<open>request_of\<close>, \<open>perform\<close>). The locale
    \<open>reply_law\<close> proves a law of all replies from a law of each kind.
  \<^item> \<open>Server_Reply\<close> (\<^verbatim>\<open>writeReply\<close>): replies to bytes and back. \<open>Server_Conn\<close>, \<open>Server_Session\<close> (\<^verbatim>\<open>conn.go\<close>,
    \<^verbatim>\<open>flush_on_block.go\<close>): one handler with its socket (\<open>conn_step\<close>). \<open>Server_Clients\<close>: any number of handlers
    over one engine (\<open>clients_step\<close>) and the one order that explains all replies.
  \<^item> \<open>Server_Lifecycle\<close>, \<open>Server_Shutdown\<close> (\<^verbatim>\<open>server.go\<close>, \<^verbatim>\<open>supervisor.go\<close>): the accept loop, admission, the two
    ways to shut down (\<open>server_step\<close>); that shutdown ends, what it returns, what it leaves behind.
  \<^item> \<open>KV_Server\<close> (\<^verbatim>\<open>cmd/kv-server/main.go\<close>): flags and start-up. \<open>Cmdgen\<close> (\<^verbatim>\<open>internal/cmdgen\<close>): the generator of
    command sequences over an arbitrary random source.

  \<^bold>\<open>Bounds and fuel.\<close> Loops are functions with a termination proof. The exceptions: \<open>seq_loop\<close> of
  \<open>Cmdgen\<close> is a partial function, as the source's loop counts the steps it appends and not its turns, and
  it is proved to return for every random source that keeps within its range; the client-side decoder of replies in \<open>Server_Reply\<close> (a specification, not code) has fuel for the
  nesting of arrays, at least the height of the reply. The random tokens a scan may draw
  are a list, and a scan that exhausts it has no result. A request that waits for the log is a
  value (\<open>Waiting\<close>, \<open>None\<close>), and progress of waiters is proved on the interleaved log.
  A handler's own steps between two reads are bounded in \<open>Server_Session\<close>.

  \<^bold>\<open>Limits of the composition.\<close> \<open>Server_Clients\<close> runs handlers over an engine without a log; with the log, the
  engine's calls are covered by \<open>Engine_Spec\<close> and \<open>Engine_Recovery\<close>. \<open>Server_Lifecycle\<close> keeps of a handler only
  when it starts, releases its connection and ends; what it does in between is \<open>Server_Conn\<close>.

  \<^bold>\<open>Not modelled.\<close>
  \<^item> \<^verbatim>\<open>examples/go-client/main.go\<close>: a script of calls into a third-party client library.
  \<^item> Log lines, stack traces and the text \<^verbatim>\<open>recoverConn\<close> prints (that a panic ends the connection is
    modelled), the listener's address, signal delivery, and the parsing done by Go's \<^verbatim>\<open>flag\<close> package.
  \<^item> Timers and deadlines as real time: a deadline is an event that may come at any moment.
  \<^item> The operating system below \<^verbatim>\<open>Write\<close>, \<^verbatim>\<open>Sync\<close> and \<^verbatim>\<open>Truncate\<close>: the contract of a file opened for
    appending is a hypothesis, and concrete files in the witnesses satisfy it.
  \<^item> Memory use and data races of the Go runtime: each critical section is taken to be atomic.
\<close>

end
